(* ===== verification/Prelude.thy ===== *)
theory Prelude
  imports Main "HOL-Library.Word" "HOL-Library.List_Lexorder" "HOL-Library.Product_Lexorder"
    "HOL-Library.Char_ord"
begin

text \<open>
  Shared vocabulary of the development.

  \<^item> The machine types of \<^verbatim>\<open>common.h\<close>: \<open>u8\<close> .. \<open>u64\<close> are words of that width (arithmetic
    wraps), \<open>bytes\<close> is \<^verbatim>\<open>std::vector<uint8_t>\<close>, and the fixed arrays \<^verbatim>\<open>H256\<close>, \<^verbatim>\<open>Addr20\<close>,
    \<^verbatim>\<open>Pub64\<close>, \<^verbatim>\<open>Sig64\<close> are byte lists whose length is stated where it matters.
  \<^item> Results: a call that may throw or return an error is a value of \<open>'e + 'a\<close> (\<open>Inl\<close> the
    error), sequenced by \<open>res_bind\<close>.
  \<^item> Generic facts about lists, folds and words that several components use, and the
    \<open>named_theorems\<close> collections that the component proofs draw on.
\<close>

unbundle bit_operations_syntax

named_theorems wire_simps \<open>lengths and unfolding of the byte encodings\<close>
named_theorems ledger_simps \<open>reading an account after a ledger update\<close>
named_theorems chain_simps \<open>fields of a chain after an update\<close>
named_theorems len_simps \<open>lengths of fixed-size arrays\<close>

type_synonym u8 = "8 word"
type_synonym u16 = "16 word"
type_synonym u32 = "32 word"
type_synonym u64 = "64 word"

type_synonym bytes = "u8 list"
type_synonym h256 = bytes
type_synonym addr20 = bytes
type_synonym pub64 = bytes
type_synonym sig64 = bytes

subsection \<open>Sequencing of fallible calls\<close>

fun res_bind :: "'e + 'a \<Rightarrow> ('a \<Rightarrow> 'e + 'b) \<Rightarrow> 'e + 'b" where
  "res_bind (Inl e) f = Inl e"
| "res_bind (Inr x) f = f x"

lemma res_bind_Inr_iff:
  "res_bind m f = Inr y \<longleftrightarrow> (\<exists>x. m = Inr x \<and> f x = Inr y)"
  by (cases m) auto

lemma res_bind_cases:
  assumes "res_bind m f = Inr y"
  obtains x where "m = Inr x" and "f x = Inr y"
  using assms by (auto simp: res_bind_Inr_iff)

subsection \<open>Lists\<close>

lemma fold_snoc_map: "fold (\<lambda>x acc. acc @ [f x]) xs acc = acc @ map f xs"
  by (induction xs arbitrary: acc) auto

lemma fold_append_concat: "fold (\<lambda>x acc. acc @ f x) xs acc = acc @ concat (map f xs)"
  by (induction xs arbitrary: acc) auto

lemma list_eq_take_drop: "xs = ys @ zs \<Longrightarrow> length ys = n \<Longrightarrow> take n xs = ys \<and> drop n xs = zs"
  by auto

lemma drop_add_append:
  assumes "drop n xs = ys @ zs"
  shows "drop (n + length ys) xs = zs"
proof -
  have "drop (n + length ys) xs = drop (length ys) (drop n xs)"
    by (simp add: add.commute)
  then show ?thesis by (simp add: assms)
qed

lemma append_eq_same_length:
  "length a = length b \<Longrightarrow> a @ c = b @ d \<longleftrightarrow> a = b \<and> c = d"
  by simp

lemma concat_map_inj_fixed_length:
  assumes "concat (map f xs) = concat (map f ys)"
    and "length xs = length ys"
    and "\<And>x y a b. x \<in> set xs \<Longrightarrow> y \<in> set ys \<Longrightarrow> f x @ a = f y @ b \<Longrightarrow> x = y"
  shows "xs = ys"
  using assms(2) assms(1,3)
proof (induction xs ys rule: list_induct2)
  case Nil
  then show ?case by simp
next
  case (Cons x xs y ys)
  from Cons.prems(1) have eq: "f x @ concat (map f xs) = f y @ concat (map f ys)" by simp
  then have xy: "x = y" by (rule Cons.prems(2)[rotated 2]) simp_all
  with eq have "concat (map f xs) = concat (map f ys)" by simp
  then have "xs = ys" by (rule Cons.IH) (use Cons.prems(2) in \<open>auto\<close>)
  with xy show ?case by simp
qed

lemma sum_list_map_le:
  "(\<And>x. x \<in> set xs \<Longrightarrow> (f x :: nat) \<le> g x) \<Longrightarrow> sum_list (map f xs) \<le> sum_list (map g xs)"
  by (induction xs) (auto simp: add_mono)

subsection \<open>Words as bounded naturals\<close>

lemma unat_plus_no_wrap:
  fixes a b :: "'a::len word"
  assumes "unat a + unat b < 2 ^ LENGTH('a)"
  shows "unat (a + b) = unat a + unat b"
  using assms by (simp add: unat_word_ariths)

lemma unat_minus_no_wrap:
  fixes a b :: "'a::len word"
  assumes "b \<le> a"
  shows "unat (a - b) = unat a - unat b"
  using assms by (rule unat_sub)

lemma unat_bound: "unat (a :: 'a::len word) < 2 ^ LENGTH('a)"
  by (rule unsigned_less)

lemma unat_Suc_no_wrap:
  fixes a :: "'a::len word"
  assumes "Suc (unat a) < 2 ^ LENGTH('a)"
  shows "unat (a + 1) = Suc (unat a)"
  using assms by (simp add: unat_word_ariths unat_of_nat)

lemma unat_u8_less: "unat (b :: u8) < 256"
  using unat_bound[of b] by simp

text \<open>The test \<^verbatim>\<open>b & 0x80\<close> on a byte.\<close>

lemma top_bit_clear_iff: "(b :: u8) AND 0x80 = 0 \<longleftrightarrow> unat b < 128"
proof -
  have "b AND 0x80 = 0 \<longleftrightarrow> \<not> bit b 7"
    using and_exp_eq_0_iff_not_bit[of b 7] by simp
  moreover have "bit b 7 \<longleftrightarrow> odd (unat b div 128)"
    using bit_unsigned_iff[of b 7, where 'a = nat] by (simp add: bit_iff_odd)
  moreover have "odd (unat b div 128) \<longleftrightarrow> 128 \<le> unat b"
  proof (cases "128 \<le> unat b")
    case True
    then have "unat b div 128 = 1" using unat_u8_less[of b] by (intro div_nat_eqI) simp_all
    with True show ?thesis by simp
  qed simp
  ultimately show ?thesis by auto
qed

lemma unat_double_u8: "unat (b :: u8) < 128 \<Longrightarrow> unat (push_bit 1 b) = 2 * unat b"
  by (simp add: push_bit_eq_mult unat_word_ariths)

subsection \<open>Transition systems\<close>

text \<open>
  The interface of the two concurrent parts (the threads of a node, the threads of the GPU
  kernel): a predicate that holds at the start and is kept by every step.
\<close>

locale step_system =
  fixes step :: "'s \<Rightarrow> 's \<Rightarrow> bool"
    and start :: "'s \<Rightarrow> bool"
    and inv :: "'s \<Rightarrow> bool"
  assumes start_inv: "start s \<Longrightarrow> inv s"
    and step_inv: "inv s \<Longrightarrow> step s s' \<Longrightarrow> inv s'"
begin

lemma run_inv: "step\<^sup>*\<^sup>* s s' \<Longrightarrow> inv s \<Longrightarrow> inv s'"
  by (induction rule: rtranclp_induct) (auto intro: step_inv)

lemma reach_inv: "start s \<Longrightarrow> step\<^sup>*\<^sup>* s s' \<Longrightarrow> inv s'"
  using run_inv start_inv by blast

lemma reach_step: "start s \<Longrightarrow> step\<^sup>*\<^sup>* s s' \<Longrightarrow> step s' s'' \<Longrightarrow> inv s' \<and> inv s''"
  using reach_inv step_inv by blast

end

end
