(* ===== verification/StdMap.thy ===== *)
theory StdMap
  imports Prelude
begin

text \<open>
  \<^verbatim>\<open>std::map<K, V>\<close> as the sources use it: an ordered dictionary whose iteration visits the
  keys in increasing order (\<^verbatim>\<open>for (auto& [k, v] : m)\<close> in \<^verbatim>\<open>core.h\<close>, \<^verbatim>\<open>net.h\<close>, \<^verbatim>\<open>node_impl.h\<close>).
  The model is the list of entries in iteration order, with strictly increasing keys
  (\<open>smap_ok\<close>).  \<open>smap_find\<close> is \<^verbatim>\<open>find\<close>, \<open>smap_put\<close> is \<^verbatim>\<open>m[k] = v\<close>, \<open>smap_erase\<close> is
  \<^verbatim>\<open>erase\<close>, \<open>smap_at\<close> reads \<^verbatim>\<open>m[k]\<close> with the default a missing key gets.

  The locale \<open>ordered_dict\<close> is the contract the clients rely on; it is interpreted on the
  list model at the end.
\<close>

type_synonym ('k, 'v) smap = "('k \<times> 'v) list"

definition smap_ok :: "('k::linorder, 'v) smap \<Rightarrow> bool" where
  "smap_ok m \<longleftrightarrow> sorted_wrt (<) (map fst m)"

definition smap_find :: "('k::linorder, 'v) smap \<Rightarrow> 'k \<Rightarrow> 'v option" where
  "smap_find m k = map_of m k"

definition smap_put :: "'k::linorder \<Rightarrow> 'v \<Rightarrow> ('k, 'v) smap \<Rightarrow> ('k, 'v) smap" where
  "smap_put k v m = takeWhile (\<lambda>e. fst e < k) m @ (k, v) # dropWhile (\<lambda>e. fst e \<le> k) m"

definition smap_erase :: "'k::linorder \<Rightarrow> ('k, 'v) smap \<Rightarrow> ('k, 'v) smap" where
  "smap_erase k m = filter (\<lambda>e. fst e \<noteq> k) m"

definition smap_at :: "'v \<Rightarrow> ('k::linorder, 'v) smap \<Rightarrow> 'k \<Rightarrow> 'v" where
  "smap_at d m k = (case smap_find m k of None \<Rightarrow> d | Some v \<Rightarrow> v)"

lemma map_of_eq_sorted_entries:
  assumes "sorted_wrt (<) (map fst xs)" and "sorted_wrt (<) (map fst ys)"
    and "\<And>k. map_of xs k = map_of ys k"
  shows "xs = (ys :: ('k::linorder \<times> 'v) list)"
proof -
  have dx: "distinct (map fst xs)" and dy: "distinct (map fst ys)"
    using assms(1,2) by (simp_all add: strict_sorted_iff)
  have "set xs = set ys"
    using map_of_eq_Some_iff[OF dx] map_of_eq_Some_iff[OF dy] assms(3) by auto
  then have "set (map fst xs) = set (map fst ys)" by simp
  with assms(1,2) have keys: "map fst xs = map fst ys"
    by (intro sorted_distinct_set_unique) (simp_all add: strict_sorted_iff)
  moreover have "map snd xs = map (\<lambda>k. the (map_of xs k)) (map fst xs)"
    using dx by auto
  moreover have "map snd ys = map (\<lambda>k. the (map_of ys k)) (map fst ys)"
    using dy by auto
  ultimately have "map snd xs = map snd ys" using assms(3) by simp
  with keys show ?thesis by (metis zip_map_fst_snd)
qed

subsection \<open>The contract\<close>

locale ordered_dict =
  fixes find :: "'m \<Rightarrow> 'k::linorder \<Rightarrow> 'v option"
    and put :: "'k \<Rightarrow> 'v \<Rightarrow> 'm \<Rightarrow> 'm"
    and erase :: "'k \<Rightarrow> 'm \<Rightarrow> 'm"
    and entries :: "'m \<Rightarrow> ('k \<times> 'v) list"
    and ok :: "'m \<Rightarrow> bool"
  assumes entries_sorted: "ok m \<Longrightarrow> sorted_wrt (<) (map fst (entries m))"
    and find_entries: "ok m \<Longrightarrow> find m k = Some v \<longleftrightarrow> (k, v) \<in> set (entries m)"
    and find_put: "ok m \<Longrightarrow> find (put k v m) k' = (if k' = k then Some v else find m k')"
    and find_erase: "ok m \<Longrightarrow> find (erase k m) k' = (if k' = k then None else find m k')"
    and ok_put: "ok m \<Longrightarrow> ok (put k v m)"
    and ok_erase: "ok m \<Longrightarrow> ok (erase k m)"
begin

lemma distinct_keys: "ok m \<Longrightarrow> distinct (map fst (entries m))"
  using entries_sorted by (simp add: strict_sorted_iff)

lemma find_None_iff: "ok m \<Longrightarrow> find m k = None \<longleftrightarrow> k \<notin> fst ` set (entries m)"
  using find_entries[of m k] by (cases "find m k") (force simp: image_iff)+

lemma map_of_entries: "ok m \<Longrightarrow> map_of (entries m) k = find m k"
  using find_None_iff[of m k] find_entries[of m k] distinct_keys[of m]
  by (cases "find m k") (auto simp: map_of_eq_None_iff)

text \<open>Two dictionaries with the same lookups iterate in the same order.\<close>

lemma entries_eqI:
  assumes "ok m" and "ok m'" and "\<And>k. find m k = find m' k"
  shows "entries m = entries m'"
  by (rule map_of_eq_sorted_entries[OF entries_sorted[OF assms(1)] entries_sorted[OF assms(2)]])
    (simp add: map_of_entries assms)

lemma mem_put: "ok m \<Longrightarrow> e \<in> set (entries (put k v m)) \<longleftrightarrow>
    e = (k, v) \<or> (fst e \<noteq> k \<and> e \<in> set (entries m))"
  using find_entries[of "put k v m" "fst e" "snd e"] find_entries[of m "fst e" "snd e"]
  by (cases e) (auto simp: ok_put find_put split: if_splits)

lemma mem_erase: "ok m \<Longrightarrow> e \<in> set (entries (erase k m)) \<longleftrightarrow> fst e \<noteq> k \<and> e \<in> set (entries m)"
  using find_entries[of "erase k m" "fst e" "snd e"] find_entries[of m "fst e" "snd e"]
  by (cases e) (auto simp: ok_erase find_erase split: if_splits)

lemma keys_put: "ok m \<Longrightarrow> fst ` set (entries (put k v m)) = insert k (fst ` set (entries m))"
  by (auto simp: set_eq_iff image_iff Bex_def mem_put)

text \<open>
  A quantity summed over the values changes by the difference of the value written and the
  value it replaces.
\<close>

lemma total_as_sum:
  "ok m \<Longrightarrow> sum_list (map (\<lambda>e. f (snd e)) (entries m)) = (\<Sum>e\<in>set (entries m). f (snd e))"
  using distinct_keys[of m] by (simp add: sum_list_distinct_conv_sum_set distinct_map)

lemma total_put:
  fixes f :: "'v \<Rightarrow> nat"
  assumes "ok m"
  shows "sum_list (map (\<lambda>e. f (snd e)) (entries (put k v m))) + (case find m k of None \<Rightarrow> 0 | Some w \<Rightarrow> f w)
      = sum_list (map (\<lambda>e. f (snd e)) (entries m)) + f v"
proof -
  let ?A = "{e \<in> set (entries m). fst e \<noteq> k}"
  have put: "set (entries (put k v m)) = insert (k, v) ?A" using assms by (auto simp: mem_put)
  have fin: "finite ?A" by simp
  have "sum (\<lambda>e. f (snd e)) (set (entries m)) =
      sum (\<lambda>e. f (snd e)) ?A + (case find m k of None \<Rightarrow> 0 | Some w \<Rightarrow> f w)"
  proof (cases "find m k")
    case None
    then have "?A = set (entries m)" using find_None_iff[OF assms, of k] by auto
    with None show ?thesis by simp
  next
    case (Some w)
    have "set (entries m) = insert (k, w) ?A"
    proof (rule set_eqI)
      fix e
      show "e \<in> set (entries m) \<longleftrightarrow> e \<in> insert (k, w) ?A"
        using Some find_entries[OF assms, of k "snd e"] by (cases e) auto
    qed
    then have "sum (\<lambda>e. f (snd e)) (set (entries m)) = f w + sum (\<lambda>e. f (snd e)) ?A"
      using fin sum.insert[OF fin, of "(k, w)" "\<lambda>e. f (snd e)"] by simp
    with Some show ?thesis by simp
  qed
  moreover have "sum (\<lambda>e. f (snd e)) (insert (k, v) ?A) = f v + sum (\<lambda>e. f (snd e)) ?A"
    using fin by simp
  ultimately show ?thesis
    by (simp add: total_as_sum assms ok_put put)
qed

end

subsection \<open>The list model meets the contract\<close>

lemma takeWhile_sorted_keys:
  "smap_ok m \<Longrightarrow> set (takeWhile (\<lambda>e. fst e < k) m) = {e \<in> set m. fst e < k}"
  by (induction m) (force simp: smap_ok_def)+

lemma dropWhile_sorted_keys:
  "smap_ok m \<Longrightarrow> set (dropWhile (\<lambda>e. fst e \<le> k) m) = {e \<in> set m. k < fst e}"
  by (induction m) (force simp: smap_ok_def)+

lemma smap_ok_distinct: "smap_ok m \<Longrightarrow> distinct (map fst m)"
  by (simp add: smap_ok_def strict_sorted_iff)

lemma smap_ok_Nil [simp]: "smap_ok []"
  by (simp add: smap_ok_def)

lemma sorted_wrt_takeWhile_part: "sorted_wrt P xs \<Longrightarrow> sorted_wrt P (takeWhile Q xs)"
  by (metis sorted_wrt_append takeWhile_dropWhile_id)

lemma sorted_wrt_dropWhile_part: "sorted_wrt P xs \<Longrightarrow> sorted_wrt P (dropWhile Q xs)"
  by (metis sorted_wrt_append takeWhile_dropWhile_id)

lemma smap_ok_put: "smap_ok m \<Longrightarrow> smap_ok (smap_put k v m)"
proof -
  assume m: "smap_ok m"
  then have "sorted_wrt (\<lambda>a b. fst a < fst b) m" by (simp add: smap_ok_def sorted_wrt_map)
  with takeWhile_sorted_keys[OF m, of k] dropWhile_sorted_keys[OF m, of k] show ?thesis
    by (auto simp: smap_ok_def smap_put_def sorted_wrt_map sorted_wrt_append
        sorted_wrt_takeWhile_part sorted_wrt_dropWhile_part)
qed

lemma smap_ok_erase: "smap_ok m \<Longrightarrow> smap_ok (smap_erase k m)"
  by (simp add: smap_ok_def smap_erase_def sorted_wrt_map sorted_wrt_filter)

lemma smap_find_mem: "smap_ok m \<Longrightarrow> smap_find m k = Some v \<longleftrightarrow> (k, v) \<in> set m"
  by (simp add: smap_find_def smap_ok_distinct)

lemma set_smap_put:
  "smap_ok m \<Longrightarrow> set (smap_put k v m) = insert (k, v) {e \<in> set m. fst e \<noteq> k}"
  by (auto simp: smap_put_def takeWhile_sorted_keys dropWhile_sorted_keys)

lemma smap_find_put:
  assumes "smap_ok m"
  shows "smap_find (smap_put k v m) k' = (if k' = k then Some v else smap_find m k')"
proof -
  have "smap_find (smap_put k v m) k' = Some w \<longleftrightarrow>
      (if k' = k then Some v else smap_find m k') = Some w" for w
    using assms by (auto simp: smap_find_mem smap_ok_put set_smap_put)
  then show ?thesis by (metis not_None_eq)
qed

lemma smap_find_erase:
  "smap_find (smap_erase k m) k' = (if k' = k then None else smap_find m k')"
  by (induction m) (auto simp: smap_find_def smap_erase_def)

interpretation sm: ordered_dict smap_find smap_put smap_erase "\<lambda>m. m" smap_ok
  by unfold_locales
    (simp add: smap_ok_def, simp_all add: smap_find_mem smap_find_put smap_find_erase
      smap_ok_put smap_ok_erase)

lemma smap_find_Nil [simp]: "smap_find [] k = None"
  by (simp add: smap_find_def)

lemma smap_at_put:
  "smap_ok m \<Longrightarrow> smap_at d (smap_put k v m) k' = (if k' = k then v else smap_at d m k')"
  by (simp add: smap_at_def sm.find_put)

lemma length_smap_put_fresh:
  "smap_ok m \<Longrightarrow> smap_find m k = None \<Longrightarrow> length (smap_put k v m) = Suc (length m)"
  using sm.total_put[of m "\<lambda>_. 1" k v] by (simp add: sum_list_triv)

end
