(* ===== verification/Common.thy ===== *)
theory Common
  imports StdMap
begin

text \<open>
  \<^verbatim>\<open>src/common.h\<close>: hexadecimal text, the little-endian \<^verbatim>\<open>Writer\<close>/\<^verbatim>\<open>Reader\<close> pair and the
  command-line parser.

  A \<open>writer\<close> is the byte vector it has accumulated; every \<^verbatim>\<open>Writer\<close> method appends to it.
  A \<open>reader\<close> is the buffer with the current offset; a method that throws
  \<^verbatim>\<open>std::runtime_error\<close> returns \<open>Inl\<close>.  \<open>rat pre suf\<close> is the reader that has consumed \<open>pre\<close>
  and has \<open>suf\<close> in front of it.

  The locale \<open>codec\<close> is the contract between a serializer and its parser: what the parser
  reads is exactly what the serializer wrote, and it accepts nothing else.  It is
  interpreted for the integer and array fields here, and for headers, transactions and
  blocks in \<open>TxBlock\<close>.
\<close>

subsection \<open>hex\<close>

definition hexdigits :: string where
  "hexdigits = ''0123456789abcdef''"

definition hexs :: "bytes \<Rightarrow> string" where
  "hexs p = fold (\<lambda>b s. s @ [hexdigits ! unat (drop_bit 4 b)] @ [hexdigits ! unat (b AND 15)]) p []"

definition hexval :: "char \<Rightarrow> int" where
  "hexval ch = (let c = of_char ch in
     if of_char CHR ''0'' \<le> c \<and> c \<le> of_char CHR ''9'' then c - of_char CHR ''0''
     else if of_char CHR ''a'' \<le> c \<and> c \<le> of_char CHR ''f'' then c - of_char CHR ''a'' + 10
     else if of_char CHR ''A'' \<le> c \<and> c \<le> of_char CHR ''F'' then c - of_char CHR ''A'' + 10
     else -1)"

fun unhex_loop :: "string \<Rightarrow> bytes \<Rightarrow> bytes option" where
  "unhex_loop [] b = Some b"
| "unhex_loop [c] b = None"
| "unhex_loop (c # d # s) b =
     (let h = hexval c; l = hexval d in
      if h < 0 \<or> l < 0 then None
      else unhex_loop s (b @ [word_of_int (push_bit 4 h OR l)]))"

definition unhex :: "string \<Rightarrow> bytes option" where
  "unhex s = (if odd (length s) then None else unhex_loop s [])"

definition unhex_n :: "nat \<Rightarrow> string \<Rightarrow> bytes option" where
  "unhex_n n s = (case unhex s of None \<Rightarrow> None | Some b \<Rightarrow> if length b \<noteq> n then None else Some b)"

definition is_zero :: "bytes \<Rightarrow> bool" where
  "is_zero a \<longleftrightarrow> (\<forall>c \<in> set a. c = 0)"

subsection \<open>Writer\<close>

type_synonym writer = bytes

definition w_u8 :: "u8 \<Rightarrow> writer \<Rightarrow> writer" where
  "w_u8 v b = b @ [v]"

definition w_u16 :: "u16 \<Rightarrow> writer \<Rightarrow> writer" where
  "w_u16 v b = (b @ [ucast (v AND 0xff)]) @ [ucast (drop_bit 8 v AND 0xff)]"

definition w_u32 :: "u32 \<Rightarrow> writer \<Rightarrow> writer" where
  "w_u32 v b = fold (\<lambda>i b. b @ [ucast (drop_bit (8 * i) v AND 0xff)]) [0..<4] b"

definition w_u64 :: "u64 \<Rightarrow> writer \<Rightarrow> writer" where
  "w_u64 v b = fold (\<lambda>i b. b @ [ucast (drop_bit (8 * i) v AND 0xff)]) [0..<8] b"

definition w_raw :: "bytes \<Rightarrow> writer \<Rightarrow> writer" where
  "w_raw p b = b @ p"

definition w_arr :: "bytes \<Rightarrow> writer \<Rightarrow> writer" where
  "w_arr a b = w_raw a b"

definition w_blob :: "bytes \<Rightarrow> writer \<Rightarrow> writer" where
  "w_blob v b = w_raw v b"

subsection \<open>Reader\<close>

datatype read_error = ShortRead | PayloadTooBig | BadBlock | TrailingBytes

record reader =
  rbuf :: bytes
  roff :: nat

definition mk_reader :: "bytes \<Rightarrow> reader" where
  "mk_reader b = \<lparr>rbuf = b, roff = 0\<rparr>"

definition rd_need :: "nat \<Rightarrow> reader \<Rightarrow> read_error + unit" where
  "rd_need k r = (if roff r + k > length (rbuf r) then Inl ShortRead else Inr ())"

definition rd_u8 :: "reader \<Rightarrow> read_error + u8 \<times> reader" where
  "rd_u8 r = res_bind (rd_need 1 r) (\<lambda>_. Inr (rbuf r ! roff r, r\<lparr>roff := roff r + 1\<rparr>))"

definition rd_u16 :: "reader \<Rightarrow> read_error + u16 \<times> reader" where
  "rd_u16 r = res_bind (rd_need 2 r) (\<lambda>_.
     let v = ucast (rbuf r ! roff r) OR push_bit 8 (ucast (rbuf r ! (roff r + 1)))
     in Inr (v, r\<lparr>roff := roff r + 2\<rparr>))"

definition rd_u32 :: "reader \<Rightarrow> read_error + u32 \<times> reader" where
  "rd_u32 r = res_bind (rd_need 4 r) (\<lambda>_.
     let v = fold (\<lambda>i v. push_bit 8 v OR ucast (rbuf r ! (roff r + i))) (rev [0..<4]) 0
     in Inr (v, r\<lparr>roff := roff r + 4\<rparr>))"

definition rd_u64 :: "reader \<Rightarrow> read_error + u64 \<times> reader" where
  "rd_u64 r = res_bind (rd_need 8 r) (\<lambda>_.
     let v = fold (\<lambda>i v. push_bit 8 v OR ucast (rbuf r ! (roff r + i))) (rev [0..<8]) 0
     in Inr (v, r\<lparr>roff := roff r + 8\<rparr>))"

definition rd_blob :: "nat \<Rightarrow> reader \<Rightarrow> read_error + bytes \<times> reader" where
  "rd_blob k r = res_bind (rd_need k r) (\<lambda>_.
     Inr (take k (drop (roff r) (rbuf r)), r\<lparr>roff := roff r + k\<rparr>))"

definition rd_arr :: "nat \<Rightarrow> reader \<Rightarrow> read_error + bytes \<times> reader" where
  "rd_arr n r = res_bind (rd_need n r) (\<lambda>_.
     Inr (take n (drop (roff r) (rbuf r)), r\<lparr>roff := roff r + n\<rparr>))"

definition rd_remaining :: "reader \<Rightarrow> nat" where
  "rd_remaining r = length (rbuf r) - roff r"

text \<open>
  The counted loops \<^verbatim>\<open>for (i = 0; i < n; i++) v.push_back(parse(r))\<close> of \<^verbatim>\<open>Block::parse\<close> and
  the \<^verbatim>\<open>M_BLOCKS\<close> handler.
\<close>

fun rd_many :: "(reader \<Rightarrow> read_error + 'a \<times> reader) \<Rightarrow> nat \<Rightarrow> 'a list \<Rightarrow> reader
    \<Rightarrow> read_error + 'a list \<times> reader" where
  "rd_many rd 0 acc r = Inr (acc, r)"
| "rd_many rd (Suc n) acc r = res_bind (rd r) (\<lambda>(x, r). rd_many rd n (acc @ [x]) r)"

subsection \<open>Args\<close>

record args =
  kv :: "(string, string) smap"
  pos :: "string list"

definition is_opt :: "string \<Rightarrow> bool" where
  "is_opt a \<longleftrightarrow> take 2 a = ''--''"

fun args_loop :: "string list \<Rightarrow> args \<Rightarrow> args" where
  "args_loop [] s = s"
| "args_loop [a] s =
     (if is_opt a then s\<lparr>kv := smap_put (drop 2 a) ''1'' (kv s)\<rparr> else s\<lparr>pos := pos s @ [a]\<rparr>)"
| "args_loop (a # v # rest) s =
     (if is_opt a then
        (if \<not> is_opt v then args_loop rest (s\<lparr>kv := smap_put (drop 2 a) v (kv s)\<rparr>)
         else args_loop (v # rest) (s\<lparr>kv := smap_put (drop 2 a) ''1'' (kv s)\<rparr>))
      else args_loop (v # rest) (s\<lparr>pos := pos s @ [a]\<rparr>))"

definition args_parse :: "string list \<Rightarrow> args" where
  "args_parse argv = args_loop (tl argv) \<lparr>kv = [], pos = []\<rparr>"

definition args_get :: "args \<Rightarrow> string \<Rightarrow> string \<Rightarrow> string" where
  "args_get s k dflt = (case smap_find (kv s) k of None \<Rightarrow> dflt | Some v \<Rightarrow> v)"

definition args_has :: "args \<Rightarrow> string \<Rightarrow> bool" where
  "args_has s k \<longleftrightarrow> smap_find (kv s) k \<noteq> None"

subsection \<open>Little-endian bytes of a word\<close>

definition le_bytes :: "nat \<Rightarrow> 'a::len word \<Rightarrow> bytes" where
  "le_bytes n v = map (\<lambda>i. ucast (drop_bit (8 * i) v)) [0..<n]"

fun le_word :: "bytes \<Rightarrow> 'a::len word" where
  "le_word [] = 0"
| "le_word (b # bs) = push_bit 8 (le_word bs) OR ucast b"

lemma length_le_bytes [simp]: "length (le_bytes n v) = n"
  by (simp add: le_bytes_def)

lemma bit_le_word:
  "bit (le_word bs :: 'a::len word) i \<longleftrightarrow>
     i < LENGTH('a) \<and> i div 8 < length bs \<and> bit (bs ! (i div 8)) (i mod 8)"
proof (induction bs arbitrary: i)
  case Nil
  then show ?case by simp
next
  case (Cons b bs)
  show ?case
  proof (cases "i < 8")
    case True
    then show ?thesis by (auto simp: bit_simps)
  next
    case False
    then have "i div 8 = Suc ((i - 8) div 8)" and "i mod 8 = (i - 8) mod 8"
      by (simp_all add: div_if mod_if)
    moreover from False have "\<not> bit b i"
      using bit_imp_le_length[of b i] by auto
    ultimately show ?thesis using False
      by (auto simp: bit_simps Cons.IH)
  qed
qed

lemma le_word_le_bytes:
  assumes "8 * n = LENGTH('a::len)"
  shows "le_word (le_bytes n v) = (v :: 'a word)"
proof (rule bit_eqI)
  fix i
  assume i: "possible_bit TYPE('a word) i"
  then have "i < LENGTH('a)" by simp
  moreover from this have "i div 8 < n" using assms by simp
  ultimately show "bit (le_word (le_bytes n v) :: 'a word) i = bit v i"
    by (simp add: bit_le_word le_bytes_def bit_simps)
qed

lemma le_bytes_le_word:
  assumes "8 * length bs \<le> LENGTH('a::len)"
  shows "le_bytes (length bs) (le_word bs :: 'a word) = bs"
proof (rule nth_equalityI)
  show "length (le_bytes (length bs) (le_word bs :: 'a word)) = length bs" by simp
next
  fix i
  assume "i < length (le_bytes (length bs) (le_word bs :: 'a word))"
  then have i: "i < length bs" by simp
  show "le_bytes (length bs) (le_word bs :: 'a word) ! i = bs ! i"
  proof (rule bit_eqI)
    fix j
    assume "possible_bit TYPE(8 word) j"
    then have "j < 8" by simp
    with i assms show "bit (le_bytes (length bs) (le_word bs :: 'a word) ! i) j = bit (bs ! i) j"
      by (auto simp: le_bytes_def bit_simps bit_le_word)
  qed
qed

lemma ucast_and_ff: "ucast ((v :: 'a::len word) AND 0xff) = (ucast v :: u8)"
proof -
  have "(0xff :: 'a word) = mask 8" by (simp add: mask_eq_exp_minus_1)
  show ?thesis unfolding \<open>0xff = mask 8\<close>
    by (auto intro!: bit_eqI simp: bit_simps intro: bit_imp_le_length)
qed

lemma w_int_eq [wire_simps]:
  "w_u8 v8 b = b @ [v8]"
  "w_u16 v16 b = b @ le_bytes 2 v16"
  "w_u32 v32 b = b @ le_bytes 4 v32"
  "w_u64 v64 b = b @ le_bytes 8 v64"
  "w_raw p b = b @ p" "w_arr p b = b @ p" "w_blob p b = b @ p"
  by (simp_all add: w_u8_def w_u16_def w_u32_def w_u64_def w_raw_def w_arr_def w_blob_def
      fold_snoc_map ucast_and_ff le_bytes_def numeral_2_eq_2)

subsection \<open>The contract between a serializer and its parser\<close>

definition rat :: "bytes \<Rightarrow> bytes \<Rightarrow> reader" where
  "rat pre suf = \<lparr>rbuf = pre @ suf, roff = length pre\<rparr>"

lemma mk_reader_rat: "mk_reader b = rat [] b"
  by (simp add: mk_reader_def rat_def)

lemma rd_remaining_rat [simp]: "rd_remaining (rat pre suf) = length suf"
  by (simp add: rd_remaining_def rat_def)

lemma rat_inject: "rat p s = rat p' s' \<longleftrightarrow> p = p' \<and> s = s'"
  by (auto simp: rat_def)

locale codec =
  fixes enc :: "'a \<Rightarrow> bytes"
    and rd :: "reader \<Rightarrow> read_error + 'a \<times> reader"
    and ok :: "'a \<Rightarrow> bool"
  assumes rd_enc: "ok x \<Longrightarrow> rd (rat pre (enc x @ suf)) = Inr (x, rat (pre @ enc x) suf)"
    and rd_Inr: "rd (rat pre s) = Inr (x, r') \<Longrightarrow>
      ok x \<and> (\<exists>suf. s = enc x @ suf \<and> r' = rat (pre @ enc x) suf)"
begin

lemma rd_enc_end: "ok x \<Longrightarrow> rd (rat pre (enc x)) = Inr (x, rat (pre @ enc x) [])"
  using rd_enc[of x pre "[]"] by simp

lemma rdE:
  assumes "rd (rat pre s) = Inr (x, r')"
  obtains suf where "ok x" and "s = enc x @ suf" and "r' = rat (pre @ enc x) suf"
  using rd_Inr[OF assms] by blast

text \<open>No encoding is a proper prefix of another: streams of encodings are unambiguous.\<close>

lemma enc_prefix_free:
  assumes "ok x" and "ok y" and "enc x @ a = enc y @ b"
  shows "x = y \<and> a = b"
proof -
  have "rd (rat [] (enc x @ a)) = rd (rat [] (enc y @ b))" using assms(3) by simp
  then have "x = y" using assms(1,2) by (simp add: rd_enc)
  with assms(3) show ?thesis by simp
qed

lemma enc_inj: "ok x \<Longrightarrow> ok y \<Longrightarrow> enc x = enc y \<Longrightarrow> x = y"
  using enc_prefix_free[of x y "[]" "[]"] by simp

text \<open>Parsing a whole buffer with nothing left over succeeds on exactly one encoding.\<close>

lemma rd_whole: "(\<exists>r. rd (mk_reader s) = Inr (x, r) \<and> rd_remaining r = 0) \<longleftrightarrow> ok x \<and> s = enc x"
proof
  assume "\<exists>r. rd (mk_reader s) = Inr (x, r) \<and> rd_remaining r = 0"
  then show "ok x \<and> s = enc x" by (auto simp: mk_reader_rat elim!: rdE)
next
  assume "ok x \<and> s = enc x"
  then show "\<exists>r. rd (mk_reader s) = Inr (x, r) \<and> rd_remaining r = 0"
    by (auto simp: mk_reader_rat rd_enc_end)
qed

lemma rd_many_enc:
  "list_all ok xs \<Longrightarrow> rd_many rd (length xs) acc (rat pre (concat (map enc xs) @ suf)) =
     Inr (acc @ xs, rat (pre @ concat (map enc xs)) suf)"
  by (induction xs arbitrary: acc pre) (simp_all add: rd_enc)

lemma rd_many_Inr:
  "rd_many rd n acc (rat pre s) = Inr (ys, r') \<Longrightarrow>
     \<exists>xs suf. ys = acc @ xs \<and> length xs = n \<and> list_all ok xs \<and>
       s = concat (map enc xs) @ suf \<and> r' = rat (pre @ concat (map enc xs)) suf"
proof (induction n arbitrary: acc pre s)
  case 0
  then show ?case by auto
next
  case (Suc n)
  from Suc.prems obtain x r1 where r1: "rd (rat pre s) = Inr (x, r1)"
    and more: "rd_many rd n (acc @ [x]) r1 = Inr (ys, r')"
    by (auto elim: res_bind_cases)
  from r1 obtain t where x: "ok x" "s = enc x @ t" "r1 = rat (pre @ enc x) t" by (rule rdE)
  from Suc.IH[OF more[unfolded x(3)]] obtain xs suf where
    "ys = (acc @ [x]) @ xs" "length xs = n" "list_all ok xs" "t = concat (map enc xs) @ suf"
    "r' = rat ((pre @ enc x) @ concat (map enc xs)) suf" by blast
  with x show ?case by (intro exI[of _ "x # xs"]) auto
qed

end

subsection \<open>Fields\<close>

lemma rd_need_rat: "rd_need k (rat pre s) = (if k \<le> length s then Inr () else Inl ShortRead)"
  by (auto simp: rd_need_def rat_def)

lemma nth_rat: "rbuf (rat pre s) ! (roff (rat pre s) + i) = s ! i"
  by (simp add: rat_def nth_append)

lemma rat_advance: "length a = k \<Longrightarrow> (rat pre (a @ s))\<lparr>roff := roff (rat pre (a @ s)) + k\<rparr> = rat (pre @ a) s"
  by (simp add: rat_def)

lemma fold_be_le_word:
  "fold (\<lambda>i v. push_bit 8 v OR ucast (s ! i)) (rev [0..<n]) 0 = le_word (take n s)"
  if "n \<le> length s"
proof -
  have "fold (\<lambda>i v. push_bit 8 v OR ucast (s ! i)) (rev [m..<n]) 0 = le_word (drop m (take n s))"
    if "m \<le> n" for m
    using that
  proof (induction "n - m" arbitrary: m)
    case 0
    then show ?case by simp
  next
    case (Suc k)
    then have m: "m < n" and k: "k = n - Suc m" by simp_all
    from m have "rev [m..<n] = rev [Suc m..<n] @ [m]" by (simp add: upt_conv_Cons)
    moreover have "drop m (take n s) = s ! m # drop (Suc m) (take n s)"
      using m \<open>n \<le> length s\<close> by (metis Cons_nth_drop_Suc length_take min.absorb2 nth_take)
    ultimately show ?case using Suc.hyps(1)[OF k] m by simp
  qed
  from this[of 0] show ?thesis by simp
qed

lemma rd_int_rat:
  "rd_u8 (rat pre s) = (if 1 \<le> length s then Inr (s ! 0, rat (pre @ take 1 s) (drop 1 s)) else Inl ShortRead)"
  "rd_u16 (rat pre s) = (if 2 \<le> length s then Inr (le_word (take 2 s), rat (pre @ take 2 s) (drop 2 s)) else Inl ShortRead)"
  "rd_u32 (rat pre s) = (if 4 \<le> length s then Inr (le_word (take 4 s), rat (pre @ take 4 s) (drop 4 s)) else Inl ShortRead)"
  "rd_u64 (rat pre s) = (if 8 \<le> length s then Inr (le_word (take 8 s), rat (pre @ take 8 s) (drop 8 s)) else Inl ShortRead)"
  "rd_blob k (rat pre s) = (if k \<le> length s then Inr (take k s, rat (pre @ take k s) (drop k s)) else Inl ShortRead)"
  "rd_arr k (rat pre s) = (if k \<le> length s then Inr (take k s, rat (pre @ take k s) (drop k s)) else Inl ShortRead)"
proof -
  have adv: "(rat pre s)\<lparr>roff := roff (rat pre s) + k\<rparr> = rat (pre @ take k s) (drop k s)"
    if "k \<le> length s" for k
    using rat_advance[of "take k s" k pre "drop k s"] that by simp
  have two: "le_word (take 2 s) = (ucast (s ! 0) OR push_bit 8 (ucast (s ! 1)) :: u16)"
    if "2 \<le> length s"
    using that by (cases s; cases "tl s") (auto simp: or.commute)
  show "rd_u8 (rat pre s) = (if 1 \<le> length s then Inr (s ! 0, rat (pre @ take 1 s) (drop 1 s)) else Inl ShortRead)"
    using adv[of 1] nth_rat[of pre s 0] by (simp add: rd_u8_def rd_need_rat)
  show "rd_u16 (rat pre s) = (if 2 \<le> length s then Inr (le_word (take 2 s), rat (pre @ take 2 s) (drop 2 s)) else Inl ShortRead)"
    using adv[of 2] nth_rat[of pre s 0] nth_rat[of pre s 1] two by (simp add: rd_u16_def rd_need_rat)
  show "rd_u32 (rat pre s) = (if 4 \<le> length s then Inr (le_word (take 4 s), rat (pre @ take 4 s) (drop 4 s)) else Inl ShortRead)"
    using adv[of 4] fold_be_le_word[of 4 s, where 'a = 32] by (simp add: rd_u32_def rd_need_rat nth_rat Let_def)
  show "rd_u64 (rat pre s) = (if 8 \<le> length s then Inr (le_word (take 8 s), rat (pre @ take 8 s) (drop 8 s)) else Inl ShortRead)"
    using adv[of 8] fold_be_le_word[of 8 s, where 'a = 64] by (simp add: rd_u64_def rd_need_rat nth_rat Let_def)
  show "rd_blob k (rat pre s) = (if k \<le> length s then Inr (take k s, rat (pre @ take k s) (drop k s)) else Inl ShortRead)"
    using adv[of k] by (simp add: rd_blob_def rd_need_rat) (simp add: rat_def)
  show "rd_arr k (rat pre s) = (if k \<le> length s then Inr (take k s, rat (pre @ take k s) (drop k s)) else Inl ShortRead)"
    using adv[of k] by (simp add: rd_arr_def rd_need_rat) (simp add: rat_def)
qed

interpretation u8c: codec "\<lambda>v. w_u8 v []" rd_u8 "\<lambda>_. True"
proof unfold_locales
  fix x :: u8 and pre suf
  show "rd_u8 (rat pre (w_u8 x [] @ suf)) = Inr (x, rat (pre @ w_u8 x []) suf)"
    by (simp add: rd_int_rat wire_simps)
next
  fix x r' pre s
  assume "rd_u8 (rat pre s) = Inr (x, r')"
  then show "True \<and> (\<exists>suf. s = w_u8 x [] @ suf \<and> r' = rat (pre @ w_u8 x []) suf)"
    by (cases s) (auto simp: rd_int_rat wire_simps split: if_splits)
qed

lemma take_le_word:
  "n \<le> length s \<Longrightarrow> 8 * n = LENGTH('a::len) \<Longrightarrow> le_bytes n (le_word (take n s) :: 'a word) = take n s"
  using le_bytes_le_word[of "take n s", where 'a = 'a] by simp

interpretation u16c: codec "\<lambda>v. w_u16 v []" rd_u16 "\<lambda>_. True"
  by unfold_locales
    (auto simp: rd_int_rat wire_simps le_word_le_bytes take_le_word split: if_splits
      intro!: exI[of _ "drop 2 _"])

interpretation u32c: codec "\<lambda>v. w_u32 v []" rd_u32 "\<lambda>_. True"
  by unfold_locales
    (auto simp: rd_int_rat wire_simps le_word_le_bytes take_le_word split: if_splits
      intro!: exI[of _ "drop 4 _"])

interpretation u64c: codec "\<lambda>v. w_u64 v []" rd_u64 "\<lambda>_. True"
  by unfold_locales
    (auto simp: rd_int_rat wire_simps le_word_le_bytes take_le_word split: if_splits
      intro!: exI[of _ "drop 8 _"])

interpretation blobc: codec "\<lambda>v. w_blob v []" "rd_blob n" "\<lambda>v. length v = n" for n
  by unfold_locales
    (auto simp: rd_int_rat wire_simps split: if_splits intro!: exI[of _ "drop n _"])

interpretation arrc: codec "\<lambda>v. w_arr v []" "rd_arr n" "\<lambda>v. length v = n" for n
  by unfold_locales
    (auto simp: rd_int_rat wire_simps split: if_splits intro!: exI[of _ "drop n _"])

subsection \<open>Hexadecimal text\<close>

definition hexpair :: "u8 \<Rightarrow> string" where
  "hexpair b = [hexdigits ! unat (drop_bit 4 b), hexdigits ! unat (b AND 15)]"

lemma hexs_concat: "hexs p = concat (map hexpair p)"
  unfolding hexs_def using fold_append_concat[of hexpair p "[]"] by (simp add: hexpair_def)

lemma hexs_simps [simp]:
  "hexs [] = []" "hexs (b # p) = hexpair b @ hexs p" "hexs (p @ q) = hexs p @ hexs q"
  by (simp_all add: hexs_concat)

lemma length_hexs [simp]: "length (hexs p) = 2 * length p"
  by (induction p) (simp_all add: hexpair_def)

lemma hexval_hexdigit:
  assumes "k < 16"
  shows "hexval (hexdigits ! k) = int k"
proof -
  have "list_all (\<lambda>k. hexval (hexdigits ! k) = int k) [0..<16]" by code_simp
  with assms show ?thesis by (simp add: list_all_iff)
qed

lemma hexval_range: "hexval c < 16"
  by (simp add: hexval_def Let_def)

lemma unat_nibbles:
  "unat (drop_bit 4 (b :: u8)) = unat b div 16" "unat ((b :: u8) AND 15) = unat b mod 16"
proof -
  show "unat (drop_bit 4 b) = unat b div 16"
    by (simp add: drop_bit_eq_div unat_div)
  have "b AND 15 = take_bit 4 b" by (simp add: take_bit_eq_mask mask_eq_exp_minus_1)
  then show "unat (b AND 15) = unat b mod 16"
    by (simp only: unsigned_take_bit_eq) (simp add: take_bit_eq_mod)
qed

lemma unat_nibbles_less: "unat (drop_bit 4 (b :: u8)) < 16" "unat ((b :: u8) AND 15) < 16"
  using unat_bound[of b] by (simp_all only: unat_nibbles) simp_all

lemma nibble_or:
  assumes "0 \<le> l" "l < 16"
  shows "push_bit 4 h OR l = 16 * h + (l :: int)"
proof -
  have "take_bit 4 l = l" using assms by (simp add: take_bit_int_eq_self_iff)
  then have "\<not> bit l n" if "4 \<le> n" for n using that by (metis bit_take_bit_iff not_less)
  then have "push_bit 4 h AND l = 0" by (intro bit_eqI) (auto simp: bit_simps)
  then have "push_bit 4 h + l = push_bit 4 h OR l" by (rule disjunctive_add_eq_or)
  then show ?thesis by (simp add: push_bit_eq_mult)
qed

lemma nibbles_to_byte:
  "word_of_int (push_bit 4 (int (unat (drop_bit 4 b))) OR int (unat (b AND 15))) = (b :: u8)"
proof -
  have "push_bit 4 (int (unat (drop_bit 4 b))) OR int (unat (b AND 15)) =
      int (16 * (unat b div 16) + unat b mod 16)"
    using nibble_or[of "int (unat (b AND 15))" "int (unat (drop_bit 4 b))"] unat_nibbles_less(2)[of b]
    by (simp only: unat_nibbles)
  also have "\<dots> = int (unat b)" by simp
  finally show ?thesis by simp
qed

lemma byte_to_nibbles:
  assumes "0 \<le> h" "h < 16" "0 \<le> l" "l < 16"
  shows "unat (drop_bit 4 (word_of_int (push_bit 4 h OR l) :: u8)) = nat h"
    and "unat ((word_of_int (push_bit 4 h OR l) :: u8) AND 15) = nat l"
proof -
  from assms obtain m n where mn: "h = int m" "l = int n" "m < 16" "n < 16"
    by (metis nonneg_int_cases of_nat_less_numeral_iff)
  then have "push_bit 4 h OR l = int (16 * m + n)" using nibble_or[of l h] by simp
  then have "word_of_int (push_bit 4 h OR l) = (of_nat (16 * m + n) :: u8)" by simp
  moreover have "unat (of_nat (16 * m + n) :: u8) = 16 * m + n"
    using mn by (simp only: unat_of_nat take_bit_eq_mod) simp
  ultimately have u: "unat (word_of_int (push_bit 4 h OR l) :: u8) = 16 * m + n" by simp
  with mn show "unat (drop_bit 4 (word_of_int (push_bit 4 h OR l) :: u8)) = nat h"
    "unat ((word_of_int (push_bit 4 h OR l) :: u8) AND 15) = nat l"
    by (simp_all only: unat_nibbles u) simp_all
qed

lemma unhex_loop_hexs: "unhex_loop (hexs p) acc = Some (acc @ p)"
proof (induction p arbitrary: acc)
  case (Cons b p)
  show ?case
    using Cons.IH[of "acc @ [b]"]
    by (simp add: hexpair_def hexval_hexdigit unat_nibbles_less Let_def
        nibbles_to_byte[simplified])
qed simp

lemma unhex_hexs [simp]: "unhex (hexs p) = Some p"
  by (simp add: unhex_def unhex_loop_hexs)

lemma unhex_n_hexs: "unhex_n n (hexs p) = (if length p = n then Some p else None)"
  by (simp add: unhex_n_def)

text \<open>The lower-case digit of the same value: what \<^verbatim>\<open>hexs\<close> prints for an accepted digit.\<close>

definition hexlower :: "char \<Rightarrow> char" where
  "hexlower c = hexdigits ! nat (hexval c)"

lemma unhex_loop_Some:
  "unhex_loop s acc = Some b \<Longrightarrow>
    even (length s) \<and> (\<forall>c \<in> set s. 0 \<le> hexval c) \<and> hexs b = hexs acc @ map hexlower s"
proof (induction s acc rule: unhex_loop.induct)
  case (3 c d s acc)
  then have hv: "0 \<le> hexval c" "0 \<le> hexval d" by (auto simp: Let_def split: if_splits)
  with 3 show ?case
    using byte_to_nibbles[OF hv(1) hexval_range hv(2) hexval_range]
    by (auto simp: Let_def hexpair_def hexlower_def)
qed auto

lemma unhex_loop_None:
  "even (length s) \<Longrightarrow> unhex_loop s acc = None \<Longrightarrow> \<exists>c \<in> set s. hexval c < 0"
  by (induction s acc rule: unhex_loop.induct) (auto simp: Let_def split: if_splits)

lemma unhex_eq_Some_iff:
  "unhex s = Some b \<longleftrightarrow> even (length s) \<and> (\<forall>c \<in> set s. 0 \<le> hexval c) \<and> hexs b = map hexlower s"
    (is "?l \<longleftrightarrow> ?r")
proof
  assume ?l
  then show ?r using unhex_loop_Some[of s "[]" b] by (auto simp: unhex_def split: if_splits)
next
  assume r: ?r
  then obtain b' where b': "unhex s = Some b'"
    using unhex_loop_None[of s "[]"] by (fastforce simp: unhex_def)
  then have "hexs b' = map hexlower s"
    using unhex_loop_Some[of s "[]" b'] by (auto simp: unhex_def split: if_splits)
  with r have "unhex (hexs b') = unhex (hexs b)" by simp
  then have "b' = b" by simp
  with b' show ?l by simp
qed

subsection \<open>Arrays\<close>

lemma is_zero_iff: "is_zero a \<longleftrightarrow> a = replicate (length a) 0"
  unfolding is_zero_def by (metis in_set_replicate replicate_eqI)

subsection \<open>Args\<close>

lemma smap_ok_args_loop: "smap_ok (kv s) \<Longrightarrow> smap_ok (kv (args_loop as s))"
  by (induction as s rule: args_loop.induct) (auto simp: sm.ok_put)

end
