(* ===== verification/Sha256.thy ===== *)
theory Sha256
  imports Common
begin

text \<open>
  \<^verbatim>\<open>src/sha256.h\<close>: the SHA-256 compression function, the streaming context \<^verbatim>\<open>sha::Ctx\<close>, the
  one-shot and double hashes, and the proof-of-work helpers.

  The arrays \<^verbatim>\<open>st[8]\<close>, \<^verbatim>\<open>w[64]\<close> and \<^verbatim>\<open>buf[64]\<close> are lists of that length; the eight working
  variables of \<^verbatim>\<open>compress\<close> are a tuple.  \<^verbatim>\<open>buf\<close> is not initialised by the constructor: the
  model starts it with zeros, and \<open>sha256_reference\<close> shows that no byte of it is read before
  it is written.

  Lemmas: the streaming context computes the FIPS reference (pad, split in 64-byte blocks,
  fold the compression function) whatever the chunking; lengths; \<^verbatim>\<open>leading_zero_bits\<close>
  and \<^verbatim>\<open>pow_ok\<close> against the big-endian value of a digest.
\<close>

subsection \<open>Constants\<close>

definition K :: "u32 list" where
  "K = concat [
     [0x428a2f98, 0x71374491, 0xb5c0fbcf, 0xe9b5dba5, 0x3956c25b, 0x59f111f1, 0x923f82a4, 0xab1c5ed5],
     [0xd807aa98, 0x12835b01, 0x243185be, 0x550c7dc3, 0x72be5d74, 0x80deb1fe, 0x9bdc06a7, 0xc19bf174],
     [0xe49b69c1, 0xefbe4786, 0x0fc19dc6, 0x240ca1cc, 0x2de92c6f, 0x4a7484aa, 0x5cb0a9dc, 0x76f988da],
     [0x983e5152, 0xa831c66d, 0xb00327c8, 0xbf597fc7, 0xc6e00bf3, 0xd5a79147, 0x06ca6351, 0x14292967],
     [0x27b70a85, 0x2e1b2138, 0x4d2c6dfc, 0x53380d13, 0x650a7354, 0x766a0abb, 0x81c2c92e, 0x92722c85],
     [0xa2bfe8a1, 0xa81a664b, 0xc24b8b70, 0xc76c51a3, 0xd192e819, 0xd6990624, 0xf40e3585, 0x106aa070],
     [0x19a4c116, 0x1e376c08, 0x2748774c, 0x34b0bcb5, 0x391c0cb3, 0x4ed8aa4a, 0x5b9cca4f, 0x682e6ff3],
     [0x748f82ee, 0x78a5636f, 0x84c87814, 0x8cc70208, 0x90befffa, 0xa4506ceb, 0xbef9a3f7, 0xc67178f2]]"

definition IV :: "u32 list" where
  "IV = [0x6a09e667, 0xbb67ae85, 0x3c6ef372, 0xa54ff53a, 0x510e527f, 0x9b05688c, 0x1f83d9ab, 0x5be0cd19]"

definition rotr :: "u32 \<Rightarrow> nat \<Rightarrow> u32" where
  "rotr x n = drop_bit n x OR push_bit (32 - n) x"

subsection \<open>Compression\<close>

definition sched0 :: "bytes \<Rightarrow> u32 list" where
  "sched0 blk = map (\<lambda>i. push_bit 24 (ucast (blk ! (i * 4))) OR push_bit 16 (ucast (blk ! (i * 4 + 1)))
      OR push_bit 8 (ucast (blk ! (i * 4 + 2))) OR ucast (blk ! (i * 4 + 3))) [0..<16]"

definition sched_next :: "nat \<Rightarrow> u32 list \<Rightarrow> u32" where
  "sched_next i w =
     (let s0 = rotr (w ! (i - 15)) 7 XOR rotr (w ! (i - 15)) 18 XOR drop_bit 3 (w ! (i - 15));
          s1 = rotr (w ! (i - 2)) 17 XOR rotr (w ! (i - 2)) 19 XOR drop_bit 10 (w ! (i - 2))
      in w ! (i - 16) + s0 + w ! (i - 7) + s1)"

definition schedule :: "bytes \<Rightarrow> u32 list" where
  "schedule blk = fold (\<lambda>i w. w @ [sched_next i w]) [16..<64] (sched0 blk)"

type_synonym wvars = "u32 \<times> u32 \<times> u32 \<times> u32 \<times> u32 \<times> u32 \<times> u32 \<times> u32"

fun sha_round :: "u32 \<Rightarrow> u32 \<Rightarrow> wvars \<Rightarrow> wvars" where
  "sha_round k wi (a, b, c, d, e, f, g, h) =
     (let S1 = rotr e 6 XOR rotr e 11 XOR rotr e 25;
          ch = (e AND f) XOR (NOT e AND g);
          t1 = h + S1 + ch + k + wi;
          S0 = rotr a 2 XOR rotr a 13 XOR rotr a 22;
          mj = (a AND b) XOR (a AND c) XOR (b AND c);
          t2 = S0 + mj
      in (t1 + t2, a, b, c, d + t1, e, f, g))"

definition compress :: "u32 list \<Rightarrow> bytes \<Rightarrow> u32 list" where
  "compress st blk =
     (let w = schedule blk;
          v = fold (\<lambda>i v. sha_round (K ! i) (w ! i) v) [0..<64]
                (st ! 0, st ! 1, st ! 2, st ! 3, st ! 4, st ! 5, st ! 6, st ! 7)
      in case v of (a, b, c, d, e, f, g, h) \<Rightarrow>
        [st ! 0 + a, st ! 1 + b, st ! 2 + c, st ! 3 + d, st ! 4 + e, st ! 5 + f, st ! 6 + g, st ! 7 + h])"

subsection \<open>Streaming context\<close>

record sha_ctx =
  sst :: "u32 list"
  sbuf :: bytes
  buflen :: nat
  stotal :: u64

definition ctx_init :: sha_ctx where
  "ctx_init = \<lparr>sst = IV, sbuf = replicate 64 0, buflen = 0, stotal = 0\<rparr>"

text \<open>\<^verbatim>\<open>memcpy(buf + off, p, k)\<close> into the fixed array.\<close>

definition memcpy_at :: "bytes \<Rightarrow> nat \<Rightarrow> bytes \<Rightarrow> bytes" where
  "memcpy_at buf off src = take off buf @ src @ drop (off + length src) buf"

text \<open>
  The body of \<^verbatim>\<open>while (n)\<close> in \<^verbatim>\<open>Ctx::update\<close>.  Its progress needs \<^verbatim>\<open>buflen < 64\<close>, which
  holds at every iteration (\<open>ctx_ok\<close>); the guard only makes the function stotal outside
  that invariant.
\<close>

definition update_step :: "sha_ctx \<Rightarrow> bytes \<Rightarrow> sha_ctx" where
  "update_step c chunk =
     (let c = c\<lparr>sbuf := memcpy_at (sbuf c) (buflen c) chunk, buflen := buflen c + length chunk\<rparr>
      in if buflen c = 64 then c\<lparr>sst := compress (sst c) (sbuf c), buflen := 0\<rparr> else c)"

function update_loop :: "sha_ctx \<Rightarrow> bytes \<Rightarrow> sha_ctx" where
  "update_loop c p =
     (if p = [] \<or> 64 \<le> buflen c then c
      else let k = min (length p) (64 - buflen c) in update_loop (update_step c (take k p)) (drop k p))"
  by pat_completeness auto
termination
  by (relation "measure (\<lambda>(c, p). length p)") auto

declare update_loop.simps [simp del]

definition ctx_update :: "sha_ctx \<Rightarrow> bytes \<Rightarrow> sha_ctx" where
  "ctx_update c p = update_loop (c\<lparr>stotal := stotal c + of_nat (length p)\<rparr>) p"

lemma buflen_update_one:
  assumes "buflen c < 64"
  shows "buflen (ctx_update c [b]) = (if buflen c = 63 then 0 else Suc (buflen c))"
proof -
  have "update_loop c' [b] = update_step c' [b]" if "buflen c' < 64" for c'
    using that by (simp add: update_loop.simps[of c' "[b]"] update_loop.simps[of _ "[]"])
  with assms show ?thesis
    by (auto simp: ctx_update_def update_step_def Let_def)
qed

text \<open>\<^verbatim>\<open>while (buflen != 56) update(&z, 1)\<close>, under the same invariant.\<close>

function pad_loop :: "sha_ctx \<Rightarrow> sha_ctx" where
  "pad_loop c = (if buflen c = 56 \<or> 64 \<le> buflen c then c else pad_loop (ctx_update c [0]))"
  by pat_completeness auto
termination
  by (relation "measure (\<lambda>c. if buflen c \<le> 56 then 56 - buflen c else 120 - buflen c)")
    (auto simp: buflen_update_one)

declare pad_loop.simps [simp del]

definition be_bytes64 :: "u64 \<Rightarrow> bytes" where
  "be_bytes64 bits = map (\<lambda>i. ucast (drop_bit (56 - 8 * i) bits)) [0..<8]"

definition out_bytes :: "u32 list \<Rightarrow> bytes" where
  "out_bytes st = concat (map (\<lambda>i. [ucast (drop_bit 24 (st ! i)), ucast (drop_bit 16 (st ! i)),
      ucast (drop_bit 8 (st ! i)), ucast (st ! i)]) [0..<8])"

definition ctx_final :: "sha_ctx \<Rightarrow> h256" where
  "ctx_final c =
     (let bits = stotal c * 8;
          c = ctx_update c [0x80];
          c = pad_loop c;
          c = ctx_update c (be_bytes64 bits)
      in out_bytes (sst c))"

definition sha256 :: "bytes \<Rightarrow> h256" where
  "sha256 p = ctx_final (ctx_update ctx_init p)"

definition sha256d :: "bytes \<Rightarrow> h256" where
  "sha256d p = (let h1 = sha256 p in sha256 h1)"

subsection \<open>Proof of work\<close>

text \<open>\<^verbatim>\<open>while (!(b & 0x80)) { n++; b <<= 1; }\<close> for a nonzero byte.\<close>

function lzb_byte :: "u8 \<Rightarrow> int \<Rightarrow> int" where
  "lzb_byte b n = (if b AND 0x80 \<noteq> 0 \<or> b = 0 then n else lzb_byte (push_bit 1 b) (n + 1))"
  by pat_completeness auto
termination
proof (relation "measure (\<lambda>(b, n). 256 - unat b)")
  fix b :: u8 and n :: int
  assume a: "\<not> (b AND 0x80 \<noteq> 0 \<or> b = 0)"
  then have b: "unat b < 128" by (simp add: top_bit_clear_iff)
  moreover from a have "0 < unat b" by (simp add: unat_gt_0)
  ultimately show "((push_bit 1 b, n + 1), b, n) \<in> measure (\<lambda>(b, n). 256 - unat b)"
    using unat_double_u8[of b] by simp
qed simp

declare lzb_byte.simps [simp del]

fun lzb_loop :: "bytes \<Rightarrow> int \<Rightarrow> int" where
  "lzb_loop [] n = 256"
| "lzb_loop (x # xs) n = (if x = 0 then lzb_loop xs (n + 8) else lzb_byte x n)"

definition leading_zero_bits :: "h256 \<Rightarrow> int" where
  "leading_zero_bits h = lzb_loop h 0"

definition pow_ok :: "h256 \<Rightarrow> u32 \<Rightarrow> bool" where
  "pow_ok h bits \<longleftrightarrow> bits \<le> word_of_int (leading_zero_bits h)"

definition work_of :: "u32 \<Rightarrow> u64" where
  "work_of bits = (if 63 \<le> bits then NOT 0 else push_bit (unat bits) 1)"

subsection \<open>The reference: pad, split in blocks, fold\<close>

function fold_blocks :: "u32 list \<Rightarrow> bytes \<Rightarrow> u32 list" where
  "fold_blocks st p = (if length p < 64 then st else fold_blocks (compress st (take 64 p)) (drop 64 p))"
  by pat_completeness auto
termination
  by (relation "measure (\<lambda>(st, p). length p)") auto

declare fold_blocks.simps [simp del]

definition sha_pad :: "bytes \<Rightarrow> bytes" where
  "sha_pad p = p @ [0x80] @ replicate ((119 - length p mod 64) mod 64) 0 @ be_bytes64 (of_nat (length p) * 8)"

definition sha256_ref :: "bytes \<Rightarrow> h256" where
  "sha256_ref p = out_bytes (fold_blocks IV (sha_pad p))"

lemma fold_blocks_short: "length p < 64 \<Longrightarrow> fold_blocks st p = st"
  by (simp add: fold_blocks.simps[of st p])

lemma fold_blocks_block: "length b = 64 \<Longrightarrow> fold_blocks st (b @ p) = fold_blocks (compress st b) p"
  by (simp add: fold_blocks.simps[of st "b @ p"])

lemma fold_blocks_append:
  "length x mod 64 = 0 \<Longrightarrow> fold_blocks st (x @ y) = fold_blocks (fold_blocks st x) y"
proof (induction st x rule: fold_blocks.induct)
  case (1 st x)
  show ?case
  proof (cases "length x < 64")
    case True
    with "1.prems" have "x = []" by auto
    then show ?thesis by (simp add: fold_blocks_short)
  next
    case False
    then have len: "length (take 64 x) = 64" and eq: "x = take 64 x @ drop 64 x" by simp_all
    have "length (drop 64 x) mod 64 = 0" using False "1.prems" by (simp add: le_mod_geq)
    from "1.IH"[OF False this] show ?thesis
      using fold_blocks_block[OF len, of st "drop 64 x @ y"] fold_blocks_block[OF len, of st "drop 64 x"] eq
      by (metis append.assoc)
  qed
qed

lemma fold_blocks_tail:
  "fold_blocks st p = fold_blocks st (take (64 * (length p div 64)) p)"
proof -
  let ?x = "take (64 * (length p div 64)) p" and ?y = "drop (64 * (length p div 64)) p"
  have x: "length ?x = 64 * (length p div 64)" by (simp add: min_absorb2)
  have "length ?y = length p mod 64" by (simp add: minus_mult_div_eq_mod)
  then have "length ?y < 64" by simp
  then have "fold_blocks st (?x @ ?y) = fold_blocks st ?x"
    using fold_blocks_append[of ?x st ?y] x by (simp add: fold_blocks_short)
  then show ?thesis by simp
qed

subsection \<open>The context computes the reference\<close>

definition ctx_ok :: "sha_ctx \<Rightarrow> bool" where
  "ctx_ok c \<longleftrightarrow> buflen c < 64 \<and> length (sbuf c) = 64"

definition pending :: "sha_ctx \<Rightarrow> bytes" where
  "pending c = take (buflen c) (sbuf c)"

text \<open>\<open>absorbed c q s\<close>: the context has compressed and buffered exactly the bytes \<open>s\<close>.\<close>

definition absorbed :: "sha_ctx \<Rightarrow> bytes \<Rightarrow> bool" where
  "absorbed c s \<longleftrightarrow> ctx_ok c \<and> buflen c = length s mod 64 \<and> sst c = fold_blocks IV s \<and>
     pending c = drop (64 * (length s div 64)) s"

lemma absorbed_init: "absorbed ctx_init []"
  by (simp add: absorbed_def ctx_init_def ctx_ok_def pending_def fold_blocks_short)

lemma block_divmod: "n = 64 * q + r \<Longrightarrow> r < 64 \<Longrightarrow> n div 64 = q \<and> n mod 64 = (r :: nat)"
  by simp

lemma absorbed_step:
  assumes "absorbed c s" and "chunk \<noteq> []" and "length chunk \<le> 64 - buflen c"
  shows "absorbed (update_step c chunk) (s @ chunk)"
proof -
  let ?m = "64 * (length s div 64)"
  from assms(1) have ok: "buflen c < 64" "length (sbuf c) = 64" and bl: "buflen c = length s mod 64"
    and st: "sst c = fold_blocks IV s" and pend: "take (buflen c) (sbuf c) = drop ?m s"
    unfolding absorbed_def ctx_ok_def pending_def by blast+
  have ls: "length s = ?m + buflen c" using bl by simp
  then have q: "length (drop ?m s) = buflen c" by simp
  let ?buf = "memcpy_at (sbuf c) (buflen c) chunk"
  have "?buf = drop ?m s @ chunk @ drop (buflen c + length chunk) (sbuf c)"
    by (simp only: memcpy_at_def pend)
  then have buf: "length ?buf = 64" "take (buflen c + length chunk) ?buf = drop ?m s @ chunk"
    using assms(3) ok q by (simp_all only: length_append length_drop take_append) simp_all
  show ?thesis
  proof (cases "buflen c + length chunk = 64")
    case True
    then have blk: "?buf = drop ?m s @ chunk" using buf by simp
    have len: "length (s @ chunk) = ?m + 64" using ls True by simp
    have "fold_blocks IV (s @ chunk) = fold_blocks IV (take ?m s @ (drop ?m s @ chunk))"
      by (metis append.assoc append_take_drop_id)
    also have "\<dots> = fold_blocks (fold_blocks IV (take ?m s)) (drop ?m s @ chunk)"
      using ls by (intro fold_blocks_append) (simp add: min_absorb2)
    also have "\<dots> = compress (fold_blocks IV s) (drop ?m s @ chunk)"
      using fold_blocks_tail[of IV s] buf(1) blk
        fold_blocks_block[of "drop ?m s @ chunk" "fold_blocks IV (take ?m s)" "[]"]
      by (simp add: fold_blocks_short)
    finally have "fold_blocks IV (s @ chunk) = compress (sst c) ?buf" using st blk by simp
    moreover have "(length s + length chunk) mod 64 = 0" "(length s + length chunk) div 64 = Suc (length s div 64)"
      using len by simp_all
    ultimately show ?thesis using True buf(1) len
      by (simp add: absorbed_def update_step_def ctx_ok_def pending_def)
  next
    case False
    with assms(3) ok have lt: "buflen c + length chunk < 64" by simp
    have "length s + length chunk = 64 * (length s div 64) + (buflen c + length chunk)"
      using ls by simp
    from block_divmod[OF this lt] have dm: "length (s @ chunk) div 64 = length s div 64"
      "length (s @ chunk) mod 64 = buflen c + length chunk" by simp_all
    have m: "?m \<le> length s" by simp
    then have "take (64 * (length (s @ chunk) div 64)) (s @ chunk) = take ?m s" by (simp only: dm) simp
    then have "fold_blocks IV (s @ chunk) = fold_blocks IV s"
      using fold_blocks_tail[of IV s] fold_blocks_tail[of IV "s @ chunk"] by simp
    moreover have "drop ?m (s @ chunk) = drop ?m s @ chunk" using m by simp
    ultimately show ?thesis using False buf lt st
      unfolding absorbed_def ctx_ok_def pending_def dm by (simp add: update_step_def)
  qed
qed

lemma absorbed_loop: "absorbed c s \<Longrightarrow> absorbed (update_loop c p) (s @ p)"
proof (induction c p arbitrary: s rule: update_loop.induct)
  case (1 c p)
  show ?case
  proof (cases "p = []")
    case True
    with "1.prems" show ?thesis by (simp add: update_loop.simps)
  next
    case False
    from "1.prems" have lt: "buflen c < 64" by (simp add: absorbed_def ctx_ok_def)
    let ?k = "min (length p) (64 - buflen c)"
    have "take ?k p \<noteq> []" "length (take ?k p) \<le> 64 - buflen c" using False lt by auto
    with "1.prems" have "absorbed (update_step c (take ?k p)) (s @ take ?k p)" by (intro absorbed_step)
    with False lt "1.IH"[OF _ refl, of "s @ take ?k p"] show ?thesis
      by (simp add: update_loop.simps[of c p] Let_def)
  qed
qed

lemma total_update_step: "stotal (update_step c p) = stotal c"
  by (simp add: update_step_def Let_def)

lemma total_update_loop [simp]: "stotal (update_loop c p) = stotal c"
  by (induction c p rule: update_loop.induct)
    (subst update_loop.simps, simp add: Let_def total_update_step)

lemma absorbed_total [simp]: "absorbed (c\<lparr>stotal := t\<rparr>) s = absorbed c s"
  by (simp add: absorbed_def ctx_ok_def pending_def)

lemma absorbed_update: "absorbed c s \<Longrightarrow> absorbed (ctx_update c p) (s @ p)"
  by (simp add: ctx_update_def absorbed_loop)

lemma pad_count: "r < 64 \<Longrightarrow> (120 - r) mod 64 = (if r \<le> 56 then 56 - r else 120 - r :: nat)"
proof (cases "r \<le> 56")
  case True
  then have "120 - r = (56 - r) + 64" by simp
  then have "(120 - r) mod 64 = (56 - r) mod 64" by (simp only: mod_add_self2)
  with True show ?thesis by simp
qed simp

lemma pad_count': "r < 64 \<Longrightarrow> (119 - r) mod 64 = (if r \<le> 55 then 55 - r else 119 - r :: nat)"
  using pad_count[of "Suc r"] by (cases "r = 63") simp_all

lemma absorbed_pad_loop:
  assumes "absorbed c s"
  shows "absorbed (pad_loop c) (s @ replicate ((120 - length s mod 64) mod 64) 0)"
  using assms
proof (induction c arbitrary: s rule: pad_loop.induct)
  case (1 c)
  then have lt: "buflen c < 64" and bl: "buflen c = length s mod 64"
    by (simp_all add: absorbed_def ctx_ok_def)
  show ?case
  proof (cases "buflen c = 56")
    case True
    with "1.prems" bl show ?thesis by (simp add: pad_loop.simps[of c] pad_count)
  next
    case False
    with lt have g: "\<not> (buflen c = 56 \<or> 64 \<le> buflen c)" by simp
    have "absorbed (ctx_update c [0]) (s @ [0])" using "1.prems" by (rule absorbed_update)
    from "1.IH"[OF g this] have IH: "absorbed (pad_loop (ctx_update c [0]))
        (s @ 0 # replicate ((120 - length (s @ [0]) mod 64) mod 64) 0)" by simp
    have "(120 - length s mod 64) mod 64 = Suc ((120 - length (s @ [0::u8]) mod 64) mod 64)"
      using lt False unfolding bl by (auto simp: mod_Suc pad_count pad_count')
    with IH g show ?thesis by (simp add: pad_loop.simps[of c])
  qed
qed

lemma ctx_final_absorbed:
  assumes "absorbed c p" and tot: "stotal c = of_nat (length p)"
  shows "ctx_final c = sha256_ref p"
proof -
  have "absorbed (pad_loop (ctx_update c [0x80]))
      ((p @ [0x80]) @ replicate ((120 - length (p @ [0x80 :: u8]) mod 64) mod 64) 0)"
    using assms(1) by (intro absorbed_pad_loop absorbed_update)
  moreover have "(120 - Suc (length p) mod 64) mod 64 = (119 - length p mod 64) mod 64"
    by (auto simp: mod_Suc pad_count')
  ultimately have "absorbed (ctx_update (pad_loop (ctx_update c [0x80])) (be_bytes64 (stotal c * 8)))
      (sha_pad p)"
    using absorbed_update by (fastforce simp: sha_pad_def tot)
  then show ?thesis
    by (simp add: ctx_final_def sha256_ref_def absorbed_def Let_def)
qed

lemma sha256_reference: "sha256 p = sha256_ref p"
  using ctx_final_absorbed[of "ctx_update ctx_init p" p] absorbed_update[OF absorbed_init, of p]
  by (simp add: sha256_def ctx_update_def ctx_init_def)

lemma absorbed_chunks:
  "absorbed c s \<Longrightarrow> stotal c = of_nat (length s) \<Longrightarrow>
     absorbed (fold (\<lambda>p c. ctx_update c p) ps c) (s @ concat ps) \<and>
     stotal (fold (\<lambda>p c. ctx_update c p) ps c) = of_nat (length (s @ concat ps))"
proof (induction ps arbitrary: c s)
  case (Cons p ps)
  have "stotal (ctx_update c p) = of_nat (length (s @ p))" using Cons.prems by (simp add: ctx_update_def)
  from Cons.IH[OF absorbed_update[OF Cons.prems(1)] this] show ?case by simp
qed simp

text \<open>
  C23: However a message is split into pieces for \<^verbatim>\<open>Ctx::update\<close>, \<^verbatim>\<open>final\<close> returns the SHA-256
  of the whole message: the FIPS 180-4 padding compressed block by block.
\<close>

theorem sha256_streaming_correct:
  "ctx_final (fold (\<lambda>p c. ctx_update c p) ps ctx_init) = sha256_ref (concat ps) \<and> sha256 (concat ps) = sha256_ref (concat ps)"
  using absorbed_chunks[OF absorbed_init, of ps] ctx_final_absorbed sha256_reference by (simp add: ctx_init_def)

lemma length_sha_pad: "64 dvd length (sha_pad p)"
proof -
  obtain q r where qr: "length p = 64 * q + r" "r < 64"
    by (metis mod_less_divisor mult_div_mod_eq zero_less_numeral)
  then have "length p mod 64 = r" by simp
  moreover have "64 * q + r + 9 + (119 - r) mod 64 = 64 * (q + (if r \<le> 55 then 1 else 2))"
    using qr(2) by (simp add: pad_count')
  then have "64 dvd 64 * q + r + 9 + (119 - r) mod 64" by (simp only: dvd_triv_left)
  ultimately show ?thesis using qr(1) by (simp add: sha_pad_def be_bytes64_def add.assoc)
qed

lemma length_out_bytes [len_simps]: "length (out_bytes st) = 32"
  by (simp add: out_bytes_def length_concat comp_def sum_list_triv)

lemma length_sha256 [simp, len_simps]: "length (sha256 p) = 32" "length (sha256d p) = 32"
  by (simp_all add: sha256d_def sha256_reference sha256_ref_def len_simps Let_def)

subsection \<open>Proof of work as a numeric target\<close>

text \<open>The digest read big-endian as a number.\<close>

fun be_value :: "bytes \<Rightarrow> nat" where
  "be_value [] = 0"
| "be_value (x # xs) = unat x * 256 ^ length xs + be_value xs"

lemma be_value_less: "be_value xs < 256 ^ length xs"
proof (induction xs)
  case (Cons x xs)
  have "Suc (unat x) * 256 ^ length xs \<le> 256 * 256 ^ length xs"
    using unat_u8_less[of x] by (intro mult_le_mono1) simp
  then have "unat x * 256 ^ length xs + 256 ^ length xs \<le> 256 * 256 ^ length xs" by simp
  with Cons show ?case by (simp only: be_value.simps length_Cons power_Suc)
qed simp

lemma lzb_byte_bounds:
  "b \<noteq> 0 \<Longrightarrow> \<exists>k\<le>7. lzb_byte b n = n + int k \<and> 2 ^ (7 - k) \<le> unat b \<and> unat b < 2 ^ (8 - k)"
proof (induction b n rule: lzb_byte.induct)
  case (1 b n)
  show ?case
  proof (cases "b AND 0x80 = 0")
    case False
    then have "128 \<le> unat b" by (simp add: top_bit_clear_iff)
    with False unat_u8_less[of b] show ?thesis
      by (intro exI[of _ 0]) (simp add: lzb_byte.simps[of b])
  next
    case True
    then have b: "unat b < 128" "0 < unat b" using "1.prems" by (simp_all add: top_bit_clear_iff unat_gt_0)
    then have dbl: "unat (push_bit 1 b) = 2 * unat b" by (intro unat_double_u8)
    with b(2) have "push_bit 1 b \<noteq> 0" by (metis mult_is_0 unat_0 not_gr_zero zero_neq_numeral)
    with True "1.IH" "1.prems" obtain k where k: "k \<le> 7" "lzb_byte (push_bit 1 b) (n + 1) = n + 1 + int k"
      "2 ^ (7 - k) \<le> 2 * unat b" "2 * unat b < 2 ^ (8 - k)" unfolding dbl by auto
    have "k \<noteq> 7" using k(4) b(2) by auto
    with k(1) obtain j where j: "7 - k = Suc j" "8 - k = Suc (Suc j)" "7 - Suc k = j" "8 - Suc k = Suc j"
      by (metis Suc_diff_Suc Suc_diff_le diff_Suc_Suc eval_nat_numeral(2) eval_nat_numeral(3) le_neq_implies_less semiring_norm(28) semiring_norm(27) semiring_norm(26))
    have "lzb_byte b n = n + int (Suc k)" using True "1.prems" k(2) by (simp add: lzb_byte.simps[of b])
    with k j show ?thesis by (intro exI[of _ "Suc k"]) (use \<open>k \<noteq> 7\<close> in auto)
  qed
qed

lemma lzb_loop_zero: "be_value xs = 0 \<Longrightarrow> lzb_loop xs n = 256"
  by (induction xs arbitrary: n) (auto simp: unat_eq_zero)

lemma lzb_loop_bounds:
  "be_value xs \<noteq> 0 \<Longrightarrow> \<exists>L < 8 * length xs. lzb_loop xs n = n + int L \<and>
     2 ^ (8 * length xs - Suc L) \<le> be_value xs \<and> be_value xs < 2 ^ (8 * length xs - L)"
proof (induction xs arbitrary: n)
  case (Cons x xs)
  show ?case
  proof (cases "x = 0")
    case True
    with Cons obtain L where "L < 8 * length xs" "lzb_loop xs (n + 8) = n + 8 + int L"
      "2 ^ (8 * length xs - Suc L) \<le> be_value xs" "be_value xs < 2 ^ (8 * length xs - L)" by force
    with True show ?thesis by (intro exI[of _ "L + 8"]) simp
  next
    case False
    then obtain k where k: "k \<le> 7" "lzb_byte x n = n + int k" "2 ^ (7 - k) \<le> unat x" "unat x < 2 ^ (8 - k)"
      using lzb_byte_bounds by blast
    let ?e = "8 * length xs"
    have pw: "256 ^ length xs = (2 :: nat) ^ ?e" by (simp add: power_mult)
    have "2 ^ (7 - k) * 2 ^ ?e \<le> unat x * 2 ^ ?e" using k(3) by simp
    then have lo: "2 ^ (8 * length (x # xs) - Suc k) \<le> be_value (x # xs)"
      using k(1) by (simp add: pw power_add[symmetric] algebra_simps)
    have "Suc (unat x) * 2 ^ ?e \<le> 2 ^ (8 - k) * 2 ^ ?e" using k(4) by (intro mult_le_mono1) simp
    then have "unat x * 2 ^ ?e + be_value xs < 2 ^ (8 - k) * 2 ^ ?e"
      using be_value_less[of xs] unfolding pw by simp
    then have hi: "be_value (x # xs) < 2 ^ (8 * length (x # xs) - k)"
      using k(1) by (simp add: pw power_add[symmetric] algebra_simps)
    from False k lo hi show ?thesis by (intro exI[of _ k]) simp
  qed
qed simp

lemma leading_zero_bits_range:
  "length h = 32 \<Longrightarrow> 0 \<le> leading_zero_bits h \<and> leading_zero_bits h \<le> 256"
  using lzb_loop_bounds[of h 0] lzb_loop_zero[of h 0]
  by (cases "be_value h = 0") (force simp: leading_zero_bits_def)+

lemma leading_zero_bits_ge_iff:
  assumes "length h = 32" and "k \<le> 256"
  shows "int k \<le> leading_zero_bits h \<longleftrightarrow> be_value h < 2 ^ (256 - k)"
proof (cases "be_value h = 0")
  case True
  with assms show ?thesis by (simp add: leading_zero_bits_def lzb_loop_zero)
next
  case False
  with assms obtain L where L: "L < 256" "leading_zero_bits h = int L"
    "2 ^ (256 - Suc L) \<le> be_value h" "be_value h < 2 ^ (256 - L)"
    using lzb_loop_bounds[of h 0] by (auto simp: leading_zero_bits_def)
  show ?thesis
  proof
    assume "int k \<le> leading_zero_bits h"
    then have "(2 :: nat) ^ (256 - L) \<le> 2 ^ (256 - k)" using L(2) by (intro power_increasing) auto
    with L(4) show "be_value h < 2 ^ (256 - k)" by (rule less_le_trans)
  next
    assume "be_value h < 2 ^ (256 - k)"
    with L(3) have "(2 :: nat) ^ (256 - Suc L) < 2 ^ (256 - k)" by (rule le_less_trans)
    then have "256 - Suc L < 256 - k" by (simp only: power_strict_increasing_iff one_less_numeral_iff semiring_norm)
    then show "int k \<le> leading_zero_bits h" using L(1,2) by simp
  qed
qed

lemma pow_ok_iff:
  assumes "length h = 32"
  shows "pow_ok h bits \<longleftrightarrow> unat bits \<le> 256 \<and> be_value h < 2 ^ (256 - unat bits)"
proof -
  obtain l where l: "leading_zero_bits h = int l" "l \<le> 256"
    using leading_zero_bits_range[OF assms] by (metis nonneg_int_cases of_nat_le_numeral_iff)
  have "unat (of_nat l :: u32) = l" using l(2) by (simp add: unat_of_nat take_bit_nat_eq_self)
  then have "pow_ok h bits \<longleftrightarrow> unat bits \<le> l" by (simp add: pow_ok_def l word_le_nat_alt)
  also have "\<dots> \<longleftrightarrow> unat bits \<le> 256 \<and> be_value h < 2 ^ (256 - unat bits)"
    using leading_zero_bits_ge_iff[OF assms, of "unat bits"] l by (auto simp only: of_nat_le_iff)
  finally show ?thesis .
qed

lemma pow_ok_0 [simp]: "pow_ok h 0"
  by (simp add: pow_ok_def)

end
