(* ===== verification/Crypto.thy ===== *)
theory Crypto
  imports Sha256
begin

text \<open>
  \<^verbatim>\<open>src/crypto_cng.h\<close>: addresses, ECDSA keys and signatures through Windows CNG, key files.

  \<^verbatim>\<open>bcrypt.dll\<close> is not part of the repository.  It is the record \<open>'k cng\<close>, an argument of
  every definition that calls it: \<open>'k\<close> is the type behind a key handle, each field one
  call (or the generate/finalize pair), \<open>None\<close> a non-zero \<^verbatim>\<open>NTSTATUS\<close>.  Key generation and
  signing are randomised: their first argument is the random choice of that call.

  Key files live in a file system \<open>files\<close> (path to contents); \<open>can_write\<close> says where
  \<^verbatim>\<open>fopen_s(.., "wb")\<close> succeeds.
\<close>

record 'k cng =
  cng_open :: bool
  cng_generate :: "nat \<Rightarrow> 'k option"
  cng_export_private :: "'k \<Rightarrow> bytes option"
  cng_import_private :: "bytes \<Rightarrow> 'k option"
  cng_import_public :: "bytes \<Rightarrow> 'k option"
  cng_sign :: "nat \<Rightarrow> 'k \<Rightarrow> bytes \<Rightarrow> bytes option"
  cng_verify :: "'k \<Rightarrow> bytes \<Rightarrow> bytes \<Rightarrow> bool"

definition BCRYPT_ECDSA_PUBLIC_P256_MAGIC :: u32 where
  "BCRYPT_ECDSA_PUBLIC_P256_MAGIC = 0x31534345"

record keypair =
  kpub :: pub64
  kblob :: bytes

definition kp_valid :: "keypair \<Rightarrow> bool" where
  "kp_valid kp \<longleftrightarrow> length (kblob kp) = 104"

definition addr_of :: "pub64 \<Rightarrow> addr20" where
  "addr_of pub = take 20 (sha256 pub)"

definition kp_generate :: "'k cng \<Rightarrow> nat \<Rightarrow> keypair option" where
  "kp_generate c rnd =
     (if \<not> cng_open c then None
      else case cng_generate c rnd of None \<Rightarrow> None
      | Some k \<Rightarrow> (case cng_export_private c k of None \<Rightarrow> None
        | Some blob \<Rightarrow> if length blob \<noteq> 104 then None
            else Some \<lparr>kpub = take 64 (drop 8 blob), kblob = blob\<rparr>))"

definition kp_sign :: "'k cng \<Rightarrow> nat \<Rightarrow> keypair \<Rightarrow> h256 \<Rightarrow> sig64 option" where
  "kp_sign c rnd kp digest =
     (if \<not> cng_open c \<or> \<not> kp_valid kp then None
      else case cng_import_private c (kblob kp) of None \<Rightarrow> None
      | Some k \<Rightarrow> (case cng_sign c rnd k digest of None \<Rightarrow> None
        | Some sig \<Rightarrow> if length sig \<noteq> 64 then None else Some sig))"

text \<open>The 72-byte \<^verbatim>\<open>BCRYPT_ECCKEY_BLOB\<close> built on the stack: magic, key size, \<^verbatim>\<open>X || Y\<close>.\<close>

definition pub_blob :: "pub64 \<Rightarrow> bytes" where
  "pub_blob pub = w_arr pub (w_u32 32 (w_u32 BCRYPT_ECDSA_PUBLIC_P256_MAGIC []))"

definition sig_verify :: "'k cng \<Rightarrow> pub64 \<Rightarrow> h256 \<Rightarrow> sig64 \<Rightarrow> bool" where
  "sig_verify c pub digest sig =
     (if \<not> cng_open c then False
      else case cng_import_public c (pub_blob pub) of None \<Rightarrow> False
      | Some k \<Rightarrow> cng_verify c k digest sig)"

subsection \<open>Key files\<close>

type_synonym files = "string \<rightharpoonup> string"

definition key_magic :: string where
  "key_magic = ''chainlite-key-v1'' @ [CHR 0x0A]"

definition kp_save :: "(string \<Rightarrow> bool) \<Rightarrow> keypair \<Rightarrow> string \<Rightarrow> files \<Rightarrow> files option" where
  "kp_save can_write kp path fs =
     (if \<not> can_write path then None
      else Some (fs(path \<mapsto> key_magic @ hexs (kblob kp) @ [CHR 0x0A])))"

text \<open>\<^verbatim>\<open>while (!hx.empty() && (hx.back() is a newline, a return or a space)) hx.pop_back();\<close>\<close>

definition is_trail :: "char \<Rightarrow> bool" where
  "is_trail c \<longleftrightarrow> c = CHR 0x0A \<or> c = CHR 0x0D \<or> c = CHR '' ''"

definition rtrim :: "string \<Rightarrow> string" where
  "rtrim s = rev (dropWhile is_trail (rev s))"

definition kp_load :: "string \<Rightarrow> files \<Rightarrow> keypair option" where
  "kp_load path fs =
     (case fs path of None \<Rightarrow> None
      | Some content \<Rightarrow>
          let s = take 511 content in
          if take 17 s \<noteq> key_magic then None
          else case unhex (rtrim (drop 17 s)) of None \<Rightarrow> None
            | Some blob \<Rightarrow> if length blob \<noteq> 104 then None
                else Some \<lparr>kpub = take 64 (drop 8 blob), kblob = blob\<rparr>)"

definition kp_load_or_create ::
    "'k cng \<Rightarrow> nat \<Rightarrow> (string \<Rightarrow> bool) \<Rightarrow> string \<Rightarrow> files \<Rightarrow> keypair option \<times> files" where
  "kp_load_or_create c rnd can_write path fs =
     (case kp_load path fs of Some kp \<Rightarrow> (Some kp, fs)
      | None \<Rightarrow> (case kp_generate c rnd of None \<Rightarrow> (None, fs)
        | Some kp \<Rightarrow> (case kp_save can_write kp path fs of None \<Rightarrow> (None, fs)
          | Some fs' \<Rightarrow> (Some kp, fs'))))"

subsection \<open>Lemmas\<close>

lemma length_addr_of [simp, len_simps]: "length (addr_of pub) = 20"
  by (simp add: addr_of_def)

text \<open>Keys as the program makes them: the public part is bytes 8..71 of the private blob.\<close>

definition kp_ok :: "keypair \<Rightarrow> bool" where
  "kp_ok kp \<longleftrightarrow> kp_valid kp \<and> kpub kp = take 64 (drop 8 (kblob kp))"

lemma kp_generate_ok: "kp_generate c rnd = Some kp \<Longrightarrow> kp_ok kp"
  by (auto simp: kp_generate_def kp_ok_def kp_valid_def split: if_splits option.splits)

lemma kp_load_ok: "kp_load path fs = Some kp \<Longrightarrow> kp_ok kp"
  by (auto simp: kp_load_def kp_ok_def kp_valid_def Let_def split: if_splits option.splits)

lemma hexs_no_trail: "c \<in> set (hexs p) \<Longrightarrow> \<not> is_trail c"
proof -
  assume "c \<in> set (hexs p)"
  then obtain k where "k < 16" "c = hexdigits ! k"
    by (auto simp: hexs_concat hexpair_def intro: unat_nibbles_less)
  then have "0 \<le> hexval c" by (simp add: hexval_hexdigit)
  then show ?thesis by (auto simp: is_trail_def hexval_def)
qed

lemma rtrim_hexs: "rtrim (hexs p @ [CHR 0x0A]) = hexs p"
proof -
  have "dropWhile is_trail (rev (hexs p)) = rev (hexs p)"
    by (metis dropWhile_eq_self_iff hd_in_set hexs_no_trail set_rev)
  then show ?thesis by (simp add: rtrim_def is_trail_def)
qed

lemma kp_load_save:
  assumes "kp_ok kp" and "kp_save can_write kp path fs = Some fs'"
  shows "kp_load path fs' = Some kp"
proof -
  from assms(2) have fs': "fs' path = Some (key_magic @ hexs (kblob kp) @ [CHR 0x0A])"
    by (auto simp: kp_save_def split: if_splits)
  from assms(1) have len: "length (kblob kp) = 104" by (simp add: kp_ok_def kp_valid_def)
  have "length key_magic = 17" by (simp add: key_magic_def)
  with fs' len show ?thesis using assms(1)
    by (simp add: kp_load_def rtrim_hexs kp_ok_def)
qed

end
