(* ===== verification/TxBlock.thy ===== *)
theory TxBlock
  imports Crypto
begin

text \<open>
  \<^verbatim>\<open>src/core.h\<close>, first part: the consensus parameters, \<^verbatim>\<open>Tx\<close>, \<^verbatim>\<open>BlockHeader\<close> and \<^verbatim>\<open>Block\<close> with
  their serializers and parsers.

  \<open>tx_ok\<close>, \<open>header_ok\<close> and \<open>block_ok\<close> say which values have a wire form that parses back:
  arrays of their declared sizes, payloads of at most \<^verbatim>\<open>MAX_PAYLOAD\<close> bytes, at most
  \<^verbatim>\<open>MAX_BLOCK_TXS\<close> transactions.  The \<open>codec\<close> contract is interpreted for all three, so the
  encodings are injective and prefix-free and the parsers accept nothing else.
\<close>

subsection \<open>Consensus parameters\<close>

record params =
  p_net_id :: u32
  p_bits :: u32
  p_reward :: u64
  p_genesis_time :: u64

definition default_params :: params where
  "default_params = \<lparr>p_net_id = 0x4C495445, p_bits = 20, p_reward = 50, p_genesis_time = 1753000000\<rparr>"

definition CL_VERSION :: u32 where
  "CL_VERSION = 1"

definition MAX_PAYLOAD :: nat where
  "MAX_PAYLOAD = 1024"

definition MAX_BLOCK_TXS :: nat where
  "MAX_BLOCK_TXS = 5000"

definition MAX_TIME_SKEW_S :: u64 where
  "MAX_TIME_SKEW_S = 7200"

lemmas param_defs = CL_VERSION_def MAX_PAYLOAD_def MAX_BLOCK_TXS_def MAX_TIME_SKEW_S_def

subsection \<open>Transactions\<close>

definition TX_COINBASE :: u8 where
  "TX_COINBASE = 0"

definition TX_TRANSFER :: u8 where
  "TX_TRANSFER = 1"

definition TX_RECORD :: u8 where
  "TX_RECORD = 2"

lemmas txtype_defs = TX_COINBASE_def TX_TRANSFER_def TX_RECORD_def

record tx =
  tx_type :: u8
  tx_net_id :: u32
  tx_from :: pub64
  tx_to :: addr20
  tx_amount :: u64
  tx_nonce :: u64
  tx_payload :: bytes
  tx_sig :: sig64

definition tx_default :: tx where
  "tx_default = \<lparr>tx_type = TX_TRANSFER, tx_net_id = 0, tx_from = replicate 64 0, tx_to = replicate 20 0,
     tx_amount = 0, tx_nonce = 0, tx_payload = [], tx_sig = replicate 64 0\<rparr>"

definition tx_ser :: "tx \<Rightarrow> bool \<Rightarrow> writer \<Rightarrow> writer" where
  "tx_ser t with_sig w =
     (let w = w_u8 (tx_type t) w; w = w_u32 (tx_net_id t) w; w = w_arr (tx_from t) w; w = w_arr (tx_to t) w;
          w = w_u64 (tx_amount t) w; w = w_u64 (tx_nonce t) w;
          w = w_u16 (of_nat (length (tx_payload t))) w; w = w_blob (tx_payload t) w
      in if with_sig then w_arr (tx_sig t) w else w)"

definition tx_serialize :: "tx \<Rightarrow> bytes" where
  "tx_serialize t = tx_ser t True []"

definition sign_hash :: "tx \<Rightarrow> h256" where
  "sign_hash t = sha256d (tx_ser t False [])"

definition txid :: "tx \<Rightarrow> h256" where
  "txid t = sha256d (tx_ser t True [])"

definition tx_parse :: "reader \<Rightarrow> read_error + tx \<times> reader" where
  "tx_parse r =
     res_bind (rd_u8 r) (\<lambda>(ty, r).
     res_bind (rd_u32 r) (\<lambda>(nid, r).
     res_bind (rd_arr 64 r) (\<lambda>(from, r).
     res_bind (rd_arr 20 r) (\<lambda>(to, r).
     res_bind (rd_u64 r) (\<lambda>(amount, r).
     res_bind (rd_u64 r) (\<lambda>(nonce, r).
     res_bind (rd_u16 r) (\<lambda>(pl, r).
     if unat pl > MAX_PAYLOAD then Inl PayloadTooBig
     else res_bind (rd_blob (unat pl) r) (\<lambda>(payload, r).
     res_bind (rd_arr 64 r) (\<lambda>(sig, r).
     Inr (\<lparr>tx_type = ty, tx_net_id = nid, tx_from = from, tx_to = to, tx_amount = amount,
           tx_nonce = nonce, tx_payload = payload, tx_sig = sig\<rparr>, r))))))))))"

subsection \<open>Block header\<close>

definition HEADER_SIZE :: nat where
  "HEADER_SIZE = 100"

definition NONCE_OFFSET :: nat where
  "NONCE_OFFSET = 92"

record header =
  h_version :: u32
  h_net_id :: u32
  h_prev :: h256
  h_merkle :: h256
  h_height :: u64
  h_time :: u64
  h_bits :: u32
  h_nonce :: u64

definition header_default :: header where
  "header_default = \<lparr>h_version = CL_VERSION, h_net_id = 0, h_prev = replicate 32 0, h_merkle = replicate 32 0,
     h_height = 0, h_time = 0, h_bits = 0, h_nonce = 0\<rparr>"

definition header_ser :: "header \<Rightarrow> writer \<Rightarrow> writer" where
  "header_ser h w =
     (let w = w_u32 (h_version h) w; w = w_u32 (h_net_id h) w; w = w_arr (h_prev h) w; w = w_arr (h_merkle h) w;
          w = w_u64 (h_height h) w; w = w_u64 (h_time h) w; w = w_u32 (h_bits h) w
      in w_u64 (h_nonce h) w)"

definition header_serialize :: "header \<Rightarrow> bytes" where
  "header_serialize h = header_ser h []"

definition header_hash :: "header \<Rightarrow> h256" where
  "header_hash h = sha256d (header_ser h [])"

definition header_parse :: "reader \<Rightarrow> read_error + header \<times> reader" where
  "header_parse r =
     res_bind (rd_u32 r) (\<lambda>(version, r).
     res_bind (rd_u32 r) (\<lambda>(nid, r).
     res_bind (rd_arr 32 r) (\<lambda>(prev, r).
     res_bind (rd_arr 32 r) (\<lambda>(merkle, r).
     res_bind (rd_u64 r) (\<lambda>(height, r).
     res_bind (rd_u64 r) (\<lambda>(time, r).
     res_bind (rd_u32 r) (\<lambda>(bits, r).
     res_bind (rd_u64 r) (\<lambda>(nonce, r).
     Inr (\<lparr>h_version = version, h_net_id = nid, h_prev = prev, h_merkle = merkle, h_height = height,
           h_time = time, h_bits = bits, h_nonce = nonce\<rparr>, r)))))))))"

subsection \<open>Blocks\<close>

record block =
  hdr :: header
  txs :: "tx list"

definition block_serialize :: "block \<Rightarrow> bytes" where
  "block_serialize b =
     (let w = header_ser (hdr b) []; w = w_u32 (of_nat (length (txs b))) w
      in fold (\<lambda>t w. tx_ser t True w) (txs b) w)"

definition block_parse :: "bytes \<Rightarrow> block option" where
  "block_parse raw =
     (case res_bind (header_parse (mk_reader raw)) (\<lambda>(h, r). res_bind (rd_u32 r) (\<lambda>(n, r). Inr (h, n, r))) of
        Inl _ \<Rightarrow> None
      | Inr (h, n, r) \<Rightarrow>
          if unat n > MAX_BLOCK_TXS then None
          else case rd_many tx_parse (unat n) [] r of
            Inl _ \<Rightarrow> None
          | Inr (ts, r) \<Rightarrow> if rd_remaining r \<noteq> 0 then None else Some \<lparr>hdr = h, txs = ts\<rparr>)"

subsection \<open>Well-formed values\<close>

definition tx_ok :: "tx \<Rightarrow> bool" where
  "tx_ok t \<longleftrightarrow> length (tx_from t) = 64 \<and> length (tx_to t) = 20 \<and> length (tx_sig t) = 64 \<and>
     length (tx_payload t) \<le> MAX_PAYLOAD"

definition header_ok :: "header \<Rightarrow> bool" where
  "header_ok h \<longleftrightarrow> length (h_prev h) = 32 \<and> length (h_merkle h) = 32"

definition block_ok :: "block \<Rightarrow> bool" where
  "block_ok b \<longleftrightarrow> header_ok (hdr b) \<and> list_all tx_ok (txs b) \<and> length (txs b) \<le> MAX_BLOCK_TXS"

subsection \<open>Transactions on the wire\<close>

text \<open>The signed part of a transaction, as one string of fields.\<close>

definition tx_body :: "tx \<Rightarrow> bytes" where
  "tx_body t = [tx_type t] @ le_bytes 4 (tx_net_id t) @ tx_from t @ tx_to t @ le_bytes 8 (tx_amount t) @
     le_bytes 8 (tx_nonce t) @ le_bytes 2 (of_nat (length (tx_payload t)) :: u16) @ tx_payload t"

lemma tx_ser_eq [wire_simps]:
  "tx_ser t s w = w @ tx_body t @ (if s then tx_sig t else [])"
  by (simp add: tx_ser_def tx_body_def wire_simps Let_def)

lemma tx_serialize_eq: "tx_serialize t = tx_body t @ tx_sig t"
  by (simp add: tx_serialize_def wire_simps)

lemma length_tx_body: "length (tx_body t) =
    23 + length (tx_from t) + length (tx_to t) + length (tx_payload t)"
  by (simp add: tx_body_def)

lemma length_tx_serialize: "tx_ok t \<Longrightarrow> length (tx_serialize t) = 171 + length (tx_payload t)"
  by (simp add: tx_serialize_eq length_tx_body tx_ok_def)

lemma unat_payload_len: "tx_ok t \<Longrightarrow> unat (of_nat (length (tx_payload t)) :: u16) = length (tx_payload t)"
  by (simp add: tx_ok_def MAX_PAYLOAD_def unat_of_nat take_bit_nat_eq_self)

lemmas field_codecs = u8c.rd_enc u16c.rd_enc u32c.rd_enc u64c.rd_enc arrc.rd_enc blobc.rd_enc

lemma tx_parse_enc:
  assumes "tx_ok t"
  shows "tx_parse (rat pre (tx_serialize t @ suf)) = Inr (t, rat (pre @ tx_serialize t) suf)"
proof -
  have "tx_serialize t @ suf = w_u8 (tx_type t) [] @ w_u32 (tx_net_id t) [] @ w_arr (tx_from t) [] @
      w_arr (tx_to t) [] @ w_u64 (tx_amount t) [] @ w_u64 (tx_nonce t) [] @
      w_u16 (of_nat (length (tx_payload t))) [] @ w_blob (tx_payload t) [] @ w_arr (tx_sig t) [] @ suf"
    by (simp add: tx_serialize_eq tx_body_def wire_simps)
  moreover from assms have "length (tx_from t) = 64" "length (tx_to t) = 20" "length (tx_sig t) = 64"
      "length (tx_payload t) \<le> MAX_PAYLOAD" "unat (of_nat (length (tx_payload t)) :: u16) = length (tx_payload t)"
    by (simp_all add: tx_ok_def unat_payload_len[unfolded tx_ok_def])
  ultimately show ?thesis
    by (simp add: tx_parse_def field_codecs)
qed

lemmas field_elims = u8c.rdE u16c.rdE u32c.rdE u64c.rdE arrc.rdE blobc.rdE

lemma tx_parse_Inr:
  assumes "tx_parse (rat pre s) = Inr (t, r')"
  shows "tx_ok t \<and> (\<exists>suf. s = tx_serialize t @ suf \<and> r' = rat (pre @ tx_serialize t) suf)"
  using assms unfolding tx_parse_def
  by (auto elim!: res_bind_cases field_elims split: if_splits
      simp: tx_ok_def tx_serialize_eq tx_body_def wire_simps)

interpretation txc: codec tx_serialize tx_parse tx_ok
  using tx_parse_enc tx_parse_Inr by unfold_locales blast+

subsection \<open>Headers on the wire\<close>

lemma header_ser_eq [wire_simps]: "header_ser h w = w @ header_serialize h"
  by (simp add: header_serialize_def header_ser_def wire_simps Let_def)

lemma header_serialize_eq:
  "header_serialize h = le_bytes 4 (h_version h) @ le_bytes 4 (h_net_id h) @ h_prev h @ h_merkle h @
     le_bytes 8 (h_height h) @ le_bytes 8 (h_time h) @ le_bytes 4 (h_bits h) @ le_bytes 8 (h_nonce h)"
  by (simp add: header_serialize_def header_ser_def wire_simps Let_def)

lemma length_header_serialize: "header_ok h \<Longrightarrow> length (header_serialize h) = HEADER_SIZE"
  by (simp add: header_serialize_eq header_ok_def HEADER_SIZE_def)

lemma header_hash_eq: "header_hash h = sha256d (header_serialize h)"
  by (simp add: header_hash_def header_serialize_def)

lemma length_header_hash [simp]: "length (header_hash h) = 32"
  by (simp add: header_hash_def)

interpretation hdrc: codec header_serialize header_parse header_ok
proof unfold_locales
  fix h :: header and pre suf :: bytes
  assume "header_ok h"
  then have "length (h_prev h) = 32" "length (h_merkle h) = 32" by (simp_all add: header_ok_def)
  moreover have "header_serialize h @ suf = w_u32 (h_version h) [] @ w_u32 (h_net_id h) [] @
      w_arr (h_prev h) [] @ w_arr (h_merkle h) [] @ w_u64 (h_height h) [] @ w_u64 (h_time h) [] @
      w_u32 (h_bits h) [] @ w_u64 (h_nonce h) [] @ suf"
    by (simp add: header_serialize_eq wire_simps)
  ultimately show "header_parse (rat pre (header_serialize h @ suf)) =
      Inr (h, rat (pre @ header_serialize h) suf)"
    by (simp add: header_parse_def field_codecs)
next
  fix h r' and pre s :: bytes
  assume "header_parse (rat pre s) = Inr (h, r')"
  then show "header_ok h \<and> (\<exists>suf. s = header_serialize h @ suf \<and> r' = rat (pre @ header_serialize h) suf)"
    unfolding header_parse_def
    by (auto elim!: res_bind_cases field_elims simp: header_ok_def header_serialize_eq wire_simps)
qed

text \<open>
  The miners write the nonce straight into bytes \<^verbatim>\<open>NONCE_OFFSET .. NONCE_OFFSET + 7\<close> of the
  serialized header; that is the serialization of the header with that nonce.
\<close>

definition patch_nonce :: "bytes \<Rightarrow> u64 \<Rightarrow> bytes" where
  "patch_nonce raw nonce = fold (\<lambda>k raw. raw[NONCE_OFFSET + k := ucast (drop_bit (8 * k) nonce)]) [0..<8] raw"

lemma fold_list_update_range:
  "fold (\<lambda>k xs. xs[off + k := f k]) [0..<n] (pre @ xs @ suf) = pre @ map f [0..<n] @ suf"
  if "length pre = off" "length xs = n"
  using that
proof (induction n arbitrary: xs suf)
  case (Suc n)
  then obtain ys y where "xs = ys @ [y]" "length ys = n" by (metis length_Suc_conv_rev)
  with Suc.IH[of ys "y # suf"] Suc.prems(1) show ?case by (simp add: list_update_append)
qed simp

lemma patch_nonce_serialize:
  assumes "header_ok h"
  shows "patch_nonce (header_serialize h) nonce = header_serialize (h\<lparr>h_nonce := nonce\<rparr>)"
proof -
  obtain pre where pre: "\<And>n. header_serialize (h\<lparr>h_nonce := n\<rparr>) = pre @ le_bytes 8 n" "length pre = 92"
    using assms
    by (intro that[of "le_bytes 4 (h_version h) @ le_bytes 4 (h_net_id h) @ h_prev h @ h_merkle h @
        le_bytes 8 (h_height h) @ le_bytes 8 (h_time h) @ le_bytes 4 (h_bits h)"])
      (simp_all add: header_serialize_eq header_ok_def)
  from pre(1)[of "h_nonce h"] have "header_serialize h = pre @ le_bytes 8 (h_nonce h)" by simp
  with fold_list_update_range[of pre 92 "le_bytes 8 (h_nonce h)" 8
      "\<lambda>k. ucast (drop_bit (8 * k) nonce)" "[]"] pre show ?thesis
    by (simp add: patch_nonce_def NONCE_OFFSET_def le_bytes_def)
qed

subsection \<open>Blocks on the wire\<close>

lemma block_serialize_eq:
  "block_serialize b = header_serialize (hdr b) @ w_u32 (of_nat (length (txs b))) [] @
     concat (map tx_serialize (txs b))"
proof -
  have "fold (\<lambda>t w. tx_ser t True w) ts w = w @ concat (map tx_serialize ts)" for ts w
    using fold_append_concat[of tx_serialize ts w] by (simp add: wire_simps tx_serialize_eq)
  then show ?thesis by (simp add: block_serialize_def wire_simps)
qed

lemma block_parse_Some_iff: "block_parse raw = Some b \<longleftrightarrow> block_ok b \<and> raw = block_serialize b"
proof
  assume "block_parse raw = Some b"
  then obtain h n r r1 ts r2 where p:
      "header_parse (rat [] raw) = Inr (h, r)" "rd_u32 r = Inr (n, r1)" "unat n \<le> MAX_BLOCK_TXS"
      "rd_many tx_parse (unat n) [] r1 = Inr (ts, r2)" "rd_remaining r2 = 0" "b = \<lparr>hdr = h, txs = ts\<rparr>"
    unfolding block_parse_def
    by (auto simp: mk_reader_rat res_bind_Inr_iff split: sum.splits if_splits)
  from p(1) obtain s1 where h: "header_ok h" "raw = header_serialize h @ s1" "r = rat (header_serialize h) s1"
    by (rule hdrc.rdE) simp
  from p(2)[unfolded h(3)] obtain s2 where n: "s1 = w_u32 n [] @ s2"
      "r1 = rat (header_serialize h @ w_u32 n []) s2" by (rule u32c.rdE)
  from txc.rd_many_Inr[OF p(4)[unfolded n(2)]] obtain s3 where ts: "length ts = unat n"
      "list_all tx_ok ts" "s2 = concat (map tx_serialize ts) @ s3"
      "r2 = rat ((header_serialize h @ w_u32 n []) @ concat (map tx_serialize ts)) s3" by auto
  from p(5) ts(4) have "s3 = []" by simp
  with h n ts p(3,6) show "block_ok b \<and> raw = block_serialize b"
    by (simp add: block_ok_def block_serialize_eq ts(1))
next
  assume b: "block_ok b \<and> raw = block_serialize b"
  have len: "unat (of_nat (length (txs b)) :: u32) = length (txs b)"
    using b by (simp add: block_ok_def MAX_BLOCK_TXS_def unat_of_nat take_bit_nat_eq_self)
  have "\<not> MAX_BLOCK_TXS < length (txs b)" "header_ok (hdr b)" "list_all tx_ok (txs b)"
    using b by (auto simp: block_ok_def)
  with b len txc.rd_many_enc[of "txs b" "[]" "header_serialize (hdr b) @ w_u32 (of_nat (length (txs b))) []" "[]"]
  show "block_parse raw = Some b"
    by (simp add: block_parse_def mk_reader_rat block_serialize_eq hdrc.rd_enc u32c.rd_enc)
qed

end
