(* ===== verification/Merkle.thy ===== *)
theory Merkle
  imports TxBlock
begin

text \<open>
  \<^verbatim>\<open>src/core.h\<close>, the Merkle tree: \<^verbatim>\<open>merkle_parent\<close>, \<^verbatim>\<open>merkle_root\<close>, \<^verbatim>\<open>merkle_proof\<close> and
  \<^verbatim>\<open>merkle_apply\<close>.

  The loops are defined over any parent function and instantiated with \<^verbatim>\<open>merkle_parent\<close>.
  Lemmas: the path of every leaf reaches the root; the root commits to the list of leaves,
  as long as \<^verbatim>\<open>sha256d\<close> does not collide on the messages the two computations hash
  (\<open>tree_msgs\<close>, \<open>block_msgs\<close>).  The hypothesis names those messages because \<^verbatim>\<open>sha256d\<close> is not
  injective on all of \<open>bytes\<close>.
\<close>

definition merkle_parent :: "h256 \<Rightarrow> h256 \<Rightarrow> h256" where
  "merkle_parent l r = sha256d (l @ r)"

text \<open>\<^verbatim>\<open>if (level.size() & 1) level.push_back(level.back());\<close>\<close>

definition pad_level :: "'h list \<Rightarrow> 'h list" where
  "pad_level level = (if odd (length level) then level @ [last level] else level)"

text \<open>\<^verbatim>\<open>for (i = 0; i < level.size(); i += 2) up.push_back(parent(level[i], level[i + 1]));\<close>\<close>

fun pair_up :: "('h \<Rightarrow> 'h \<Rightarrow> 'h) \<Rightarrow> 'h list \<Rightarrow> 'h list" where
  "pair_up par (l # r # rest) = par l r # pair_up par rest"
| "pair_up par _ = []"

lemma length_pair_up [simp]: "length (pair_up par xs) = length xs div 2"
  by (induction par xs rule: pair_up.induct) auto

lemma length_pad_level: "length (pad_level xs) = (if odd (length xs) then Suc (length xs) else length xs)"
  by (simp add: pad_level_def)

lemma next_level_shorter:
  assumes "length xs > 1"
  shows "length (pair_up par (pad_level xs)) < length xs" "pair_up par (pad_level xs) \<noteq> []"
proof -
  have "Suc (n div 2) < n" if "odd n" "1 < n" for n :: nat using that by (auto elim!: oddE)
  with assms show "length (pair_up par (pad_level xs)) < length xs"
    by (cases "odd (length xs)") (simp_all add: length_pad_level)
  have "length (pair_up par (pad_level xs)) \<noteq> 0" using assms by (auto simp: length_pad_level)
  then show "pair_up par (pad_level xs) \<noteq> []" by force
qed

text \<open>The loops, over any parent function.\<close>

function root_loop :: "('h \<Rightarrow> 'h \<Rightarrow> 'h) \<Rightarrow> 'h list \<Rightarrow> 'h list" where
  "root_loop par level = (if length level > 1 then root_loop par (pair_up par (pad_level level)) else level)"
  by pat_completeness auto
termination
  by (relation "measure (\<lambda>(par, level). length level)")
    (use next_level_shorter in \<open>fastforce simp del: length_pair_up\<close>)+

declare root_loop.simps [simp del]

record 'h merkle_step =
  ms_h :: 'h
  ms_left :: bool

function proof_loop :: "('h \<Rightarrow> 'h \<Rightarrow> 'h) \<Rightarrow> 'h list \<Rightarrow> nat \<Rightarrow> 'h merkle_step list \<Rightarrow> 'h merkle_step list" where
  "proof_loop par level idx steps =
     (if length level > 1 then
        let level = pad_level level;
            sib = idx XOR 1;
            steps = steps @ [\<lparr>ms_h = level ! sib, ms_left = (idx AND 1 \<noteq> 0)\<rparr>]
        in proof_loop par (pair_up par level) (drop_bit 1 idx) steps
      else steps)"
  by pat_completeness auto
termination
  by (relation "measure (\<lambda>(par, level, idx, steps). length level)")
    (use next_level_shorter in \<open>fastforce simp del: length_pair_up\<close>)+

declare proof_loop.simps [simp del]

definition apply_step :: "('h \<Rightarrow> 'h \<Rightarrow> 'h) \<Rightarrow> 'h merkle_step \<Rightarrow> 'h \<Rightarrow> 'h" where
  "apply_step par s leaf = (if ms_left s then par (ms_h s) leaf else par leaf (ms_h s))"

definition merkle_root :: "h256 list \<Rightarrow> h256" where
  "merkle_root level = (if level = [] then replicate 32 0 else root_loop merkle_parent level ! 0)"

definition merkle_proof :: "h256 list \<Rightarrow> nat \<Rightarrow> h256 merkle_step list" where
  "merkle_proof level idx = proof_loop merkle_parent level idx []"

definition merkle_apply :: "h256 \<Rightarrow> h256 merkle_step list \<Rightarrow> h256" where
  "merkle_apply leaf steps = fold (apply_step merkle_parent) steps leaf"

subsection \<open>Levels\<close>

lemma nth_pair_up:
  "even (length xs) \<Longrightarrow> i < length xs div 2 \<Longrightarrow> pair_up par xs ! i = par (xs ! (2 * i)) (xs ! (2 * i + 1))"
proof (induction par xs arbitrary: i rule: pair_up.induct)
  case (1 par l r rest)
  then show ?case by (cases i) auto
qed auto

lemma even_length_pad [simp]: "even (length (pad_level xs))"
  by (simp add: length_pad_level)

lemma nth_pad_level: "i < length xs \<Longrightarrow> pad_level xs ! i = xs ! i"
  by (simp add: pad_level_def nth_append)

lemma nth_next_level:
  "i < length xs \<Longrightarrow> pair_up par (pad_level xs) ! (i div 2) =
     par (pad_level xs ! (2 * (i div 2))) (pad_level xs ! (2 * (i div 2) + 1))"
  by (rule nth_pair_up) (auto simp: length_pad_level)

fun pairs_of :: "'h list \<Rightarrow> ('h \<times> 'h) list" where
  "pairs_of (l # r # rest) = (l, r) # pairs_of rest"
| "pairs_of _ = []"

lemma pair_up_map: "pair_up par xs = map (\<lambda>(a, b). par a b) (pairs_of xs)"
  by (induction par xs rule: pair_up.induct) auto

lemma pairs_of_inj: "even (length xs) \<Longrightarrow> even (length ys) \<Longrightarrow> pairs_of xs = pairs_of ys \<Longrightarrow> xs = ys"
proof (induction xs arbitrary: ys rule: pairs_of.induct)
  case (1 l r rest)
  then obtain l' r' rest' where "ys = l' # r' # rest'" by (cases ys rule: pairs_of.cases) auto
  with 1 show ?case by auto
next
  case "2_1"
  then show ?case by (cases ys rule: pairs_of.cases) auto
qed auto

lemma pairs_of_mem: "(a, b) \<in> set (pairs_of xs) \<Longrightarrow> a \<in> set xs \<and> b \<in> set xs"
  by (induction xs rule: pairs_of.induct) auto

lemma set_pad_level: "set (pad_level xs) = set xs" if "xs \<noteq> []"
  using that by (auto simp: pad_level_def)

lemma distinct_pairs_of_pad: "distinct xs \<Longrightarrow> distinct (pairs_of (pad_level xs))"
proof (induction xs rule: pairs_of.induct)
  case (1 l r rest)
  have "pad_level (l # r # rest) = l # r # pad_level rest"
    by (cases rest) (simp_all add: pad_level_def)
  moreover have "(l, r) \<notin> set (pairs_of (pad_level rest))"
  proof
    assume l: "(l, r) \<in> set (pairs_of (pad_level rest))"
    then have "rest \<noteq> []" by (auto simp: pad_level_def)
    with pairs_of_mem[OF l] set_pad_level[of rest] "1.prems" show False by simp
  qed
  ultimately show ?case using 1 by simp
qed (auto simp: pad_level_def)

lemma pad_level_distinct_inj:
  assumes "distinct xs" "distinct ys" "pad_level xs = pad_level ys"
  shows "xs = ys"
proof -
  have dup: "zs \<noteq> us @ [last us]" if "distinct zs" "odd (length us)" for zs us :: "'a list"
    using that by (cases us rule: rev_cases) auto
  consider "xs = ys" | "odd (length xs)" "ys = xs @ [last xs]"
    | "odd (length ys)" "xs = ys @ [last ys]" | "xs @ [last xs] = ys @ [last ys]"
    using assms(3) unfolding pad_level_def by argo
  then show ?thesis
  proof cases
    case 2
    with dup[of ys xs] assms(2) show ?thesis by blast
  next
    case 3
    with dup[of xs ys] assms(1) show ?thesis by blast
  next
    case 4
    then show ?thesis by simp
  qed
qed

subsection \<open>Completeness of proofs\<close>

lemma proof_loop_acc: "proof_loop par xs i acc = acc @ proof_loop par xs i []"
proof (induction "length xs" arbitrary: xs i acc rule: less_induct)
  case less
  show ?case
  proof (cases "length xs > 1")
    case True
    let ?up = "pair_up par (pad_level xs)"
    have "length ?up < length xs" using True by (rule next_level_shorter)
    note IH = less[OF this, of "drop_bit 1 i"]
    let ?s = "\<lparr>ms_h = pad_level xs ! (i XOR 1), ms_left = (i AND 1 \<noteq> 0)\<rparr>"
    have "proof_loop par xs i a = proof_loop par ?up (drop_bit 1 i) (a @ [?s])" for a
      using True by (simp add: proof_loop.simps[of par xs] Let_def)
    then show ?thesis using IH[of "acc @ [?s]"] IH[of "[?s]"] by simp
  qed (simp add: proof_loop.simps[of par xs])
qed

lemma xor_one_nat: "(i :: nat) XOR 1 = (if even i then Suc i else i - 1)"
  using xor_Suc_0_eq[of i] by simp

lemma and_one_nat: "(i :: nat) AND 1 \<noteq> 0 \<longleftrightarrow> odd i"
  by (simp add: and_one_eq odd_iff_mod_2_eq_one)

lemma path_reaches_root:
  "i < length xs \<Longrightarrow> fold (apply_step par) (proof_loop par xs i []) (xs ! i) = root_loop par xs ! 0"
proof (induction "length xs" arbitrary: xs i rule: less_induct)
  case less
  show ?case
  proof (cases "length xs > 1")
    case True
    let ?p = "pad_level xs" let ?up = "pair_up par ?p"
    let ?s = "\<lparr>ms_h = ?p ! (i XOR 1), ms_left = (i AND 1 \<noteq> 0)\<rparr>"
    have up: "length ?up < length xs" "i div 2 < length ?up"
      using next_level_shorter[OF True, of par] less.prems by (auto simp: length_pad_level)
    have "apply_step par ?s (xs ! i) = par (?p ! (2 * (i div 2))) (?p ! (2 * (i div 2) + 1))"
      using nth_pad_level[OF less.prems] unfolding xor_one_nat and_one_nat
      by (cases "even i") (auto simp: apply_step_def elim!: evenE oddE)
    also have "\<dots> = ?up ! (i div 2)" using nth_next_level[OF less.prems] by simp
    finally have step: "apply_step par ?s (xs ! i) = ?up ! (i div 2)" .
    have "proof_loop par xs i [] = ?s # proof_loop par ?up (i div 2) []"
      using True proof_loop_acc[of par ?up "i div 2" "[?s]"]
      by (simp add: proof_loop.simps[of par xs] Let_def drop_bit_Suc)
    with step less.hyps[OF up] True show ?thesis
      by (simp add: root_loop.simps[of par xs])
  next
    case False
    with less.prems have "i = 0" by simp
    with False show ?thesis by (simp add: proof_loop.simps[of par xs] root_loop.simps[of par xs])
  qed
qed

lemma merkle_proof_complete:
  "i < length leaves \<Longrightarrow> merkle_apply (leaves ! i) (merkle_proof leaves i) = merkle_root leaves"
  using path_reaches_root[of i leaves merkle_parent]
  by (auto simp: merkle_apply_def merkle_proof_def merkle_root_def)

subsection \<open>The levels of a tree\<close>

fun lvl :: "('h \<Rightarrow> 'h \<Rightarrow> 'h) \<Rightarrow> nat \<Rightarrow> 'h list \<Rightarrow> 'h list" where
  "lvl par 0 xs = xs"
| "lvl par (Suc k) xs = pair_up par (pad_level (lvl par k xs))"

definition tree_pairs :: "('h \<Rightarrow> 'h \<Rightarrow> 'h) \<Rightarrow> 'h list \<Rightarrow> ('h \<times> 'h) set" where
  "tree_pairs par xs = {p. \<exists>k. length (lvl par k xs) > 1 \<and> p \<in> set (pairs_of (pad_level (lvl par k xs)))}"

lemma lvl_shift: "lvl par k (pair_up par (pad_level xs)) = lvl par (Suc k) xs"
  by (induction k) auto

lemma depth_exists:
  assumes "xs \<noteq> []"
  obtains d where "root_loop par xs = lvl par d xs" "length (lvl par d xs) = 1"
    "\<And>k. k < d \<Longrightarrow> length (lvl par k xs) > 1"
  using assms
proof (induction "length xs" arbitrary: xs thesis rule: less_induct)
  case less
  show ?case
  proof (cases "length xs > 1")
    case True
    let ?up = "pair_up par (pad_level xs)"
    from less.hyps[OF next_level_shorter(1)[OF True] _ next_level_shorter(2)[OF True]] obtain d where d: "root_loop par ?up = lvl par d ?up"
      "length (lvl par d ?up) = 1" "\<And>k. k < d \<Longrightarrow> length (lvl par k ?up) > 1" by blast
    show ?thesis
    proof (rule less.prems(1)[of "Suc d"])
      show "root_loop par xs = lvl par (Suc d) xs"
        using True d(1) by (simp add: root_loop.simps[of par xs] lvl_shift)
      show "length (lvl par (Suc d) xs) = 1" using d(2) by (simp only: lvl_shift)
      fix k assume "k < Suc d"
      with d(3)[of "k - 1"] True show "length (lvl par k xs) > 1"
        by (cases k) (simp_all only: lvl_shift lvl.simps(1) diff_Suc_1 Suc_less_eq)
    qed
  next
    case False
    with less.prems(2) have "length xs = 1" by (cases xs) auto
    with less.prems(1)[of 0] show ?thesis by (simp add: root_loop.simps[of par xs])
  qed
qed

lemma distinct_lvl:
  assumes "distinct xs" and "inj_on (\<lambda>(a, b). par a b) (tree_pairs par xs)"
    and "\<And>j. j < k \<Longrightarrow> length (lvl par j xs) > 1"
  shows "distinct (lvl par k xs)"
  using assms(3)
proof (induction k)
  case (Suc k)
  have "set (pairs_of (pad_level (lvl par k xs))) \<subseteq> tree_pairs par xs"
    using Suc.prems[of k] by (auto simp: tree_pairs_def)
  with assms(2) have "inj_on (\<lambda>(a, b). par a b) (set (pairs_of (pad_level (lvl par k xs))))"
    by (rule inj_on_subset)
  with Suc distinct_pairs_of_pad show ?case by (simp add: pair_up_map distinct_map)
qed (use assms(1) in simp)

lemma levels_agree:
  assumes "distinct xs" "distinct ys"
    and inj: "inj_on (\<lambda>(a, b). par a b) (tree_pairs par xs \<union> tree_pairs par ys)"
    and dx: "\<And>k. k < d1 \<Longrightarrow> length (lvl par k xs) > 1" and dy: "\<And>k. k < d2 \<Longrightarrow> length (lvl par k ys) > 1"
    and top: "lvl par d1 xs = lvl par d2 ys"
  shows "d \<le> d1 \<Longrightarrow> d \<le> d2 \<Longrightarrow> lvl par (d1 - d) xs = lvl par (d2 - d) ys"
proof (induction d)
  case (Suc d)
  let ?A = "lvl par (d1 - Suc d) xs" and ?B = "lvl par (d2 - Suc d) ys"
  have "d1 - d = Suc (d1 - Suc d)" "d2 - d = Suc (d2 - Suc d)" using Suc.prems by simp_all
  with Suc have "pair_up par (pad_level ?A) = pair_up par (pad_level ?B)" by simp
  moreover have "set (pairs_of (pad_level ?A)) \<union> set (pairs_of (pad_level ?B)) \<subseteq> tree_pairs par xs \<union> tree_pairs par ys"
    using dx[of "d1 - Suc d"] dy[of "d2 - Suc d"] Suc.prems by (auto simp: tree_pairs_def)
  ultimately have "pairs_of (pad_level ?A) = pairs_of (pad_level ?B)"
    unfolding pair_up_map by (rule map_inj_on[OF _ inj_on_subset[OF inj]])
  then have "pad_level ?A = pad_level ?B" by (rule pairs_of_inj[OF even_length_pad even_length_pad])
  moreover have "inj_on (\<lambda>(a, b). par a b) (tree_pairs par xs)" "inj_on (\<lambda>(a, b). par a b) (tree_pairs par ys)"
    using inj by (auto simp: inj_on_Un)
  then have "distinct ?A" "distinct ?B"
    using assms(1,2) dx dy Suc.prems by (auto intro!: distinct_lvl)
  ultimately show ?case by (metis pad_level_distinct_inj)
qed (use top in simp)

text \<open>Two trees with the same root have the same leaves, or differ in depth.\<close>

lemma root_binding:
  assumes "distinct xs" "distinct ys" "xs \<noteq> []" "ys \<noteq> []"
    and inj: "inj_on (\<lambda>(a, b). par a b) (tree_pairs par xs \<union> tree_pairs par ys)"
    and leaf: "set xs \<inter> (\<lambda>(a, b). par a b) ` tree_pairs par ys = {}"
      "set ys \<inter> (\<lambda>(a, b). par a b) ` tree_pairs par xs = {}"
    and eq: "root_loop par xs ! 0 = root_loop par ys ! 0"
  shows "xs = ys"
proof -
  obtain d1 where d1: "root_loop par xs = lvl par d1 xs" "length (lvl par d1 xs) = 1"
    "\<And>k. k < d1 \<Longrightarrow> length (lvl par k xs) > 1" using depth_exists[OF assms(3)] by blast
  obtain d2 where d2: "root_loop par ys = lvl par d2 ys" "length (lvl par d2 ys) = 1"
    "\<And>k. k < d2 \<Longrightarrow> length (lvl par k ys) > 1" using depth_exists[OF assms(4)] by blast
  obtain a b where "lvl par d1 xs = [a]" "lvl par d2 ys = [b]"
    using d1(2) d2(2) by (metis One_nat_def length_0_conv length_Suc_conv)
  with eq d1(1) d2(1) have top: "lvl par d1 xs = lvl par d2 ys" by simp
  note agree = levels_agree[OF assms(1,2) inj d1(3) d2(3) top]
  have inner: "False" if "lvl par (Suc k) zs = us" "us \<noteq> []" "length (lvl par k zs) > 1"
      "set us \<inter> (\<lambda>(a, b). par a b) ` tree_pairs par zs = {}" for k zs us
  proof -
    have "set (pairs_of (pad_level (lvl par k zs))) \<subseteq> tree_pairs par zs"
      using that(3) by (auto simp: tree_pairs_def)
    then have "set us \<subseteq> (\<lambda>(a, b). par a b) ` tree_pairs par zs"
      unfolding that(1)[symmetric] lvl.simps pair_up_map by (simp add: image_mono)
    with that(2,4) show False by (metis Int_absorb2 set_empty)
  qed
  consider "d1 = d2" | "d1 < d2" | "d2 < d1" by linarith
  then show ?thesis
  proof cases
    case 1
    with agree[of d1] show ?thesis by simp
  next
    case 2
    then obtain k where "d2 - d1 = Suc k" by (metis Suc_diff_Suc)
    with agree[of d1] 2 inner[of k ys xs] d2(3)[of k] assms(3) leaf(1) show ?thesis by simp
  next
    case 3
    then obtain k where "d1 - d2 = Suc k" by (metis Suc_diff_Suc)
    with agree[of d2] 3 inner[of k xs ys] d1(3)[of k] assms(4) leaf(2) show ?thesis by simp
  qed
qed

subsection \<open>The root commits to the transactions\<close>

definition tree_msgs :: "h256 list \<Rightarrow> bytes set" where
  "tree_msgs leaves = (\<lambda>(l, r). l @ r) ` tree_pairs merkle_parent leaves"

text \<open>Every message hashed to compute the root of a list of transactions.\<close>

definition block_msgs :: "tx list \<Rightarrow> bytes set" where
  "block_msgs ts = tx_serialize ` set ts \<union> tree_msgs (map txid ts)"

lemma txid_eq: "txid t = sha256d (tx_serialize t)"
  by (simp add: txid_def tx_serialize_def)

lemma length_txid [simp]: "length (txid t) = 32"
  by (simp add: txid_eq)

lemma length_lvl_elems:
  "\<forall>x \<in> set xs. length x = 32 \<Longrightarrow> \<forall>x \<in> set (lvl merkle_parent k xs). length x = 32"
  by (induction k) (auto simp: pair_up_map merkle_parent_def)

lemma tree_pairs_lengths:
  assumes "\<forall>x \<in> set xs. length x = 32" and "(a, b) \<in> tree_pairs merkle_parent xs"
  shows "length a = 32 \<and> length b = 32"
proof -
  from assms(2) obtain k where k: "length (lvl merkle_parent k xs) > 1"
    and ab: "(a, b) \<in> set (pairs_of (pad_level (lvl merkle_parent k xs)))" by (auto simp: tree_pairs_def)
  from k have "lvl merkle_parent k xs \<noteq> []" by auto
  with pairs_of_mem[OF ab] set_pad_level length_lvl_elems[OF assms(1), of k] show ?thesis by blast
qed

lemma tree_msgs_length: "\<forall>x \<in> set xs. length x = 32 \<Longrightarrow> m \<in> tree_msgs xs \<Longrightarrow> length m = 64"
  by (auto simp: tree_msgs_def dest!: tree_pairs_lengths)

lemma parent_inj_on:
  assumes "\<forall>x \<in> set xs \<union> set ys. length x = 32" and "inj_on sha256d (tree_msgs xs \<union> tree_msgs ys)"
  shows "inj_on (\<lambda>(a, b). merkle_parent a b) (tree_pairs merkle_parent xs \<union> tree_pairs merkle_parent ys)"
proof (rule inj_onI, clarify)
  fix a b c d
  let ?P = "tree_pairs merkle_parent xs \<union> tree_pairs merkle_parent ys"
  assume ab: "(a, b) \<in> ?P" and cd: "(c, d) \<in> ?P" and eq: "merkle_parent a b = merkle_parent c d"
  have "a @ b \<in> tree_msgs xs \<union> tree_msgs ys" "c @ d \<in> tree_msgs xs \<union> tree_msgs ys"
    using ab cd by (force simp: tree_msgs_def)+
  with eq assms(2) have "a @ b = c @ d" by (auto simp: merkle_parent_def dest: inj_onD)
  moreover have "length a = 32" if "(a, b) \<in> ?P" for a b :: bytes
    using that assms(1) tree_pairs_lengths[of xs a b] tree_pairs_lengths[of ys a b] by blast
  from this[OF ab] this[OF cd] have "length a = length c" by simp
  ultimately show "a = c \<and> b = d" by simp
qed

lemma leaf_not_node:
  assumes "list_all tx_ok ts" "\<forall>x \<in> set ys. length x = 32"
    and "inj_on sha256d (tx_serialize ` set ts \<union> tree_msgs ys)"
  shows "set (map txid ts) \<inter> (\<lambda>(a, b). merkle_parent a b) ` tree_pairs merkle_parent ys = {}"
proof -
  have False if t: "t \<in> set ts" and ab: "(a, b) \<in> tree_pairs merkle_parent ys" "txid t = merkle_parent a b" for t a b
  proof -
    have m: "a @ b \<in> tree_msgs ys" using ab(1) by (force simp: tree_msgs_def)
    with ab(2) t assms(3) have "tx_serialize t = a @ b"
      by (auto simp: txid_eq merkle_parent_def dest: inj_onD)
    with tree_msgs_length[OF assms(2) m] have "length (tx_serialize t) = 64" by simp
    with assms(1) t show False by (auto simp: list_all_iff length_tx_serialize)
  qed
  then show ?thesis by auto
qed

lemma merkle_root_binding:
  assumes ok: "list_all tx_ok ts" "list_all tx_ok us" and ne: "ts \<noteq> []" "us \<noteq> []"
    and dist: "distinct ts" "distinct us"
    and inj: "inj_on sha256d (block_msgs ts \<union> block_msgs us)"
    and eq: "merkle_root (map txid ts) = merkle_root (map txid us)"
  shows "ts = us"
proof -
  have inj': "inj_on sha256d S" if "S \<subseteq> block_msgs ts \<union> block_msgs us" for S
    using that inj by (rule inj_on_subset[rotated])
  have ser: "inj_on tx_serialize (set ts \<union> set us)"
    using ok by (auto simp: list_all_iff intro!: inj_onI txc.enc_inj)
  have tid: "inj_on txid (set ts \<union> set us)"
  proof (rule inj_onI)
    fix t u assume tu: "t \<in> set ts \<union> set us" "u \<in> set ts \<union> set us" "txid t = txid u"
    have "tx_serialize t \<in> block_msgs ts \<union> block_msgs us" "tx_serialize u \<in> block_msgs ts \<union> block_msgs us"
      using tu(1,2) by (auto simp: block_msgs_def)
    then have "tx_serialize t = tx_serialize u" by (rule inj_onD[OF inj tu(3)[unfolded txid_eq]])
    then show "t = u" using tu(1,2) by (rule inj_onD[OF ser])
  qed
  have "map txid ts = map txid us"
  proof (rule root_binding[where par = merkle_parent])
    show "distinct (map txid ts)" "distinct (map txid us)"
      using dist tid by (auto simp: distinct_map inj_on_Un)
    show "map txid ts \<noteq> []" "map txid us \<noteq> []" using ne by auto
    show "inj_on (\<lambda>(a, b). merkle_parent a b) (tree_pairs merkle_parent (map txid ts) \<union> tree_pairs merkle_parent (map txid us))"
      by (rule parent_inj_on) (auto intro!: inj' simp: block_msgs_def)
    show "set (map txid ts) \<inter> (\<lambda>(a, b). merkle_parent a b) ` tree_pairs merkle_parent (map txid us) = {}"
      using ok by (intro leaf_not_node) (auto intro!: inj' simp: block_msgs_def)
    show "set (map txid us) \<inter> (\<lambda>(a, b). merkle_parent a b) ` tree_pairs merkle_parent (map txid ts) = {}"
      using ok by (intro leaf_not_node) (auto intro!: inj' simp: block_msgs_def)
    show "root_loop merkle_parent (map txid ts) ! 0 = root_loop merkle_parent (map txid us) ! 0"
      using eq ne by (simp add: merkle_root_def)
  qed
  then show ?thesis using tid by (rule map_inj_on)
qed

subsection \<open>A path that reaches the root starts at a leaf\<close>

text \<open>Every message hashed while a path is applied.\<close>

fun path_msgs :: "h256 \<Rightarrow> h256 merkle_step list \<Rightarrow> bytes set" where
  "path_msgs x [] = {}"
| "path_msgs x (s # ss) =
     insert (if ms_left s then ms_h s @ x else x @ ms_h s) (path_msgs (apply_step merkle_parent s x) ss)"

definition tree_node :: "h256 list \<Rightarrow> nat \<Rightarrow> h256 \<Rightarrow> bool" where
  "tree_node leaves k y \<longleftrightarrow> (\<forall>j < k. length (lvl merkle_parent j leaves) > 1) \<and> y \<in> set (lvl merkle_parent k leaves)"

lemma tree_node_parent:
  assumes "tree_node leaves (Suc k) y"
  obtains a b where "y = sha256d (a @ b)" "a @ b \<in> tree_msgs leaves" "(a, b) \<in> tree_pairs merkle_parent leaves"
    "tree_node leaves k a" "tree_node leaves k b"
proof -
  let ?L = "lvl merkle_parent k leaves"
  have len: "length ?L > 1" and y: "y \<in> set (pair_up merkle_parent (pad_level ?L))" using assms by (simp_all add: tree_node_def)
  from y obtain a b where ab: "(a, b) \<in> set (pairs_of (pad_level ?L))" "y = merkle_parent a b"
    by (auto simp: pair_up_map)
  have tp: "(a, b) \<in> tree_pairs merkle_parent leaves" using len ab(1) by (auto simp: tree_pairs_def)
  have "?L \<noteq> []" using len by auto
  with pairs_of_mem[OF ab(1)] have "a \<in> set ?L" "b \<in> set ?L" by (simp_all add: set_pad_level)
  moreover have "\<forall>j < k. length (lvl merkle_parent j leaves) > 1" using assms by (simp add: tree_node_def)
  moreover have "a @ b \<in> tree_msgs leaves" using tp by (force simp: tree_msgs_def)
  ultimately show thesis using that ab(2) tp by (simp add: tree_node_def merkle_parent_def)
qed

lemma root_is_node:
  assumes "leaves \<noteq> []"
  obtains k where "tree_node leaves k (merkle_root leaves)"
proof -
  obtain d where d: "root_loop merkle_parent leaves = lvl merkle_parent d leaves" "length (lvl merkle_parent d leaves) = 1"
    "\<And>k. k < d \<Longrightarrow> length (lvl merkle_parent k leaves) > 1" using depth_exists[OF assms] by blast
  have "merkle_root leaves \<in> set (lvl merkle_parent d leaves)" using d(1,2) assms by (simp add: merkle_root_def)
  with d(3) that show thesis by (auto simp: tree_node_def)
qed

lemma length_path: "length x = 32 \<Longrightarrow> list_all (\<lambda>s. length (ms_h s) = 32) steps \<Longrightarrow> m \<in> path_msgs x steps \<Longrightarrow> length m = 64"
proof (induction steps arbitrary: x)
  case (Cons s steps)
  have "length (apply_step merkle_parent s x) = 32" by (simp add: apply_step_def merkle_parent_def)
  with Cons show ?case by (auto split: if_splits)
qed simp

lemma path_stays_in_tree:
  assumes "list_all tx_ok ts" "ts \<noteq> []"
  shows "length x = 32 \<Longrightarrow> list_all (\<lambda>s. length (ms_h s) = 32) steps \<Longrightarrow>
     inj_on sha256d (block_msgs ts \<union> path_msgs x steps) \<Longrightarrow>
     merkle_apply x steps = merkle_root (map txid ts) \<Longrightarrow> \<exists>k. tree_node (map txid ts) k x"
proof (induction steps arbitrary: x)
  case Nil
  obtain k where "tree_node (map txid ts) k (merkle_root (map txid ts))"
    using root_is_node[of "map txid ts"] assms(2) by auto
  with Nil show ?case by (auto simp: merkle_apply_def)
next
  case (Cons s steps)
  let ?y = "apply_step merkle_parent s x" and ?m = "if ms_left s then ms_h s @ x else x @ ms_h s"
  let ?leaves = "map txid ts"
  have y: "?y = sha256d ?m" "length ?y = 32" by (simp_all add: apply_step_def merkle_parent_def)
  have lm: "length ?m = 64" "length (ms_h s) = 32" using Cons.prems(1,2) by simp_all
  have "inj_on sha256d (block_msgs ts \<union> path_msgs ?y steps)" using Cons.prems(3) by (rule inj_on_subset) auto
  moreover have "merkle_apply ?y steps = merkle_root ?leaves" using Cons.prems(4) by (simp add: merkle_apply_def)
  ultimately obtain k where k: "tree_node ?leaves k ?y" using Cons.IH[OF y(2)] Cons.prems(2) by auto
  have same: "?m = m" if "m \<in> block_msgs ts" "sha256d m = ?y" for m
    by (rule inj_onD[OF Cons.prems(3)]) (use that y(1) in auto)
  show ?case
  proof (cases k)
    case 0
    with k obtain t where t: "t \<in> set ts" "?y = txid t" by (auto simp: tree_node_def)
    then have "?m = tx_serialize t" by (intro same) (auto simp: block_msgs_def txid_eq)
    with lm(1) t(1) assms(1) show ?thesis by (auto simp: list_all_iff length_tx_serialize)
  next
    case (Suc j)
    from k[unfolded Suc] obtain a b where ab: "?y = sha256d (a @ b)" "a @ b \<in> tree_msgs ?leaves"
      "(a, b) \<in> tree_pairs merkle_parent ?leaves" "tree_node ?leaves j a" "tree_node ?leaves j b"
      by (rule tree_node_parent)
    have "?m = a @ b" using ab(1,2) by (intro same) (auto simp: block_msgs_def)
    moreover have "length a = 32" using tree_pairs_lengths[OF _ ab(3)] by auto
    ultimately have "x = a \<or> x = b" using Cons.prems(1) lm(2) by (auto split: if_splits)
    with ab(4,5) show ?thesis by auto
  qed
qed

lemma merkle_path_sound:
  assumes "list_all tx_ok ts" "ts \<noteq> []" "tx_ok t" "list_all (\<lambda>s. length (ms_h s) = 32) steps"
    and inj: "inj_on sha256d (insert (tx_serialize t) (block_msgs ts \<union> path_msgs (txid t) steps))"
    and root: "merkle_apply (txid t) steps = merkle_root (map txid ts)"
  shows "t \<in> set ts"
proof -
  have "inj_on sha256d (block_msgs ts \<union> path_msgs (txid t) steps)" using inj by (rule inj_on_subset) auto
  from path_stays_in_tree[OF assms(1,2) length_txid assms(4) this root]
  obtain k where k: "tree_node (map txid ts) k (txid t)" by blast
  have same: "tx_serialize t = m" if "m \<in> block_msgs ts" "sha256d m = txid t" for m
    by (rule inj_onD[OF inj]) (use that in \<open>auto simp: txid_eq\<close>)
  show ?thesis
  proof (cases k)
    case 0
    with k obtain u where u: "u \<in> set ts" "txid t = txid u" by (auto simp: tree_node_def)
    then have "tx_serialize t = tx_serialize u" by (intro same) (auto simp: block_msgs_def txid_eq)
    with assms(1,3) u(1) have "t = u" by (metis list_all_iff txc.enc_inj)
    with u(1) show ?thesis by simp
  next
    case (Suc j)
    from k[unfolded Suc] obtain a b where ab: "txid t = sha256d (a @ b)" "a @ b \<in> tree_msgs (map txid ts)"
      by (rule tree_node_parent)
    have "tx_serialize t = a @ b" using ab by (intro same) (auto simp: block_msgs_def)
    moreover have "length (a @ b) = 64" using tree_msgs_length[OF _ ab(2)] by simp
    ultimately have "length (tx_serialize t) = 64" by simp
    with assms(3) show ?thesis by (simp add: length_tx_serialize)
  qed
qed

lemma proof_loop_siblings:
  "i < length xs \<Longrightarrow> \<forall>x \<in> set xs. length x = 32 \<Longrightarrow>
     list_all (\<lambda>s. length (ms_h s) = 32) (proof_loop merkle_parent xs i [])"
proof (induction "length xs" arbitrary: xs i rule: less_induct)
  case less
  show ?case
  proof (cases "length xs > 1")
    case False
    then show ?thesis by (simp add: proof_loop.simps)
  next
    case True
    let ?next = "pair_up merkle_parent (pad_level xs)"
    have "even (length (pad_level xs))" "i < length (pad_level xs)"
      using less.prems(1) by (simp_all add: length_pad_level)
    then have "i XOR 1 < length (pad_level xs)"
      unfolding xor_one_nat by (cases "even i") (auto simp del: even_length_pad elim!: evenE)
    then have "length (pad_level xs ! (i XOR 1)) = 32"
      using less.prems(2) set_pad_level [of xs] True by (metis length_greater_0_conv less_trans nth_mem zero_less_one)
    moreover have "i div 2 < length ?next" "length ?next < length xs"
      using less.prems(1) next_level_shorter(1) [OF True] by (auto simp: length_pad_level elim!: oddE)
    moreover have "\<forall>x \<in> set ?next. length x = 32"
      using length_lvl_elems [OF less.prems(2), of 1] by simp
    ultimately show ?thesis
      using less.hyps [of ?next "i div 2"] True
      by (subst proof_loop.simps) (simp add: Let_def proof_loop_acc [of _ _ _ "[_]"] drop_bit_eq_div)
  qed
qed

lemma merkle_proof_siblings:
  "i < length ts \<Longrightarrow> list_all (\<lambda>s. length (ms_h s) = 32) (merkle_proof (map txid ts) i)"
  by (simp add: merkle_proof_def proof_loop_siblings)

lemma length_proof_loop: "xs \<noteq> [] \<Longrightarrow> length (proof_loop par xs i []) < length xs"
proof (induction "length xs" arbitrary: xs i rule: less_induct)
  case less
  show ?case
  proof (cases "length xs > 1")
    case False
    then show ?thesis using less.prems by (simp add: proof_loop.simps)
  next
    case True
    note shorter = next_level_shorter [OF True, of par]
    show ?thesis
      using less.hyps [OF shorter, of "i div 2"] shorter(1) True
      by (subst proof_loop.simps) (simp add: Let_def proof_loop_acc [of _ _ _ "[_]"] drop_bit_eq_div)
  qed
qed

lemma length_merkle_proof: "xs \<noteq> [] \<Longrightarrow> length (merkle_proof xs i) < length xs"
  by (simp add: merkle_proof_def length_proof_loop)

end
