(* ===== verification/Ledger.thy ===== *)
theory Ledger
  imports Merkle
begin

text \<open>
  \<^verbatim>\<open>src/core.h\<close>, account state: \<^verbatim>\<open>Account\<close>, \<^verbatim>\<open>State\<close> and \<^verbatim>\<open>apply_tx\<close>.

  \<open>apply_tx\<close> returns the error (\<open>None\<close> for the empty string) and the state: the C++
  function mutates its argument, and \<^verbatim>\<open>st[a]\<close> creates a default account even when a later
  check fails, which \<^verbatim>\<open>Mempool::collect\<close> can observe.

  Above it stands the abstract ledger \<open>aledger\<close>: balances and nonces as unbounded naturals
  for every address.  \<open>apply_tx\<close> refines its step as long as the coins in existence fit in
  64 bits.  Lemmas: the invariant, the exact change of every account, conservation of the
  coin supply, and nonces that count up by one per transaction of their owner.
\<close>

record account =
  balance :: u64
  nonce :: u64

definition account0 :: account where
  "account0 = \<lparr>balance = 0, nonce = 0\<rparr>"

type_synonym state = "(addr20, account) smap"

datatype tx_error =
    WrongNetworkId
  | CoinbaseNotFirst
  | CoinbaseFromSig
  | CoinbasePayload
  | BadCoinbaseAmount
  | CoinbaseNonce
  | FirstNotCoinbase
  | MissingSender
  | BadSignature
  | BadNonce u64 u64
  | TransferPayload
  | InsufficientBalance
  | RecordAmount
  | BadPayloadSize
  | UnknownTxType

text \<open>\<^verbatim>\<open>st[a]\<close>: the account, default-constructed if absent, and the map that now holds it.\<close>

definition st_get :: "addr20 \<Rightarrow> state \<Rightarrow> account" where
  "st_get a st = smap_at account0 st a"

definition st_touch :: "addr20 \<Rightarrow> state \<Rightarrow> state" where
  "st_touch a st = smap_put a (st_get a st) st"

definition st_credit :: "addr20 \<Rightarrow> u64 \<Rightarrow> state \<Rightarrow> state" where
  "st_credit a v st = smap_put a ((st_get a st)\<lparr>balance := balance (st_get a st) + v\<rparr>) st"

definition st_debit :: "addr20 \<Rightarrow> u64 \<Rightarrow> state \<Rightarrow> state" where
  "st_debit a v st = smap_put a ((st_get a st)\<lparr>balance := balance (st_get a st) - v\<rparr>) st"

definition st_bump :: "addr20 \<Rightarrow> state \<Rightarrow> state" where
  "st_bump a st = smap_put a ((st_get a st)\<lparr>nonce := nonce (st_get a st) + 1\<rparr>) st"

definition apply_tx ::
    "'k cng \<Rightarrow> state \<Rightarrow> tx \<Rightarrow> params \<Rightarrow> u64 \<Rightarrow> bool \<Rightarrow> tx_error option \<times> state" where
  "apply_tx c st t p height is_first =
     (if tx_net_id t \<noteq> p_net_id p then (Some WrongNetworkId, st)
      else if tx_type t = TX_COINBASE then
        (if \<not> is_first then (Some CoinbaseNotFirst, st)
         else if \<not> is_zero (tx_from t) \<or> \<not> is_zero (tx_sig t) then (Some CoinbaseFromSig, st)
         else if tx_payload t \<noteq> [] then (Some CoinbasePayload, st)
         else if tx_amount t \<noteq> p_reward p then (Some BadCoinbaseAmount, st)
         else if tx_nonce t \<noteq> height then (Some CoinbaseNonce, st)
         else (None, st_credit (tx_to t) (tx_amount t) st))
      else if is_first then (Some FirstNotCoinbase, st)
      else if is_zero (tx_from t) then (Some MissingSender, st)
      else if \<not> sig_verify c (tx_from t) (sign_hash t) (tx_sig t) then (Some BadSignature, st)
      else
        (let a = addr_of (tx_from t); st = st_touch a st; acct = st_get a st in
         if tx_nonce t \<noteq> nonce acct then (Some (BadNonce (nonce acct) (tx_nonce t)), st)
         else if tx_type t = TX_TRANSFER then
           (if tx_payload t \<noteq> [] then (Some TransferPayload, st)
            else if balance acct < tx_amount t then (Some InsufficientBalance, st)
            else (None, st_bump a (st_credit (tx_to t) (tx_amount t) (st_debit a (tx_amount t) st))))
         else if tx_type t = TX_RECORD then
           (if tx_amount t \<noteq> 0 then (Some RecordAmount, st)
            else if tx_payload t = [] \<or> length (tx_payload t) > MAX_PAYLOAD then (Some BadPayloadSize, st)
            else (None, st_bump a st))
         else (Some UnknownTxType, st)))"

text \<open>
  The loop of \<^verbatim>\<open>connect_block\<close> over the transactions of a block: \<open>i\<close> is the index, the
  result the index and error of the first transaction that fails, and the state copy.
\<close>

fun apply_txs :: "'k cng \<Rightarrow> params \<Rightarrow> u64 \<Rightarrow> nat \<Rightarrow> state \<Rightarrow> tx list \<Rightarrow> (nat \<times> tx_error) option \<times> state" where
  "apply_txs c p height i st [] = (None, st)"
| "apply_txs c p height i st (t # ts) =
     (case apply_tx c st t p height (i = 0) of
        (Some e, st) \<Rightarrow> (Some (i, e), st)
      | (None, st) \<Rightarrow> apply_txs c p height (Suc i) st ts)"

subsection \<open>Reading accounts\<close>

lemmas st_defs = st_touch_def st_credit_def st_debit_def st_bump_def

lemma st_ok [simp]:
  assumes "smap_ok st"
  shows "smap_ok (st_touch a st)" "smap_ok (st_credit a v st)" "smap_ok (st_debit a v st)" "smap_ok (st_bump a st)"
  using assms by (simp_all add: st_defs sm.ok_put)

lemma st_get_upd [ledger_simps]:
  assumes "smap_ok st"
  shows "st_get b (st_touch a st) = st_get b st"
    "st_get b (st_credit a v st) = (if b = a then (st_get b st)\<lparr>balance := balance (st_get b st) + v\<rparr> else st_get b st)"
    "st_get b (st_debit a v st) = (if b = a then (st_get b st)\<lparr>balance := balance (st_get b st) - v\<rparr> else st_get b st)"
    "st_get b (st_bump a st) = (if b = a then (st_get b st)\<lparr>nonce := nonce (st_get b st) + 1\<rparr> else st_get b st)"
  using assms by (simp_all add: st_defs st_get_def smap_at_put)

lemma st_get_Nil [simp]: "st_get a [] = account0"
  by (simp add: st_get_def smap_at_def)

lemma smap_ok_apply_tx: "smap_ok st \<Longrightarrow> smap_ok (snd (apply_tx c st t p height is_first))"
  by (simp add: apply_tx_def Let_def)

subsection \<open>What a successful transaction does\<close>

text \<open>The checks that do not depend on the state.\<close>

definition tx_static_ok :: "'k cng \<Rightarrow> tx \<Rightarrow> params \<Rightarrow> u64 \<Rightarrow> bool \<Rightarrow> bool" where
  "tx_static_ok c t p height is_first \<longleftrightarrow>
     tx_net_id t = p_net_id p \<and>
     (if tx_type t = TX_COINBASE
      then is_first \<and> is_zero (tx_from t) \<and> is_zero (tx_sig t) \<and> tx_payload t = [] \<and>
        tx_amount t = p_reward p \<and> tx_nonce t = height
      else \<not> is_first \<and> \<not> is_zero (tx_from t) \<and> sig_verify c (tx_from t) (sign_hash t) (tx_sig t) \<and>
        (tx_type t = TX_TRANSFER \<and> tx_payload t = [] \<or>
         tx_type t = TX_RECORD \<and> tx_amount t = 0 \<and> tx_payload t \<noteq> [] \<and> length (tx_payload t) \<le> MAX_PAYLOAD))"

definition sender :: "tx \<Rightarrow> addr20" where
  "sender t = addr_of (tx_from t)"

lemma apply_tx_success_iff:
  assumes "smap_ok st"
  shows "fst (apply_tx c st t p height is_first) = None \<longleftrightarrow>
    tx_static_ok c t p height is_first \<and>
    (tx_type t \<noteq> TX_COINBASE \<longrightarrow> nonce (st_get (sender t) st) = tx_nonce t \<and>
      (tx_type t = TX_TRANSFER \<longrightarrow> tx_amount t \<le> balance (st_get (sender t) st)))"
  using assms
  by (auto simp: apply_tx_def tx_static_ok_def sender_def Let_def ledger_simps txtype_defs not_less)

text \<open>The state a successful transaction leaves, as the sequence of updates the code makes.\<close>

definition tx_effect :: "tx \<Rightarrow> state \<Rightarrow> state" where
  "tx_effect t st =
     (if tx_type t = TX_COINBASE then st_credit (tx_to t) (tx_amount t) st
      else if tx_type t = TX_TRANSFER then
        st_bump (sender t) (st_credit (tx_to t) (tx_amount t) (st_debit (sender t) (tx_amount t) (st_touch (sender t) st)))
      else st_bump (sender t) (st_touch (sender t) st))"

lemma apply_tx_outcome:
  "case apply_tx c st t p height is_first of (err, st') \<Rightarrow>
     (err = None \<and> st' = tx_effect t st) \<or> (err \<noteq> None \<and> (st' = st \<or> st' = st_touch (sender t) st))"
  unfolding apply_tx_def by (simp add: sender_def tx_effect_def Let_def)

lemma apply_tx_effect:
  "fst (apply_tx c st t p height is_first) = None \<Longrightarrow>
     snd (apply_tx c st t p height is_first) = tx_effect t st"
  using apply_tx_outcome[where c = c and st = st and t = t and p = p and height = height and is_first = is_first] by (auto split: prod.splits)

lemma apply_tx_error_state:
  "smap_ok st \<Longrightarrow> fst (apply_tx c st t p height is_first) = Some e \<Longrightarrow>
     st_get a (snd (apply_tx c st t p height is_first)) = st_get a st"
  using apply_tx_outcome[where c = c and st = st and t = t and p = p and height = height and is_first = is_first] by (auto simp: ledger_simps split: prod.splits)

lemma tx_effect_ok [simp]: "smap_ok st \<Longrightarrow> smap_ok (tx_effect t st)"
  by (simp add: tx_effect_def)

lemma st_get_tx_effect [ledger_simps]:
  assumes "smap_ok st"
  shows "st_get a (tx_effect t st) =
    (if tx_type t = TX_COINBASE then
       (st_get a st)\<lparr>balance := balance (st_get a st) + (if a = tx_to t then tx_amount t else 0)\<rparr>
     else
       \<lparr>balance = balance (st_get a st) - (if a = sender t \<and> tx_type t = TX_TRANSFER then tx_amount t else 0)
          + (if a = tx_to t \<and> tx_type t = TX_TRANSFER then tx_amount t else 0),
        nonce = nonce (st_get a st) + (if a = sender t then 1 else 0)\<rparr>)"
  using assms by (simp add: tx_effect_def ledger_simps)

subsection \<open>Supply\<close>

definition coin_supply :: "state \<Rightarrow> nat" where
  "coin_supply st = sum_list (map (\<lambda>e. unat (balance (snd e))) st)"

lemma supply_put:
  "smap_ok st \<Longrightarrow> coin_supply (smap_put a acct st) + unat (balance (st_get a st)) = coin_supply st + unat (balance acct)"
  using sm.total_put[of st "\<lambda>x. unat (balance x)" a acct]
  by (cases "smap_find st a") (simp_all add: coin_supply_def st_get_def smap_at_def account0_def)

lemma balance_le_supply: "smap_ok st \<Longrightarrow> unat (balance (st_get a st)) \<le> coin_supply st"
  using supply_put[of st a account0] by (simp add: account0_def)

lemma supply_upd:
  assumes "smap_ok st"
  shows "coin_supply (st_touch a st) = coin_supply st" "coin_supply (st_bump a st) = coin_supply st"
    and "coin_supply st + unat v < 2 ^ 64 \<Longrightarrow> coin_supply (st_credit a v st) = coin_supply st + unat v"
    and "v \<le> balance (st_get a st) \<Longrightarrow> coin_supply (st_debit a v st) = coin_supply st - unat v"
proof -
  let ?x = "st_get a st"
  show "coin_supply (st_touch a st) = coin_supply st" "coin_supply (st_bump a st) = coin_supply st"
    using supply_put[OF assms, of a ?x] supply_put[OF assms, of a "?x\<lparr>nonce := nonce ?x + 1\<rparr>"]
    by (simp_all add: st_defs)
  show "coin_supply (st_credit a v st) = coin_supply st + unat v" if "coin_supply st + unat v < 2 ^ 64"
  proof -
    have "unat (balance ?x + v) = unat (balance ?x) + unat v"
      using that balance_le_supply[OF assms, of a] by (intro unat_plus_no_wrap) simp
    then show ?thesis
      using supply_put[OF assms, of a "?x\<lparr>balance := balance ?x + v\<rparr>"] by (simp add: st_credit_def)
  qed
  show "coin_supply (st_debit a v st) = coin_supply st - unat v" if "v \<le> balance ?x"
  proof -
    have "unat (balance ?x - v) = unat (balance ?x) - unat v" using that by (rule unat_minus_no_wrap)
    moreover have "unat v \<le> unat (balance ?x)" using that by (simp add: word_le_nat_alt)
    ultimately show ?thesis
      using supply_put[OF assms, of a "?x\<lparr>balance := balance ?x - v\<rparr>"] by (simp add: st_debit_def)
  qed
qed

definition minted :: "tx \<Rightarrow> nat" where
  "minted t = (if tx_type t = TX_COINBASE then unat (tx_amount t) else 0)"

lemma supply_tx_effect:
  assumes "smap_ok st" and "coin_supply st + minted t < 2 ^ 64"
    and "tx_type t = TX_TRANSFER \<longrightarrow> tx_amount t \<le> balance (st_get (sender t) st)"
  shows "coin_supply (tx_effect t st) = coin_supply st + minted t"
proof (cases "tx_type t = TX_TRANSFER")
  case True
  let ?st1 = "st_touch (sender t) st" and ?v = "tx_amount t"
  have le: "?v \<le> balance (st_get (sender t) ?st1)" using assms True by (simp add: ledger_simps)
  have "unat ?v \<le> coin_supply st"
    using le balance_le_supply[of ?st1 "sender t"] assms(1) by (simp add: supply_upd word_le_nat_alt ledger_simps)
  then show ?thesis using True assms le
    by (simp add: tx_effect_def supply_upd minted_def txtype_defs)
next
  case False
  then show ?thesis using assms
    by (cases "tx_type t = TX_COINBASE") (simp_all add: tx_effect_def supply_upd minted_def)
qed

lemma two_balances_le_supply:
  assumes "smap_ok st" and "a \<noteq> b"
  shows "unat (balance (st_get a st)) + unat (balance (st_get b st)) \<le> coin_supply st"
proof -
  let ?st' = "smap_put a account0 st"
  have "st_get b ?st' = st_get b st" using assms by (simp add: st_get_def smap_at_put)
  then have "unat (balance (st_get b st)) \<le> coin_supply ?st'"
    using balance_le_supply[of ?st' b] assms(1) by (simp add: sm.ok_put)
  with supply_put[OF assms(1), of a account0] show ?thesis by (simp add: account0_def)
qed

subsection \<open>The abstract ledger\<close>

text \<open>Balances and nonces as plain numbers: what \<^verbatim>\<open>apply_tx\<close> promises to keep.\<close>

record aledger =
  abal :: "addr20 \<Rightarrow> nat"
  anonce :: "addr20 \<Rightarrow> nat"

definition abs_state :: "state \<Rightarrow> aledger" where
  "abs_state st = \<lparr>abal = (\<lambda>a. unat (balance (st_get a st))), anonce = (\<lambda>a. unat (nonce (st_get a st)))\<rparr>"

definition a_pay :: "addr20 \<Rightarrow> addr20 \<Rightarrow> nat \<Rightarrow> (addr20 \<Rightarrow> nat) \<Rightarrow> addr20 \<Rightarrow> nat" where
  "a_pay s d v bal = (let bal = bal(s := bal s - v) in bal(d := bal d + v))"

definition a_apply :: "tx \<Rightarrow> aledger \<Rightarrow> aledger option" where
  "a_apply t L =
     (let s = sender t; v = unat (tx_amount t) in
      if tx_type t = TX_COINBASE then Some (L\<lparr>abal := (abal L)(tx_to t := abal L (tx_to t) + v)\<rparr>)
      else if anonce L s \<noteq> unat (tx_nonce t) then None
      else if tx_type t = TX_TRANSFER \<and> abal L s < v then None
      else Some \<lparr>abal = (if tx_type t = TX_TRANSFER then a_pay s (tx_to t) v (abal L) else abal L),
                 anonce = (anonce L)(s := Suc (anonce L s))\<rparr>)"

text \<open>Every word of the account arithmetic stays below the wrap-around.\<close>

definition fits :: "tx \<Rightarrow> state \<Rightarrow> bool" where
  "fits t st \<longleftrightarrow> coin_supply st + minted t < 2 ^ 64 \<and> Suc (unat (nonce (st_get (sender t) st))) < 2 ^ 64"

lemma unat_balance_effect:
  assumes "smap_ok st" and sup: "coin_supply st + minted t < 2 ^ 64"
    and le: "tx_type t = TX_TRANSFER \<longrightarrow> tx_amount t \<le> balance (st_get (sender t) st)"
  shows "unat (balance (st_get a (tx_effect t st))) =
    (if tx_type t = TX_COINBASE then unat (balance (st_get a st)) + (if a = tx_to t then unat (tx_amount t) else 0)
     else if tx_type t = TX_TRANSFER then a_pay (sender t) (tx_to t) (unat (tx_amount t)) (\<lambda>a. unat (balance (st_get a st))) a
     else unat (balance (st_get a st)))"
proof -
  let ?b = "balance (st_get a st)" and ?s = "balance (st_get (sender t) st)" and ?v = "tx_amount t"
  consider (cb) "tx_type t = TX_COINBASE" | (tr) "tx_type t = TX_TRANSFER" "tx_type t \<noteq> TX_COINBASE"
    | (rec) "tx_type t \<noteq> TX_COINBASE" "tx_type t \<noteq> TX_TRANSFER"
    by (auto simp: txtype_defs)
  then show ?thesis
  proof cases
    case cb
    have "unat (?b + ?v) = unat ?b + unat ?v"
      using cb sup balance_le_supply[OF assms(1), of a] by (intro unat_plus_no_wrap) (simp add: minted_def)
    with cb show ?thesis using assms(1) by (auto simp: ledger_simps)
  next
    case tr
    with le have v: "?v \<le> ?s" "unat ?v \<le> unat ?s" by (simp_all add: word_le_nat_alt)
    have credit: "unat (?b + ?v) = unat ?b + unat ?v" if "a \<noteq> sender t"
      using two_balances_le_supply[OF assms(1) that] v(2) sup by (intro unat_plus_no_wrap) simp
    have again: "unat (?s - ?v + ?v) = unat ?s - unat ?v + unat ?v" using v(2) by simp
    show ?thesis using tr assms(1) credit again v
      by (auto simp: ledger_simps a_pay_def unat_minus_no_wrap)
  next
    case rec
    with assms(1) show ?thesis by (simp add: ledger_simps)
  qed
qed

lemma apply_tx_refines_abstract:
  assumes "smap_ok st" and "fits t st" and "tx_static_ok c t p height is_first"
  shows "a_apply t (abs_state st) =
    (case apply_tx c st t p height is_first of (None, st') \<Rightarrow> Some (abs_state st') | (Some _, _) \<Rightarrow> None)"
proof (cases "fst (apply_tx c st t p height is_first)")
  case None
  let ?le = "tx_type t = TX_TRANSFER \<longrightarrow> tx_amount t \<le> balance (st_get (sender t) st)"
  from None have cond: "tx_type t \<noteq> TX_COINBASE \<longrightarrow> nonce (st_get (sender t) st) = tx_nonce t" ?le
    using apply_tx_success_iff[OF assms(1), of c t p height is_first] by (auto simp: txtype_defs)
  have sup: "coin_supply st + minted t < 2 ^ 64" using assms(2) by (simp add: fits_def)
  have n: "unat (nonce (st_get (sender t) st) + 1) = Suc (unat (nonce (st_get (sender t) st)))"
    using assms(2) by (intro unat_Suc_no_wrap) (simp add: fits_def)
  have "abal (abs_state (tx_effect t st)) = (if tx_type t = TX_COINBASE then (abal (abs_state st))(tx_to t := abal (abs_state st) (tx_to t) + unat (tx_amount t))
      else if tx_type t = TX_TRANSFER then a_pay (sender t) (tx_to t) (unat (tx_amount t)) (abal (abs_state st)) else abal (abs_state st))"
    by (rule ext) (simp add: abs_state_def unat_balance_effect[OF assms(1) sup cond(2)])
  moreover have "anonce (abs_state (tx_effect t st)) = (if tx_type t = TX_COINBASE then anonce (abs_state st)
      else (anonce (abs_state st))(sender t := Suc (anonce (abs_state st) (sender t))))"
    by (rule ext) (simp add: abs_state_def ledger_simps assms(1) n)
  moreover have "a_apply t (abs_state st) = Some (abs_state (tx_effect t st))"
    using calculation cond
    by (simp add: a_apply_def Let_def abs_state_def word_le_nat_alt not_less txtype_defs)
  ultimately show ?thesis using None apply_tx_effect[OF None]
    by (simp add: case_prod_unfold)
next
  case (Some e)
  then have "\<not> (tx_type t \<noteq> TX_COINBASE \<longrightarrow> nonce (st_get (sender t) st) = tx_nonce t \<and>
      (tx_type t = TX_TRANSFER \<longrightarrow> tx_amount t \<le> balance (st_get (sender t) st)))"
    using apply_tx_success_iff[OF assms(1), of c t p height is_first] assms(3) by simp
  then have "a_apply t (abs_state st) = None"
    by (auto simp: a_apply_def Let_def abs_state_def word_le_nat_alt word_unat_eq_iff not_le)
  with Some show ?thesis by (simp add: case_prod_unfold)
qed

subsection \<open>Sequences of transactions\<close>

text \<open>\<open>runs c p h st ts\<close>: every transaction of \<open>ts\<close> succeeds in turn, the first at index \<open>i\<close>.\<close>

fun runs :: "'k cng \<Rightarrow> params \<Rightarrow> u64 \<Rightarrow> nat \<Rightarrow> state \<Rightarrow> tx list \<Rightarrow> bool" where
  "runs c p height i st [] \<longleftrightarrow> True"
| "runs c p height i st (t # ts) \<longleftrightarrow>
     fst (apply_tx c st t p height (i = 0)) = None \<and> runs c p height (Suc i) (tx_effect t st) ts"

lemma apply_txs_None_iff: "fst (apply_txs c p height i st ts) = None \<longleftrightarrow> runs c p height i st ts"
  by (induction ts arbitrary: i st)
    (auto simp: apply_tx_effect split: prod.splits option.splits, (metis apply_tx_effect fst_conv snd_conv)+)

lemma apply_txs_state: "runs c p height i st ts \<Longrightarrow> snd (apply_txs c p height i st ts) = fold tx_effect ts st"
  by (induction ts arbitrary: i st)
    (auto split: prod.splits option.splits, (metis apply_tx_effect fst_conv snd_conv)+)

lemma smap_ok_fold_effect [simp]: "smap_ok st \<Longrightarrow> smap_ok (fold tx_effect ts st)"
  by (induction ts arbitrary: st) simp_all

lemma runs_append:
  "runs c p height i st (ts @ us) \<longleftrightarrow>
     runs c p height i st ts \<and> runs c p height (i + length ts) (fold tx_effect ts st) us"
  by (induction ts arbitrary: i st) auto

lemma runs_static: "smap_ok st \<Longrightarrow> runs c p height i st ts \<Longrightarrow> j < length ts \<Longrightarrow> tx_static_ok c (ts ! j) p height (i + j = 0)"
proof (induction ts arbitrary: i st j)
  case (Cons t ts)
  from Cons.prems have t: "tx_static_ok c t p height (i = 0)" by (simp add: apply_tx_success_iff)
  show ?case
  proof (cases j)
    case (Suc k)
    with Cons.prems Cons.IH[of "tx_effect t st" "Suc i" k] show ?thesis by simp
  qed (use t in simp)
qed simp

text \<open>Only index 0 is a coinbase.\<close>

lemma runs_coinbase_iff:
  "smap_ok st \<Longrightarrow> runs c p height i st ts \<Longrightarrow> j < length ts \<Longrightarrow> tx_type (ts ! j) = TX_COINBASE \<longleftrightarrow> i + j = 0"
  using runs_static[of st c p height i ts j] by (auto simp: tx_static_ok_def split: if_splits)

lemma runs_supply:
  assumes "smap_ok st" "runs c p height i st ts" "coin_supply st + (\<Sum>t\<leftarrow>ts. minted t) < 2 ^ 64"
  shows "coin_supply (fold tx_effect ts st) = coin_supply st + (\<Sum>t\<leftarrow>ts. minted t)"
  using assms
proof (induction ts arbitrary: i st)
  case (Cons t ts)
  then have "coin_supply (tx_effect t st) = coin_supply st + minted t"
    by (intro supply_tx_effect) (auto simp: apply_tx_success_iff txtype_defs)
  with Cons.prems Cons.IH[of "tx_effect t st" "Suc i"] show ?case by simp
qed simp

text \<open>The transactions a given account has signed, in order.\<close>

definition user_txs :: "addr20 \<Rightarrow> tx list \<Rightarrow> tx list" where
  "user_txs a ts = filter (\<lambda>t. tx_type t \<noteq> TX_COINBASE \<and> sender t = a) ts"

definition counts_from :: "u64 \<Rightarrow> u64 list \<Rightarrow> bool" where
  "counts_from n xs \<longleftrightarrow> xs = map (\<lambda>i. n + of_nat i) [0..<length xs]"

lemma counts_from_Nil [simp]: "counts_from n []"
  by (simp add: counts_from_def)

lemma counts_from_Cons: "counts_from n (x # xs) \<longleftrightarrow> x = n \<and> counts_from (n + 1) xs"
proof -
  have "map (\<lambda>i. n + of_nat i) [0..<Suc k] = n # map (\<lambda>i. n + 1 + of_nat i) [0..<k]" for k
    by (simp add: upt_conv_Cons map_Suc_upt[symmetric] add.assoc del: upt_Suc)
  then show ?thesis by (auto simp: counts_from_def)
qed

lemma counts_from_append:
  "counts_from n (xs @ ys) \<longleftrightarrow> counts_from n xs \<and> counts_from (n + of_nat (length xs)) ys"
  by (induction xs arbitrary: n) (simp_all add: counts_from_Cons add.assoc)

lemma counts_from_distinct: "counts_from n xs \<Longrightarrow> length xs \<le> 2 ^ 64 \<Longrightarrow> distinct xs"
proof -
  assume c: "counts_from n xs" and len: "length xs \<le> 2 ^ 64"
  have "inj_on (\<lambda>i. n + (of_nat i :: u64)) {0..<length xs}"
  proof (rule inj_onI)
    fix i j assume "i \<in> {0..<length xs}" "j \<in> {0..<length xs}" "n + (of_nat i :: u64) = n + of_nat j"
    then have "unat (of_nat i :: u64) = unat (of_nat j :: u64)" "i < 2 ^ 64" "j < 2 ^ 64" using len by auto
    then show "i = j" by (simp add: unat_of_nat take_bit_nat_eq_self)
  qed
  then have "distinct (map (\<lambda>i. n + (of_nat i :: u64)) [0..<length xs])" by (simp add: distinct_map)
  with c show ?thesis by (simp add: counts_from_def)
qed

lemma runs_nonces:
  "smap_ok st \<Longrightarrow> runs c p height i st ts \<Longrightarrow>
     counts_from (nonce (st_get a st)) (map tx_nonce (user_txs a ts)) \<and>
     nonce (st_get a (fold tx_effect ts st)) = nonce (st_get a st) + of_nat (length (user_txs a ts))"
proof (induction ts arbitrary: i st)
  case (Cons t ts)
  have n: "tx_type t \<noteq> TX_COINBASE \<Longrightarrow> nonce (st_get (sender t) st) = tx_nonce t"
    using Cons.prems by (simp add: apply_tx_success_iff)
  have "nonce (st_get a (tx_effect t st)) =
      nonce (st_get a st) + (if tx_type t \<noteq> TX_COINBASE \<and> sender t = a then 1 else 0)"
    using Cons.prems(1) by (simp add: ledger_simps)
  with Cons.IH[of "tx_effect t st" "Suc i"] Cons.prems n show ?case
    by (auto simp: user_txs_def counts_from_Cons add.assoc)
qed (simp add: user_txs_def)

end
