(* ===== verification/Sqlite.thy ===== *)
theory Sqlite
  imports Common
begin

text \<open>
  \<^verbatim>\<open>src/sqlite_shim.h\<close>: the thin layer over \<^verbatim>\<open>winsqlite3.dll\<close>.

  The engine itself is not part of the repository.  It is the record \<open>'d sqlite\<close>, an
  argument of every definition that uses it: \<open>'d\<close> is the database behind a handle, and the
  fields are \<^verbatim>\<open>sqlite3_exec\<close> (did it return \<^verbatim>\<open>SQLITE_OK\<close>, and the database after), whether
  \<^verbatim>\<open>sqlite3_prepare_v2\<close> yields a statement, one \<^verbatim>\<open>sqlite3_step\<close> of a statement that returns no
  rows, and the blobs of column 0 that stepping a query to its end yields (\<open>None\<close> for a
  null pointer).  \<open>sq_load\<close> says which functions the library must export, \<open>db_open\<close> opens a database.
\<close>

datatype sqlval = SNull | SInt int | SText string | SBlob bytes

record 'd sqlite =
  sq_exec :: "string \<Rightarrow> 'd \<Rightarrow> bool \<times> 'd"
  sq_prepare :: "string \<Rightarrow> 'd \<Rightarrow> bool"
  sq_step :: "string \<Rightarrow> (nat \<Rightarrow> sqlval) \<Rightarrow> 'd \<Rightarrow> 'd"
  sq_blobs :: "string \<Rightarrow> 'd \<Rightarrow> bytes option list"

text \<open>
  \<^verbatim>\<open>sq::load\<close>: the library is found (\<open>Some\<close>, with the names it exports) and exports every function the shim
  uses; \<^verbatim>\<open>sqlite3_busy_timeout\<close> may be missing.  \<^verbatim>\<open>Db::open\<close> opens or creates a database file.
\<close>

definition sq_required :: "string list" where
  "sq_required = [''sqlite3_open_v2'', ''sqlite3_close'', ''sqlite3_exec'', ''sqlite3_prepare_v2'', ''sqlite3_step'', ''sqlite3_finalize'',
     ''sqlite3_bind_int64'', ''sqlite3_bind_text'', ''sqlite3_bind_blob'', ''sqlite3_column_int64'',
     ''sqlite3_column_text'', ''sqlite3_column_blob'', ''sqlite3_column_bytes'', ''sqlite3_errmsg'']"

definition sq_load :: "(string \<Rightarrow> bool) option \<Rightarrow> bool" where
  "sq_load dll = (case dll of None \<Rightarrow> False | Some gp \<Rightarrow> list_all gp sq_required)"

definition CL_SQLITE_OPEN_READWRITE :: int where
  "CL_SQLITE_OPEN_READWRITE = 0x02"

definition CL_SQLITE_OPEN_CREATE :: int where
  "CL_SQLITE_OPEN_CREATE = 0x04"

definition db_open :: "(string \<Rightarrow> bool) option \<Rightarrow> (string \<Rightarrow> int \<Rightarrow> 'd option) \<Rightarrow> string \<Rightarrow> 'd option" where
  "db_open dll open_v2 path =
     (if \<not> sq_load dll then None else open_v2 path (CL_SQLITE_OPEN_READWRITE OR CL_SQLITE_OPEN_CREATE))"

text \<open>\<^verbatim>\<open>Db::St\<close>: the SQL and the parameters bound so far.\<close>

record stmt =
  st_sql :: string
  st_param :: "nat \<Rightarrow> sqlval"

definition St :: "'d sqlite \<Rightarrow> 'd \<Rightarrow> string \<Rightarrow> stmt option" where
  "St sq d sql = (if sq_prepare sq sql d then Some \<lparr>st_sql = sql, st_param = (\<lambda>_. SNull)\<rparr> else None)"

definition bind_i64 :: "nat \<Rightarrow> int \<Rightarrow> stmt \<Rightarrow> stmt" where
  "bind_i64 i v s = s\<lparr>st_param := (st_param s)(i := SInt v)\<rparr>"

definition bind_text :: "nat \<Rightarrow> string \<Rightarrow> stmt \<Rightarrow> stmt" where
  "bind_text i v s = s\<lparr>st_param := (st_param s)(i := SText v)\<rparr>"

text \<open>
  For an empty vector \<^verbatim>\<open>v.data()\<close> may be null, which SQLite binds as NULL; \<open>col_blob\<close> reads both as the empty string, and the
  only column that can be empty, \<^verbatim>\<open>payload\<close> of table \<^verbatim>\<open>txs\<close>, is never read.
\<close>

definition bind_blob :: "nat \<Rightarrow> bytes \<Rightarrow> stmt \<Rightarrow> stmt" where
  "bind_blob i v s = s\<lparr>st_param := (st_param s)(i := SBlob v)\<rparr>"

definition stmt_step :: "'d sqlite \<Rightarrow> stmt \<Rightarrow> 'd \<Rightarrow> 'd" where
  "stmt_step sq s d = sq_step sq (st_sql s) (st_param s) d"

definition db_exec :: "'d sqlite \<Rightarrow> string \<Rightarrow> 'd \<Rightarrow> bool \<times> 'd" where
  "db_exec sq sql d = sq_exec sq sql d"

definition col_blob :: "bytes option \<Rightarrow> bytes" where
  "col_blob c = (case c of Some b \<Rightarrow> b | None \<Rightarrow> [])"

lemmas stmt_defs = bind_i64_def bind_text_def bind_blob_def stmt_step_def

end
