(* ===== verification/Chain.thy ===== *)
theory Chain
  imports Ledger Sqlite
begin

text \<open>
  \<^verbatim>\<open>src/core.h\<close>, class \<^verbatim>\<open>Chain\<close>: validation and connection of blocks, replacement of the chain
  by one with more work, loading from the database.

  \<open>chain\<close> holds the in-memory fields; \<open>'d pchain\<close> adds the database handle and the
  \<^verbatim>\<open>persisting\<close> flag.  \<open>ext\<close> bundles the two libraries outside the repository.  The clock is
  an argument: \<^verbatim>\<open>now_s()\<close> is read once per connected block, so loops take the sequence of
  readings \<open>clk\<close>.

  The invariant and the lemmas about these operations are in \<open>ChainInv\<close>, \<open>ChainFacts\<close> and \<open>ChainDb\<close>.
\<close>

record ('k, 'd) ext =
  ecng :: "'k cng"
  esq :: "'d sqlite"

record chain =
  cparams :: params
  blocks :: "block list"
  hashes :: "h256 list"
  cstate :: state
  txidx :: "(h256, u32 \<times> u32) smap"
  work :: u64

record 'd pchain = chain +
  cdb :: "'d option"
  persisting :: bool

datatype chain_error =
    InvalidGenesis
  | BadVersion
  | WrongNetwork
  | BadHeight
  | PrevHashMismatch
  | BadDifficulty
  | InsufficientPow
  | TimestampTooFar
  | BadTxCount
  | MerkleMismatch
  | TxError nat tx_error

datatype replace_error = EmptyCandidate | CandidateError u64 chain_error | NoMoreWork

datatype init_error = SchemaError | LoadQueryFailed | GenesisError chain_error

definition make_genesis :: "params \<Rightarrow> block" where
  "make_genesis p = \<lparr>hdr = header_default\<lparr>h_version := CL_VERSION, h_net_id := p_net_id p, h_height := 0,
     h_time := p_genesis_time p, h_bits := 0, h_nonce := 0, h_merkle := replicate 32 0\<rparr>, txs = []\<rparr>"

definition new_chain :: "params \<Rightarrow> 'd pchain" where
  "new_chain p = \<lparr>cparams = p, blocks = [], hashes = [], cstate = [], txidx = [], work = 0,
     cdb = None, persisting = True\<rparr>"

definition chain_height :: "('d, 'z) pchain_scheme \<Rightarrow> u64" where
  "chain_height ch = (if blocks ch = [] then 0 else h_height (hdr (last (blocks ch))))"

definition tip_hash :: "('d, 'z) pchain_scheme \<Rightarrow> h256" where
  "tip_hash ch = last (hashes ch)"

definition has_block :: "('d, 'z) pchain_scheme \<Rightarrow> h256 \<Rightarrow> bool" where
  "has_block ch h \<longleftrightarrow> (\<exists>x \<in> set (hashes ch). x = h)"

subsection \<open>Database writes\<close>

definition sql_insert_block :: string where
  "sql_insert_block = ''INSERT OR REPLACE INTO blocks(height,hash,prev,time,ntx,raw) VALUES(?,?,?,?,?,?)''"

definition sql_insert_tx :: string where
  "sql_insert_tx = ''INSERT INTO txs(txid,height,idx,type,from_addr,to_addr,amount,nonce,payload) '' @
     ''VALUES(?,?,?,?,?,?,?,?,?)''"

definition sql_delete_blocks :: string where
  "sql_delete_blocks = ''DELETE FROM blocks WHERE height>=?''"

definition sql_delete_txs :: string where
  "sql_delete_txs = ''DELETE FROM txs WHERE height>=?''"

definition sql_select_raw :: string where
  "sql_select_raw = ''SELECT raw FROM blocks ORDER BY height''"

definition db_insert_tx :: "'d sqlite \<Rightarrow> block \<Rightarrow> nat \<Rightarrow> 'd \<Rightarrow> 'd" where
  "db_insert_tx sq b i d =
     (let t = txs b ! i in
      case St sq d sql_insert_tx of None \<Rightarrow> d
      | Some s \<Rightarrow>
          let s = bind_text 1 (hexs (txid t)) s; s = bind_i64 2 (sint (h_height (hdr b))) s;
              s = bind_i64 3 (int i) s; s = bind_i64 4 (uint (tx_type t)) s;
              s = bind_text 5 (if tx_type t = TX_COINBASE then ''coinbase'' else hexs (addr_of (tx_from t))) s;
              s = bind_text 6 (hexs (tx_to t)) s; s = bind_i64 7 (sint (tx_amount t)) s;
              s = bind_i64 8 (sint (tx_nonce t)) s; s = bind_blob 9 (tx_payload t) s
          in stmt_step sq s d)"

definition db_insert :: "'d sqlite \<Rightarrow> block \<Rightarrow> 'd \<Rightarrow> 'd" where
  "db_insert sq b d =
     (let d = (case St sq d sql_insert_block of None \<Rightarrow> d
        | Some s \<Rightarrow>
            let s = bind_i64 1 (sint (h_height (hdr b))) s; s = bind_text 2 (hexs (header_hash (hdr b))) s;
                s = bind_text 3 (hexs (h_prev (hdr b))) s; s = bind_i64 4 (sint (h_time (hdr b))) s;
                s = bind_i64 5 (int (length (txs b))) s; s = bind_blob 6 (block_serialize b) s
            in stmt_step sq s d)
      in fold (db_insert_tx sq b) [0..<length (txs b)] d)"

definition db_delete_from :: "'d sqlite \<Rightarrow> string \<Rightarrow> u64 \<Rightarrow> 'd \<Rightarrow> 'd" where
  "db_delete_from sq sql h d =
     (case St sq d sql of None \<Rightarrow> d | Some s \<Rightarrow> stmt_step sq (bind_i64 1 (sint h) s) d)"

definition db_truncate_from :: "'d sqlite \<Rightarrow> u64 \<Rightarrow> 'd \<Rightarrow> 'd" where
  "db_truncate_from sq h d = db_delete_from sq sql_delete_txs h (db_delete_from sq sql_delete_blocks h d)"

subsection \<open>Connecting a block\<close>

definition append_block :: "('k, 'd) ext \<Rightarrow> block \<Rightarrow> u64 \<Rightarrow> 'd pchain \<Rightarrow> 'd pchain" where
  "append_block E b w ch =
     (let bh = header_hash (hdr b);
          idx = fold (\<lambda>i m. smap_put (txid (txs b ! i)) (ucast (h_height (hdr b)), of_nat i) m)
                  [0..<length (txs b)] (txidx ch);
          ch = ch\<lparr>txidx := idx, blocks := blocks ch @ [b], hashes := hashes ch @ [bh], work := work ch + w\<rparr>
      in case cdb ch of
           Some d \<Rightarrow> if persisting ch then ch\<lparr>cdb := Some (db_insert (esq E) b d)\<rparr> else ch
         | None \<Rightarrow> ch)"

definition connect_block :: "('k, 'd) ext \<Rightarrow> u64 \<Rightarrow> block \<Rightarrow> 'd pchain \<Rightarrow> chain_error option \<times> 'd pchain" where
  "connect_block E now b ch =
     (if blocks ch = [] then
        (let g = make_genesis (cparams ch) in
         if header_hash (hdr b) \<noteq> header_hash (hdr g) \<or> txs b \<noteq> [] then (Some InvalidGenesis, ch)
         else (None, append_block E b 1 ch))
      else
        (let prev = hdr (last (blocks ch)); p = cparams ch; bh = header_hash (hdr b) in
         if h_version (hdr b) \<noteq> CL_VERSION then (Some BadVersion, ch)
         else if h_net_id (hdr b) \<noteq> p_net_id p then (Some WrongNetwork, ch)
         else if h_height (hdr b) \<noteq> h_height prev + 1 then (Some BadHeight, ch)
         else if h_prev (hdr b) \<noteq> tip_hash ch then (Some PrevHashMismatch, ch)
         else if h_bits (hdr b) \<noteq> p_bits p then (Some BadDifficulty, ch)
         else if \<not> pow_ok bh (h_bits (hdr b)) then (Some InsufficientPow, ch)
         else if h_time (hdr b) > now + MAX_TIME_SKEW_S then (Some TimestampTooFar, ch)
         else if txs b = [] \<or> length (txs b) > MAX_BLOCK_TXS then (Some BadTxCount, ch)
         else if merkle_root (map txid (txs b)) \<noteq> h_merkle (hdr b) then (Some MerkleMismatch, ch)
         else (case apply_txs (ecng E) p (h_height (hdr b)) 0 (cstate ch) (txs b) of
             (Some (i, e), _) \<Rightarrow> (Some (TxError i e), ch)
           | (None, tmp) \<Rightarrow> (None, append_block E b (work_of (h_bits (hdr b))) (ch\<lparr>cstate := tmp\<rparr>)))))"

text \<open>Connecting the blocks of a list in turn until one fails; \<open>clk i\<close> is the clock at the \<open>i\<close>-th.\<close>

fun connect_all :: "('k, 'd) ext \<Rightarrow> (nat \<Rightarrow> u64) \<Rightarrow> nat \<Rightarrow> block list \<Rightarrow> 'd pchain
    \<Rightarrow> (block \<times> chain_error) option \<times> nat \<times> 'd pchain" where
  "connect_all E clk i [] ch = (None, i, ch)"
| "connect_all E clk i (b # bs) ch =
     (case connect_block E (clk i) b ch of
        (Some e, ch) \<Rightarrow> (Some (b, e), i, ch)
      | (None, ch) \<Rightarrow> connect_all E clk (Suc i) bs ch)"

subsection \<open>Fork choice\<close>

fun common_prefix :: "h256 list \<Rightarrow> h256 list \<Rightarrow> nat" where
  "common_prefix (x # xs) (y # ys) = (if x = y then Suc (common_prefix xs ys) else 0)"
| "common_prefix _ _ = 0"

definition try_replace :: "('k, 'd) ext \<Rightarrow> (nat \<Rightarrow> u64) \<Rightarrow> block list \<Rightarrow> 'd pchain
    \<Rightarrow> (replace_error + nat) \<times> 'd pchain" where
  "try_replace E clk cand ch =
     (if cand = [] then (Inl EmptyCandidate, ch)
      else case connect_all E clk 0 cand ((new_chain (cparams ch))\<lparr>persisting := False\<rparr>) of
        (Some (b, e), _, _) \<Rightarrow> (Inl (CandidateError (h_height (hdr b)) e), ch)
      | (None, _, tmp) \<Rightarrow>
          if work tmp \<le> work ch then (Inl NoMoreWork, ch)
          else
            (let fork = common_prefix (hashes ch) (hashes tmp);
                 ch = ch\<lparr>blocks := blocks tmp, hashes := hashes tmp, cstate := cstate tmp,
                         txidx := txidx tmp, work := work tmp\<rparr>;
                 ch = (case cdb ch of
                     Some d \<Rightarrow>
                       if persisting ch then
                         (let d = snd (db_exec (esq E) ''BEGIN IMMEDIATE'' d);
                              d = db_truncate_from (esq E) (of_nat fork) d;
                              d = fold (\<lambda>h d. db_insert (esq E) (blocks ch ! h) d) [fork..<length (blocks ch)] d;
                              d = snd (db_exec (esq E) ''COMMIT'' d)
                          in ch\<lparr>cdb := Some d\<rparr>)
                       else ch
                   | None \<Rightarrow> ch)
             in (Inr fork, ch)))"

subsection \<open>Loading\<close>

definition sql_create_blocks :: string where
  "sql_create_blocks = ''CREATE TABLE IF NOT EXISTS blocks('' @
     ''height INTEGER PRIMARY KEY, hash TEXT, prev TEXT, time INTEGER,'' @ ''ntx INTEGER, raw BLOB)''"

definition sql_create_txs :: string where
  "sql_create_txs = ''CREATE TABLE IF NOT EXISTS txs('' @
     ''txid TEXT, height INTEGER, idx INTEGER, type INTEGER,'' @
     ''from_addr TEXT, to_addr TEXT, amount INTEGER, nonce INTEGER, payload BLOB)''"

text \<open>\<^verbatim>\<open>!exec(a) || !exec(b) || ..\<close>: statements run until one fails.\<close>

fun exec_all :: "'d sqlite \<Rightarrow> string list \<Rightarrow> 'd \<Rightarrow> bool \<times> 'd" where
  "exec_all sq [] d = (True, d)"
| "exec_all sq (s # ss) d = (case db_exec sq s d of (True, d) \<Rightarrow> exec_all sq ss d | (False, d) \<Rightarrow> (False, d))"

definition init_schema :: "string list" where
  "init_schema = [''PRAGMA journal_mode=WAL'', ''PRAGMA synchronous=NORMAL'', sql_create_blocks, sql_create_txs]"

text \<open>The load loop: parse and connect each row, stopping at the first that fails; counts the good ones.\<close>

fun load_rows :: "('k, 'd) ext \<Rightarrow> (nat \<Rightarrow> u64) \<Rightarrow> nat \<Rightarrow> bytes list \<Rightarrow> 'd pchain \<Rightarrow> nat \<times> 'd pchain" where
  "load_rows E clk good [] ch = (good, ch)"
| "load_rows E clk good (raw # raws) ch =
     (case block_parse raw of None \<Rightarrow> (good, ch)
      | Some b \<Rightarrow>
          (case connect_block E (clk good) b ch of
             (Some _, ch) \<Rightarrow> (good, ch)
           | (None, ch) \<Rightarrow> load_rows E clk (Suc good) raws ch))"

definition init_load :: "('k, 'd) ext \<Rightarrow> (nat \<Rightarrow> u64) \<Rightarrow> 'd \<Rightarrow> 'd pchain \<Rightarrow> init_error option \<times> 'd pchain" where
  "init_load E clk d ch =
     (case exec_all (esq E) init_schema d of
        (False, d) \<Rightarrow> (Some SchemaError, ch\<lparr>cdb := Some d\<rparr>)
      | (True, d) \<Rightarrow>
          if St (esq E) d sql_select_raw = None then (Some LoadQueryFailed, ch\<lparr>cdb := Some d\<rparr>)
          else
            (let raws = map col_blob (sq_blobs (esq E) sql_select_raw d);
                 ch = ch\<lparr>cdb := Some d, persisting := False\<rparr>
             in case load_rows E clk 0 raws ch of (good, ch) \<Rightarrow>
               (let ch = ch\<lparr>persisting := True\<rparr> in
                if good < length raws then
                  (let d = snd (db_exec (esq E) ''BEGIN IMMEDIATE'' d);
                       d = db_truncate_from (esq E) (of_nat good) d;
                       d = snd (db_exec (esq E) ''COMMIT'' d)
                   in (None, ch\<lparr>cdb := Some d\<rparr>))
                else (None, ch))))"

definition chain_init :: "('k, 'd) ext \<Rightarrow> (nat \<Rightarrow> u64) \<Rightarrow> u64 \<Rightarrow> 'd option \<Rightarrow> 'd pchain \<Rightarrow> init_error option \<times> 'd pchain" where
  "chain_init E clk now database ch =
     (case (case database of Some d \<Rightarrow> init_load E clk d ch | None \<Rightarrow> (None, ch\<lparr>cdb := None\<rparr>)) of
        (Some e, ch) \<Rightarrow> (Some e, ch)
      | (None, ch) \<Rightarrow>
          if blocks ch = [] then
            (case connect_block E now (make_genesis (cparams ch)) ch of
               (Some e, ch) \<Rightarrow> (Some (GenesisError e), ch)
             | (None, ch) \<Rightarrow> (None, ch))
          else (None, ch))"

end
