(* ===== verification/ChainInv.thy ===== *)
theory ChainInv
  imports Chain
begin

text \<open>
  The consensus rules of \<^verbatim>\<open>Chain::connect_block\<close> as a specification, and the invariant of the
  class.

  \<open>valid_chain\<close> says which lists of blocks are chains, with no cache and no clock: the state a
  block is checked against is the replay of every earlier transaction.  \<open>chain_ok\<close> says that
  the cached fields of a \<open>chain\<close> are what its blocks determine.  \<open>connect_block\<close> accepts
  exactly the extensions that \<open>valid_chain\<close> allows and that are not from the future; every
  operation of the class preserves \<open>chain_ok\<close>.
\<close>

subsection \<open>Values the C++ types allow\<close>

text \<open>\<^verbatim>\<open>std::array\<close> fields have their declared length; nothing else is promised by the types.\<close>

definition tx_arrays :: "tx \<Rightarrow> bool" where
  "tx_arrays t \<longleftrightarrow> length (tx_from t) = 64 \<and> length (tx_to t) = 20 \<and> length (tx_sig t) = 64"

definition block_arrays :: "block \<Rightarrow> bool" where
  "block_arrays b \<longleftrightarrow> header_ok (hdr b) \<and> list_all tx_arrays (txs b)"

lemma block_ok_arrays: "block_ok b \<Longrightarrow> block_arrays b"
  by (auto simp: block_ok_def block_arrays_def tx_ok_def tx_arrays_def list_all_iff)

lemma genesis_arrays: "block_arrays (make_genesis p)" "header_ok (hdr (make_genesis p))" "txs (make_genesis p) = []"
  by (simp_all add: make_genesis_def block_arrays_def header_ok_def header_default_def)

subsection \<open>The consensus rules\<close>

definition all_txs :: "block list \<Rightarrow> tx list" where
  "all_txs bs = concat (map txs bs)"

definition replay :: "block list \<Rightarrow> state" where
  "replay bs = fold tx_effect (all_txs bs) []"

definition genesis_ok :: "params \<Rightarrow> block \<Rightarrow> bool" where
  "genesis_ok p b \<longleftrightarrow> header_hash (hdr b) = header_hash (hdr (make_genesis p)) \<and> txs b = []"

definition extends_ok :: "'k cng \<Rightarrow> params \<Rightarrow> block list \<Rightarrow> block \<Rightarrow> bool" where
  "extends_ok c p bs b \<longleftrightarrow>
     h_version (hdr b) = CL_VERSION \<and> h_net_id (hdr b) = p_net_id p \<and>
     h_height (hdr b) = h_height (hdr (last bs)) + 1 \<and> h_prev (hdr b) = header_hash (hdr (last bs)) \<and>
     h_bits (hdr b) = p_bits p \<and> pow_ok (header_hash (hdr b)) (p_bits p) \<and>
     txs b \<noteq> [] \<and> length (txs b) \<le> MAX_BLOCK_TXS \<and>
     h_merkle (hdr b) = merkle_root (map txid (txs b)) \<and>
     runs c p (h_height (hdr b)) 0 (replay bs) (txs b)"

inductive valid_chain :: "'k cng \<Rightarrow> params \<Rightarrow> block list \<Rightarrow> bool" for c p where
  empty: "valid_chain c p []"
| genesis: "genesis_ok p b \<Longrightarrow> block_arrays b \<Longrightarrow> valid_chain c p [b]"
| extend: "valid_chain c p bs \<Longrightarrow> bs \<noteq> [] \<Longrightarrow> extends_ok c p bs b \<Longrightarrow> block_arrays b \<Longrightarrow> valid_chain c p (bs @ [b])"

inductive_cases valid_chain_ConsE: "valid_chain c p (b # bs)"
inductive_simps valid_chain_snoc_simps: "valid_chain c p (bs @ [b])"

lemma all_txs_simps [simp]: "all_txs [] = []" "all_txs (bs @ cs) = all_txs bs @ all_txs cs" "all_txs (b # bs) = txs b @ all_txs bs"
  by (simp_all add: all_txs_def)

lemma smap_ok_replay [simp]: "smap_ok (replay bs)"
  by (simp add: replay_def)

lemma replay_snoc: "replay (bs @ [b]) = fold tx_effect (txs b) (replay bs)"
  by (simp add: replay_def)

lemma valid_chain_snoc:
  "valid_chain c p (bs @ [b]) \<longleftrightarrow> valid_chain c p bs \<and> block_arrays b \<and>
     (if bs = [] then genesis_ok p b else extends_ok c p bs b)"
  by (subst valid_chain_snoc_simps) (auto intro: valid_chain.intros)

lemma valid_chain_prefix: "valid_chain c p (bs @ cs) \<Longrightarrow> valid_chain c p bs"
  by (induction cs rule: rev_induct) (simp_all add: valid_chain_snoc flip: append_assoc)

lemma valid_chain_take: "valid_chain c p bs \<Longrightarrow> valid_chain c p (take n bs)"
  by (metis append_take_drop_id valid_chain_prefix)

lemma valid_chain_hd: "valid_chain c p bs \<Longrightarrow> bs \<noteq> [] \<Longrightarrow> genesis_ok p (bs ! 0) \<and> block_arrays (bs ! 0)"
  by (induction bs rule: rev_induct) (auto simp: valid_chain_snoc nth_append split: if_splits)

lemma valid_chain_nth:
  assumes "valid_chain c p bs" "Suc i < length bs"
  shows "extends_ok c p (take (Suc i) bs) (bs ! Suc i)" "block_arrays (bs ! Suc i)"
proof -
  have "valid_chain c p (take (Suc i) bs @ [bs ! Suc i])"
    using valid_chain_take[OF assms(1), of "Suc (Suc i)"] assms(2) by (simp add: take_Suc_conv_app_nth)
  then show "extends_ok c p (take (Suc i) bs) (bs ! Suc i)" "block_arrays (bs ! Suc i)"
    using assms(2) by (auto simp: valid_chain_snoc split: if_splits)
qed

lemma valid_chain_arrays: "valid_chain c p bs \<Longrightarrow> b \<in> set bs \<Longrightarrow> block_arrays b"
  by (induction rule: valid_chain.induct) auto

lemma valid_chain_links:
  assumes "valid_chain c p bs" "Suc i < length bs"
  shows "h_prev (hdr (bs ! Suc i)) = header_hash (hdr (bs ! i))"
    "h_height (hdr (bs ! Suc i)) = h_height (hdr (bs ! i)) + 1"
proof -
  have "last (take (Suc i) bs) = bs ! i" using assms(2) by (simp add: take_Suc_conv_app_nth)
  with valid_chain_nth(1)[OF assms] show "h_prev (hdr (bs ! Suc i)) = header_hash (hdr (bs ! i))"
      "h_height (hdr (bs ! Suc i)) = h_height (hdr (bs ! i)) + 1"
    by (simp_all add: extends_ok_def)
qed

lemma valid_chain_height:
  "valid_chain c p bs \<Longrightarrow> i < length bs \<Longrightarrow> h_height (hdr (bs ! i)) = h_height (hdr (bs ! 0)) + of_nat i"
  by (induction i) (simp_all add: valid_chain_links add.assoc)

subsection \<open>What the cached fields must be\<close>

definition index_block :: "block \<Rightarrow> (h256, u32 \<times> u32) smap \<Rightarrow> (h256, u32 \<times> u32) smap" where
  "index_block b m = fold (\<lambda>i m. smap_put (txid (txs b ! i)) (ucast (h_height (hdr b)), of_nat i) m)
     [0..<length (txs b)] m"

definition block_work :: "block \<Rightarrow> u64" where
  "block_work b = work_of (h_bits (hdr b))"

definition chain_work :: "block list \<Rightarrow> u64" where
  "chain_work bs = (case bs of [] \<Rightarrow> 0 | _ # bs' \<Rightarrow> 1 + sum_list (map block_work bs'))"

definition chain_ok :: "'k cng \<Rightarrow> 'd pchain \<Rightarrow> bool" where
  "chain_ok c ch \<longleftrightarrow>
     valid_chain c (cparams ch) (blocks ch) \<and>
     hashes ch = map (\<lambda>b. header_hash (hdr b)) (blocks ch) \<and>
     cstate ch = replay (blocks ch) \<and>
     txidx ch = fold index_block (blocks ch) [] \<and>
     work ch = chain_work (blocks ch)"

lemma chain_work_snoc: "chain_work (bs @ [b]) = (if bs = [] then 1 else chain_work bs + block_work b)"
  by (cases bs) (simp_all add: chain_work_def add.assoc)

lemma append_block_fields [chain_simps]:
  "blocks (append_block E b w ch) = blocks ch @ [b]"
  "hashes (append_block E b w ch) = hashes ch @ [header_hash (hdr b)]"
  "cstate (append_block E b w ch) = cstate ch"
  "txidx (append_block E b w ch) = index_block b (txidx ch)"
  "work (append_block E b w ch) = work ch + w"
  "cparams (append_block E b w ch) = cparams ch"
  "persisting (append_block E b w ch) = persisting ch"
  "cdb (append_block E b w ch) = (if persisting ch then map_option (db_insert (esq E) b) (cdb ch) else cdb ch)"
  by (simp_all add: append_block_def Let_def index_block_def split: option.split)

lemma chain_ok_tip:
  "chain_ok c ch \<Longrightarrow> blocks ch \<noteq> [] \<Longrightarrow> tip_hash ch = header_hash (hdr (last (blocks ch)))"
  by (simp add: chain_ok_def tip_hash_def last_map)

lemma new_chain_fields [simp]:
  "cparams (new_chain p) = p" "blocks (new_chain p) = []" "hashes (new_chain p) = []" "cdb (new_chain p) = None"
  by (simp_all add: new_chain_def)

lemma chain_ok_new [simp]: "chain_ok c (new_chain p)" "chain_ok c ((new_chain p)\<lparr>persisting := pe\<rparr>)"
  by (simp_all add: chain_ok_def new_chain_def valid_chain.empty replay_def chain_work_def)

lemma chain_ok_db [simp]:
  "chain_ok c (ch\<lparr>cdb := d\<rparr>) = chain_ok c ch" "chain_ok c (ch\<lparr>persisting := q\<rparr>) = chain_ok c ch"
  by (simp_all add: chain_ok_def)

subsection \<open>When a block is accepted\<close>

definition clock_ok :: "u64 \<Rightarrow> block \<Rightarrow> bool" where
  "clock_ok now b \<longleftrightarrow> h_time (hdr b) \<le> now + MAX_TIME_SKEW_S"

definition accepts :: "('k, 'd) ext \<Rightarrow> u64 \<Rightarrow> 'd pchain \<Rightarrow> block \<Rightarrow> bool" where
  "accepts E now ch b \<longleftrightarrow>
     (if blocks ch = [] then genesis_ok (cparams ch) b
      else extends_ok (ecng E) (cparams ch) (blocks ch) b \<and> clock_ok now b)"

definition connected :: "('k, 'd) ext \<Rightarrow> block \<Rightarrow> 'd pchain \<Rightarrow> 'd pchain" where
  "connected E b ch =
     append_block E b (if blocks ch = [] then 1 else block_work b) (ch\<lparr>cstate := replay (blocks ch @ [b])\<rparr>)"

lemma connect_block_err: "fst (connect_block E now b ch) = Some e \<Longrightarrow> snd (connect_block E now b ch) = ch"
  by (auto simp: connect_block_def Let_def split: if_splits prod.splits option.splits)

lemma connect_block_ok_iff:
  assumes "chain_ok (ecng E) ch"
  shows "fst (connect_block E now b ch) = None \<longleftrightarrow> accepts E now ch b"
proof (cases "blocks ch = []")
  case True
  then show ?thesis by (auto simp: connect_block_def accepts_def genesis_ok_def Let_def)
next
  case False
  let ?a = "apply_txs (ecng E) (cparams ch) (h_height (hdr b)) 0 (cstate ch) (txs b)"
  have "fst ?a = None \<longleftrightarrow> runs (ecng E) (cparams ch) (h_height (hdr b)) 0 (replay (blocks ch)) (txs b)"
    using assms by (simp add: apply_txs_None_iff chain_ok_def)
  with False chain_ok_tip[OF assms False] show ?thesis
    by (cases ?a; cases "fst ?a") (auto simp: connect_block_def accepts_def extends_ok_def clock_ok_def Let_def not_less)
qed

lemma connect_block_ok:
  assumes "chain_ok (ecng E) ch" "accepts E now ch b"
  shows "connect_block E now b ch = (None, connected E b ch)"
proof (cases "blocks ch = []")
  case True
  moreover from this assms have "ch = ch\<lparr>cstate := replay [b]\<rparr>"
    by (simp add: accepts_def genesis_ok_def chain_ok_def replay_def)
  ultimately show ?thesis using assms(2)
    by (simp add: connect_block_def accepts_def genesis_ok_def connected_def Let_def)
next
  case False
  let ?a = "apply_txs (ecng E) (cparams ch) (h_height (hdr b)) 0 (cstate ch) (txs b)"
  have r: "runs (ecng E) (cparams ch) (h_height (hdr b)) 0 (cstate ch) (txs b)"
    using assms False unfolding accepts_def extends_ok_def chain_ok_def by metis
  then have "?a = (None, replay (blocks ch @ [b]))"
    using assms(1) apply_txs_None_iff[of "ecng E" "cparams ch" "h_height (hdr b)" 0 "cstate ch" "txs b"]
    by (simp add: prod_eq_iff apply_txs_state replay_snoc chain_ok_def)
  with False assms chain_ok_tip[OF assms(1) False] show ?thesis
    by (simp add: connect_block_def accepts_def extends_ok_def clock_ok_def connected_def block_work_def Let_def not_less)
qed

lemma connected_fields [chain_simps]:
  "blocks (connected E b ch) = blocks ch @ [b]" "cparams (connected E b ch) = cparams ch"
  "persisting (connected E b ch) = persisting ch"
  "cdb (connected E b ch) = (if persisting ch then map_option (db_insert (esq E) b) (cdb ch) else cdb ch)"
  by (simp_all add: connected_def chain_simps)

lemma chain_ok_connected:
  assumes "chain_ok (ecng E) ch" "accepts E now ch b" "block_arrays b"
  shows "chain_ok (ecng E) (connected E b ch)"
  using assms unfolding chain_ok_def
  by (auto simp: connected_def chain_simps valid_chain_snoc accepts_def chain_work_snoc, auto simp: chain_work_def)

lemma chain_ok_connect_block:
  assumes "chain_ok (ecng E) ch" "block_arrays b"
  shows "chain_ok (ecng E) (snd (connect_block E now b ch))"
proof (cases "accepts E now ch b")
  case True
  with assms show ?thesis by (simp add: connect_block_ok chain_ok_connected)
next
  case False
  then obtain e where "fst (connect_block E now b ch) = Some e" using connect_block_ok_iff[OF assms(1)] by blast
  with assms(1) show ?thesis by (simp add: connect_block_err)
qed

subsection \<open>Connecting a list of blocks\<close>

lemma connect_all_prefix:
  assumes "chain_ok (ecng E) ch" "list_all block_arrays bs" "connect_all E clk i bs ch = (r, j, ch')"
  shows "chain_ok (ecng E) ch' \<and> i \<le> j \<and> j - i \<le> length bs \<and> blocks ch' = blocks ch @ take (j - i) bs \<and>
    cparams ch' = cparams ch \<and> persisting ch' = persisting ch \<and> (r = None \<longleftrightarrow> j - i = length bs)"
  using assms
proof (induction bs arbitrary: i ch)
  case (Cons b bs)
  show ?case
  proof (cases "accepts E (clk i) ch b")
    case True
    with Cons.prems have rest: "connect_all E clk (Suc i) bs (connected E b ch) = (r, j, ch')"
      by (simp add: connect_block_ok)
    from Cons.prems True have "chain_ok (ecng E) (connected E b ch)" by (simp add: chain_ok_connected)
    from Cons.IH[OF this _ rest] Cons.prems(2)
    have IH: "chain_ok (ecng E) ch' \<and> Suc i \<le> j \<and> j - Suc i \<le> length bs \<and>
        blocks ch' = blocks (connected E b ch) @ take (j - Suc i) bs \<and> cparams ch' = cparams (connected E b ch) \<and>
        persisting ch' = persisting (connected E b ch) \<and> (r = None \<longleftrightarrow> j - Suc i = length bs)"
      by simp
    then have "j - i = Suc (j - Suc i)" by linarith
    with IH show ?thesis by (simp add: chain_simps)
  next
    case False
    then obtain e where e: "fst (connect_block E (clk i) b ch) = Some e"
      using connect_block_ok_iff[OF Cons.prems(1)] by blast
    with connect_block_err[OF e] have "connect_block E (clk i) b ch = (Some e, ch)" by (simp add: prod_eq_iff)
    with Cons.prems show ?thesis by auto
  qed
qed auto

text \<open>Every block of the list passes, the \<open>k\<close>-th at clock reading \<open>clk (i + k)\<close>.\<close>

fun accepts_all :: "'k cng \<Rightarrow> params \<Rightarrow> (nat \<Rightarrow> u64) \<Rightarrow> nat \<Rightarrow> block list \<Rightarrow> block list \<Rightarrow> bool" where
  "accepts_all c p clk i bs [] \<longleftrightarrow> True"
| "accepts_all c p clk i bs (b # cs) \<longleftrightarrow>
     (if bs = [] then genesis_ok p b else extends_ok c p bs b \<and> clock_ok (clk i) b) \<and>
     accepts_all c p clk (Suc i) (bs @ [b]) cs"

lemma connect_all_None_iff:
  "chain_ok (ecng E) ch \<Longrightarrow> list_all block_arrays bs \<Longrightarrow>
     fst (connect_all E clk i bs ch) = None \<longleftrightarrow> accepts_all (ecng E) (cparams ch) clk i (blocks ch) bs"
proof (induction bs arbitrary: i ch)
  case (Cons b bs)
  show ?case
  proof (cases "accepts E (clk i) ch b")
    case True
    with Cons.prems Cons.IH[of "connected E b ch" "Suc i"] show ?thesis
      by (auto simp: connect_block_ok chain_ok_connected chain_simps accepts_def)
  next
    case False
    then obtain e where e: "fst (connect_block E (clk i) b ch) = Some e"
      using connect_block_ok_iff[OF Cons.prems(1)] by blast
    with connect_block_err[OF e] have "connect_block E (clk i) b ch = (Some e, ch)" by (simp add: prod_eq_iff)
    with False show ?thesis by (auto simp: accepts_def)
  qed
qed simp

lemma accepts_all_iff:
  "valid_chain c p bs \<Longrightarrow> list_all block_arrays cs \<Longrightarrow>
     accepts_all c p clk i bs cs \<longleftrightarrow> valid_chain c p (bs @ cs) \<and>
       (\<forall>k < length cs. bs @ take k cs \<noteq> [] \<longrightarrow> clock_ok (clk (i + k)) (cs ! k))"
proof (induction cs arbitrary: bs i)
  case (Cons b cs)
  have "bs @ b # cs = (bs @ [b]) @ cs" by simp
  then have pre: "valid_chain c p (bs @ b # cs) \<Longrightarrow> valid_chain c p (bs @ [b])" by (metis valid_chain_prefix)
  have snoc: "valid_chain c p (bs @ [b]) \<longleftrightarrow> (if bs = [] then genesis_ok p b else extends_ok c p bs b)"
    using Cons.prems by (simp add: valid_chain_snoc)
  have all: "(\<forall>k < length (b # cs). bs @ take k (b # cs) \<noteq> [] \<longrightarrow> clock_ok (clk (i + k)) ((b # cs) ! k)) \<longleftrightarrow>
      (bs \<noteq> [] \<longrightarrow> clock_ok (clk i) b) \<and> (\<forall>k < length cs. clock_ok (clk (Suc i + k)) (cs ! k))"
    by (simp add: All_less_Suc2)
  show ?case
  proof (cases "valid_chain c p (bs @ [b])")
    case True
    from Cons.IH[OF True, of "Suc i"] Cons.prems(2) snoc True all show ?thesis by (simp, blast)
  next
    case False
    with pre snoc show ?thesis by (auto split: if_splits)
  qed
qed simp

subsection \<open>Replacing the chain\<close>

lemma common_prefix_take: "take (common_prefix xs ys) xs = take (common_prefix xs ys) ys"
  by (induction xs ys rule: common_prefix.induct) auto

lemma common_prefix_le: "common_prefix xs ys \<le> length xs" "common_prefix xs ys \<le> length ys"
  by (induction xs ys rule: common_prefix.induct) auto

lemma common_prefix_max:
  "common_prefix xs ys < length xs \<Longrightarrow> common_prefix xs ys < length ys \<Longrightarrow>
     xs ! common_prefix xs ys \<noteq> ys ! common_prefix xs ys"
  by (induction xs ys rule: common_prefix.induct) auto

lemma try_replace_err: "try_replace E clk cand ch = (Inl e, ch') \<Longrightarrow> ch' = ch"
  by (auto simp: try_replace_def Let_def split: if_splits prod.splits option.splits)

lemma try_replace_ok:
  assumes ch: "chain_ok (ecng E) ch" and arr: "list_all block_arrays cand"
    and r: "try_replace E clk cand ch = (Inr fork, ch')"
  shows "chain_ok (ecng E) ch'" "blocks ch' = cand" "work ch < work ch'" "cparams ch' = cparams ch"
    "persisting ch' = persisting ch" "fork = common_prefix (hashes ch) (hashes ch')"
    "cand \<noteq> []" "valid_chain (ecng E) (cparams ch) cand"
proof -
  let ?t0 = "(new_chain (cparams ch))\<lparr>persisting := False\<rparr> :: 'd pchain"
  obtain r0 j tmp where c: "connect_all E clk 0 cand ?t0 = (r0, j, tmp)" by (metis prod_cases3)
  with r have r0: "r0 = None" and ne: "cand \<noteq> []" and w: "work ch < work tmp"
    by (auto simp: try_replace_def split: if_splits option.splits prod.splits)
  from connect_all_prefix[OF chain_ok_new(2) arr c] r0
  have tmp: "chain_ok (ecng E) tmp" "blocks tmp = cand" "cparams tmp = cparams ch"
    by simp_all
  from r c r0 ne w
  have f: "blocks ch' = blocks tmp" "hashes ch' = hashes tmp" "cstate ch' = cstate tmp" "txidx ch' = txidx tmp"
    "work ch' = work tmp" "cparams ch' = cparams ch" "persisting ch' = persisting ch"
    "fork = common_prefix (hashes ch) (hashes tmp)"
    by (auto simp: try_replace_def Let_def split: option.splits if_splits)
  show "chain_ok (ecng E) ch'" using tmp f by (simp add: chain_ok_def)
  show "valid_chain (ecng E) (cparams ch) cand" using tmp by (simp add: chain_ok_def)
  show "blocks ch' = cand" "work ch < work ch'" "cparams ch' = cparams ch" "persisting ch' = persisting ch"
    "fork = common_prefix (hashes ch) (hashes ch')" "cand \<noteq> []" using tmp f w ne by simp_all
qed

lemma try_replace_iff:
  assumes ch: "chain_ok (ecng E) ch" and arr: "list_all block_arrays cand"
  shows "(\<exists>fork. fst (try_replace E clk cand ch) = Inr fork) \<longleftrightarrow>
    cand \<noteq> [] \<and> valid_chain (ecng E) (cparams ch) cand \<and>
    (\<forall>k < length cand. 0 < k \<longrightarrow> clock_ok (clk k) (cand ! k)) \<and> work ch < chain_work cand"
proof -
  let ?t0 = "(new_chain (cparams ch))\<lparr>persisting := False\<rparr> :: 'd pchain"
  obtain r0 j tmp where c: "connect_all E clk 0 cand ?t0 = (r0, j, tmp)" by (metis prod_cases3)
  from connect_all_prefix[OF chain_ok_new(2) arr c]
  have tmp: "r0 = None \<Longrightarrow> work tmp = chain_work cand" by (simp add: chain_ok_def)
  have "r0 = None \<longleftrightarrow> accepts_all (ecng E) (cparams ch) clk 0 [] cand"
    using connect_all_None_iff[OF chain_ok_new(2)[where c = "ecng E" and p = "cparams ch" and pe = False] arr, of clk 0] c by simp
  also have "\<dots> \<longleftrightarrow> valid_chain (ecng E) (cparams ch) cand \<and> (\<forall>k < length cand. 0 < k \<longrightarrow> clock_ok (clk k) (cand ! k))"
    using accepts_all_iff[OF valid_chain.empty arr, of "ecng E" "cparams ch" clk 0] by auto
  finally show ?thesis using c tmp
    by (cases r0) (auto simp: try_replace_def Let_def not_le split: option.splits)
qed

end
