(* ===== verification/ChainFacts.thy ===== *)
theory ChainFacts
  imports ChainInv
begin

text \<open>
  What a valid chain guarantees: consecutive heights, a coin supply of one reward per block,
  nonces that count up without gaps, no transaction twice, an index that finds every
  transaction, and a tip hash that determines the whole history.
\<close>

subsection \<open>Transactions of a valid chain\<close>

lemma extends_static:
  "extends_ok c p bs b \<Longrightarrow> j < length (txs b) \<Longrightarrow> tx_static_ok c (txs b ! j) p (h_height (hdr b)) (j = 0)"
  using runs_static[OF smap_ok_replay, of c p "h_height (hdr b)" 0 bs "txs b" j] by (auto simp: extends_ok_def)

text \<open>An accepted block always has a wire form that parses back.\<close>

lemma extends_block_ok:
  assumes "extends_ok c p bs b" "block_arrays b"
  shows "block_ok b"
proof -
  have "tx_ok t" if "t \<in> set (txs b)" for t
  proof -
    from that obtain j where "j < length (txs b)" "t = txs b ! j" by (metis in_set_conv_nth)
    with extends_static[OF assms(1)] have "tx_static_ok c t p (h_height (hdr b)) (j = 0)" by simp
    with that assms(2) show "tx_ok t"
      by (auto simp: tx_static_ok_def tx_ok_def block_arrays_def tx_arrays_def list_all_iff MAX_PAYLOAD_def split: if_splits)
  qed
  with assms show ?thesis by (auto simp: block_ok_def block_arrays_def extends_ok_def list_all_iff)
qed

lemma genesis_block_ok: "genesis_ok p b \<Longrightarrow> block_arrays b \<Longrightarrow> block_ok b"
  by (simp add: genesis_ok_def block_ok_def block_arrays_def)

lemma valid_chain_block_ok: "valid_chain c p bs \<Longrightarrow> b \<in> set bs \<Longrightarrow> block_ok b"
  by (induction rule: valid_chain.induct) (auto intro: extends_block_ok genesis_block_ok)

lemma extends_minted:
  assumes "extends_ok c p bs b"
  shows "(\<Sum>t\<leftarrow>txs b. minted t) = unat (p_reward p)"
proof -
  from assms obtain t ts where ts: "txs b = t # ts" by (cases "txs b") (auto simp: extends_ok_def)
  have "minted u = 0" if "u \<in> set ts" for u
  proof -
    from that obtain j where "Suc j < length (txs b)" "u = txs b ! Suc j" using ts by (metis in_set_conv_nth length_Cons nth_Cons_Suc Suc_less_eq)
    with extends_static[OF assms, of "Suc j"] show ?thesis by (auto simp: tx_static_ok_def minted_def split: if_splits)
  qed
  then have "(\<Sum>t\<leftarrow>ts. minted t) = 0" by (simp add: sum_list_eq_0_iff)
  moreover have "minted t = unat (p_reward p)"
    using extends_static[OF assms, of 0] ts by (auto simp: tx_static_ok_def minted_def split: if_splits)
  ultimately show ?thesis by (simp add: ts)
qed

lemma valid_chain_supply:
  "valid_chain c p bs \<Longrightarrow> (length bs - 1) * unat (p_reward p) < 2 ^ 64 \<Longrightarrow>
     coin_supply (replay bs) = (length bs - 1) * unat (p_reward p)"
proof (induction rule: valid_chain.induct)
  case (extend bs b)
  have mint: "(\<Sum>t\<leftarrow>txs b. minted t) = unat (p_reward p)" by (rule extends_minted[OF extend.hyps(3)])
  obtain k where k: "length bs = Suc k" using extend.hyps(2) by (cases bs) simp_all
  with extend.prems have le: "(length bs - 1) * unat (p_reward p) + unat (p_reward p) < 2 ^ 64"
    by (simp add: add.commute)
  then have IH: "coin_supply (replay bs) = (length bs - 1) * unat (p_reward p)" by (intro extend.IH) simp
  have "coin_supply (replay (bs @ [b])) = coin_supply (replay bs) + (\<Sum>t\<leftarrow>txs b. minted t)"
    unfolding replay_snoc
    by (rule runs_supply[of _ c p "h_height (hdr b)" 0]) (use extend.hyps(3) IH le mint in \<open>auto simp: extends_ok_def\<close>)
  with IH mint k show ?case by (simp add: add.commute)
qed (simp_all add: replay_def coin_supply_def genesis_ok_def)

lemma valid_chain_nonces:
  "valid_chain c p bs \<Longrightarrow>
     counts_from 0 (map tx_nonce (user_txs a (all_txs bs))) \<and>
     nonce (st_get a (replay bs)) = of_nat (length (user_txs a (all_txs bs)))"
proof (induction rule: valid_chain.induct)
  case (extend bs b)
  then have "runs c p (h_height (hdr b)) 0 (replay bs) (txs b)" by (auto simp: extends_ok_def)
  from runs_nonces[OF smap_ok_replay this, of a] extend.IH show ?case
    by (simp add: replay_snoc user_txs_def counts_from_append)
qed (simp_all add: user_txs_def replay_def account0_def genesis_ok_def)

text \<open>Coinbases carry their height, every other transaction the next nonce of its sender.\<close>

definition coinbases :: "tx list \<Rightarrow> tx list" where
  "coinbases ts = filter (\<lambda>t. tx_type t = TX_COINBASE) ts"

lemma extends_coinbases:
  assumes "extends_ok c p bs b"
  shows "map tx_nonce (coinbases (txs b)) = [h_height (hdr b)]"
proof -
  from assms obtain t ts where ts: "txs b = t # ts" by (cases "txs b") (auto simp: extends_ok_def)
  have "filter (\<lambda>t. tx_type t = TX_COINBASE) ts = []"
  proof (rule filter_False, rule ballI)
    fix u assume "u \<in> set ts"
    then obtain j where "Suc j < length (txs b)" "u = txs b ! Suc j" using ts by (metis in_set_conv_nth length_Cons nth_Cons_Suc Suc_less_eq)
    with extends_static[OF assms, of "Suc j"] show "tx_type u \<noteq> TX_COINBASE" by (auto simp: tx_static_ok_def split: if_splits)
  qed
  with extends_static[OF assms, of 0] ts show ?thesis by (auto simp: tx_static_ok_def coinbases_def split: if_splits)
qed

lemma valid_chain_coinbases:
  "valid_chain c p bs \<Longrightarrow> bs \<noteq> [] \<Longrightarrow>
     counts_from (h_height (hdr (bs ! 0)) + 1) (map tx_nonce (coinbases (all_txs bs))) \<and>
     length (coinbases (all_txs bs)) = length bs - 1"
proof (induction rule: valid_chain.induct)
  case (extend bs b)
  from extend.hyps(2) have l: "length bs - 1 < length bs" by (cases bs) simp_all
  have "h_height (hdr (last bs)) = h_height (hdr (bs ! 0)) + of_nat (length bs - 1)"
    using valid_chain_height[OF extend.hyps(1) l] extend.hyps(2) by (simp add: last_conv_nth)
  with extend extends_coinbases[OF extend.hyps(3)] have "counts_from (h_height (hdr (bs ! 0)) + 1)
      (map tx_nonce (coinbases (all_txs bs)) @ map tx_nonce (coinbases (txs b)))"
    by (simp add: counts_from_append counts_from_Cons extends_ok_def add_ac)
  moreover from extends_coinbases[OF extend.hyps(3)] have "length (coinbases (txs b)) = 1"
    by (metis length_Cons length_map list.size(3) One_nat_def)
  ultimately show ?case using extend by (simp add: coinbases_def nth_append)
qed (simp_all add: coinbases_def genesis_ok_def)

lemma distinct_by_filters:
  assumes "\<And>k. distinct (filter (\<lambda>x. f x = k) xs)"
  shows "distinct xs"
  using assms
proof (induction xs)
  case (Cons x xs)
  have "x \<notin> set xs" using Cons.prems[of "f x"] by simp
  moreover have "distinct (filter (\<lambda>x. f x = k) xs)" for k using Cons.prems[of k] by (simp split: if_splits)
  ultimately show ?case using Cons.IH by simp
qed simp

lemma filter_by_author:
  "filter (\<lambda>t. (if tx_type t = TX_COINBASE then None else Some (sender t)) = None) ts = coinbases ts"
  "filter (\<lambda>t. (if tx_type t = TX_COINBASE then None else Some (sender t)) = Some a) ts = user_txs a ts"
  unfolding coinbases_def user_txs_def by (rule filter_cong; simp)+

lemma valid_chain_distinct_txs:
  assumes "valid_chain c p bs" "length (all_txs bs) \<le> 2 ^ 64"
  shows "distinct (all_txs bs)"
proof (cases "bs = []")
  case False
  let ?ts = "all_txs bs" and ?f = "\<lambda>t. if tx_type t = TX_COINBASE then None else Some (sender t)"
  have user: "distinct (user_txs a ?ts)" for a
  proof -
    have "length (user_txs a ?ts) \<le> 2 ^ 64" using assms(2) length_filter_le unfolding user_txs_def by (rule order_trans[rotated])
    with valid_chain_nonces[OF assms(1), of a] have "distinct (map tx_nonce (user_txs a ?ts))"
      by (intro counts_from_distinct[of 0]) simp_all
    then show ?thesis by (simp add: distinct_map)
  qed
  have coin: "distinct (coinbases ?ts)"
  proof -
    have "length (coinbases ?ts) \<le> 2 ^ 64" using assms(2) length_filter_le unfolding coinbases_def by (rule order_trans[rotated])
    with valid_chain_coinbases[OF assms(1) False] have "distinct (map tx_nonce (coinbases ?ts))"
      by (intro counts_from_distinct[of "h_height (hdr (bs ! 0)) + 1"]) simp_all
    then show ?thesis by (simp add: distinct_map)
  qed
  have "distinct (filter (\<lambda>t. ?f t = k) ?ts)" for k
    using user coin by (cases k) (simp_all add: filter_by_author)
  then show ?thesis by (rule distinct_by_filters)
qed simp

subsection \<open>The transaction index\<close>

text \<open>Writing a list of entries in turn: the last entry written for a key stays.\<close>

definition put_all :: "('k::linorder \<times> 'v) list \<Rightarrow> ('k, 'v) smap \<Rightarrow> ('k, 'v) smap" where
  "put_all es m = fold (\<lambda>(k, v) m. smap_put k v m) es m"

lemma put_all_ok [simp]: "smap_ok m \<Longrightarrow> smap_ok (put_all es m)"
  by (induction es arbitrary: m) (auto simp: put_all_def sm.ok_put)

lemma put_all_append: "put_all (xs @ ys) m = put_all ys (put_all xs m)"
  by (simp add: put_all_def)

lemma put_all_find:
  "smap_ok m \<Longrightarrow> distinct (map fst es) \<Longrightarrow>
     smap_find (put_all es m) k = (case map_of es k of Some v \<Rightarrow> Some v | None \<Rightarrow> smap_find m k)"
proof (induction es arbitrary: m)
  case (Cons e es)
  obtain k0 v0 where e: "e = (k0, v0)" by force
  have "put_all (e # es) m = put_all es (smap_put k0 v0 m)" by (simp add: put_all_def e)
  moreover have "map_of es k0 = None" using Cons.prems(2) e by (simp add: map_of_eq_None_iff)
  ultimately show ?case using Cons.prems Cons.IH[of "smap_put k0 v0 m"] e
    by (simp add: sm.ok_put sm.find_put split: option.split)
qed (simp add: put_all_def)

definition block_index :: "block \<Rightarrow> (h256 \<times> u32 \<times> u32) list" where
  "block_index b = map (\<lambda>i. (txid (txs b ! i), ucast (h_height (hdr b)), of_nat i)) [0..<length (txs b)]"

lemma index_block_eq: "index_block b m = put_all (block_index b) m"
  by (simp add: index_block_def put_all_def block_index_def fold_map comp_def)

lemma fold_index_block: "fold index_block bs m = put_all (concat (map block_index bs)) m"
  by (induction bs arbitrary: m) (simp_all add: index_block_eq put_all_append, simp add: put_all_def)

lemma map_fst_block_index: "map fst (concat (map block_index bs)) = map txid (all_txs bs)"
proof (induction bs)
  case (Cons b bs)
  have "map fst (block_index b) = map txid (txs b)" by (rule nth_equalityI) (simp_all add: block_index_def)
  with Cons show ?case by simp
qed simp

lemma chain_index_find:
  assumes "distinct (map txid (all_txs bs))"
  shows "smap_find (fold index_block bs []) k = Some (h, j) \<longleftrightarrow>
    (\<exists>b \<in> set bs. \<exists>i < length (txs b). k = txid (txs b ! i) \<and> h = ucast (h_height (hdr b)) \<and> j = of_nat i)"
proof -
  have d: "distinct (map fst (concat (map block_index bs)))" using assms by (simp only: map_fst_block_index)
  have "smap_find (fold index_block bs []) k = map_of (concat (map block_index bs)) k"
    unfolding fold_index_block by (subst put_all_find[OF _ d]) (simp_all split: option.split)
  then have "smap_find (fold index_block bs []) k = Some (h, j) \<longleftrightarrow> (\<exists>b \<in> set bs. (k, h, j) \<in> set (block_index b))"
    using d by simp
  moreover have "(k, h, j) \<in> set (block_index b) \<longleftrightarrow>
      (\<exists>i < length (txs b). k = txid (txs b ! i) \<and> h = ucast (h_height (hdr b)) \<and> j = of_nat i)" for b
    by (force simp: block_index_def)
  ultimately show ?thesis by simp
qed

subsection \<open>The tip hash commits to the history\<close>

text \<open>Every message hashed to build the header hashes and Merkle roots of a chain.\<close>

definition chain_msgs :: "block list \<Rightarrow> bytes set" where
  "chain_msgs bs = (\<lambda>b. header_serialize (hdr b)) ` set bs \<union> (\<Union>b \<in> set bs. block_msgs (txs b))"

definition genesis_msg :: "params \<Rightarrow> bytes" where
  "genesis_msg p = header_serialize (hdr (make_genesis p))"

lemma header_hash_inj:
  assumes "inj_on sha256d M" "header_serialize h \<in> M" "header_serialize g \<in> M"
    and "header_ok h" "header_ok g" "header_hash h = header_hash g"
  shows "h = g"
proof -
  have "header_serialize h = header_serialize g"
    using assms(6) by (intro inj_onD[OF assms(1) _ assms(2,3)]) (simp add: header_hash_eq)
  then show ?thesis using assms(4,5) by (metis hdrc.enc_inj)
qed

lemma genesis_unique:
  assumes "inj_on sha256d M" "genesis_msg p \<in> M" "header_serialize (hdr b) \<in> M" "genesis_ok p b" "block_arrays b"
  shows "b = make_genesis p"
proof -
  have "hdr b = hdr (make_genesis p)"
    using assms genesis_arrays(2) by (intro header_hash_inj[OF assms(1)]) (auto simp: genesis_msg_def genesis_ok_def block_arrays_def)
  with assms(4) genesis_arrays(3) show ?thesis by (simp add: genesis_ok_def)
qed

lemma valid_chain_heights:
  assumes "valid_chain c p bs" "inj_on sha256d (insert (genesis_msg p) (chain_msgs bs))" "i < length bs"
  shows "h_height (hdr (bs ! i)) = of_nat i"
proof -
  from assms(3) have ne: "bs \<noteq> []" by auto
  then have "header_serialize (hdr (bs ! 0)) \<in> chain_msgs bs" by (auto simp: chain_msgs_def)
  with genesis_unique[OF assms(2)] valid_chain_hd[OF assms(1) ne] have "bs ! 0 = make_genesis p" by blast
  with valid_chain_height[OF assms(1,3)] show ?thesis by (simp add: make_genesis_def)
qed

lemma of_nat_u64_inj: "(of_nat m :: u64) = of_nat n \<Longrightarrow> m < 2 ^ 64 \<Longrightarrow> n < 2 ^ 64 \<Longrightarrow> m = n"
  by (drule arg_cong[of _ _ unat]) (simp add: unat_of_nat take_bit_nat_eq_self)

lemma extends_distinct_txs:
  assumes "extends_ok c p bs b"
  shows "distinct (txs b)"
proof (rule distinct_by_filters[of "\<lambda>t. if tx_type t = TX_COINBASE then None else Some (sender t)"])
  fix k
  have len: "length (txs b) \<le> 2 ^ 64" using assms by (simp add: extends_ok_def MAX_BLOCK_TXS_def)
  show "distinct (filter (\<lambda>t. (if tx_type t = TX_COINBASE then None else Some (sender t)) = k) (txs b))"
  proof (cases k)
    case None
    have "length (coinbases (txs b)) = 1" using arg_cong[OF extends_coinbases[OF assms], of length] by simp
    then have "distinct (coinbases (txs b))" by (cases "coinbases (txs b)") auto
    with None show ?thesis by (simp only: filter_by_author)
  next
    case (Some a)
    have "counts_from (nonce (st_get a (replay bs))) (map tx_nonce (user_txs a (txs b)))"
      using runs_nonces[OF smap_ok_replay, of c p "h_height (hdr b)" 0 bs "txs b" a] assms by (auto simp: extends_ok_def)
    moreover have "length (user_txs a (txs b)) \<le> 2 ^ 64" using len length_filter_le unfolding user_txs_def by (rule order_trans[rotated])
    ultimately have "distinct (map tx_nonce (user_txs a (txs b)))" by (intro counts_from_distinct[of "nonce (st_get a (replay bs))"]) simp_all
    then have "distinct (user_txs a (txs b))" by (simp add: distinct_map)
    with Some show ?thesis by (simp only: filter_by_author)
  qed
qed

text \<open>Two accepted blocks with the same header hash are the same block.\<close>

lemma extends_block_unique:
  assumes inj: "inj_on sha256d M" "chain_msgs [b] \<subseteq> M" "chain_msgs [b'] \<subseteq> M"
    and b: "extends_ok c p bs b" "block_arrays b" and b': "extends_ok c p bs' b'" "block_arrays b'"
    and eq: "header_hash (hdr b) = header_hash (hdr b')"
  shows "b = b'"
proof -
  have h: "hdr b = hdr b'"
    using inj b(2) b'(2) eq by (intro header_hash_inj[OF inj(1)]) (auto simp: chain_msgs_def block_arrays_def)
  have "txs b = txs b'"
  proof (rule merkle_root_binding)
    show "inj_on sha256d (block_msgs (txs b) \<union> block_msgs (txs b'))"
      using inj by (auto simp: chain_msgs_def intro: inj_on_subset)
    show "list_all tx_ok (txs b)" "list_all tx_ok (txs b')"
      using extends_block_ok[OF b] extends_block_ok[OF b'] by (simp_all add: block_ok_def)
    show "distinct (txs b)" "distinct (txs b')" using b(1) b'(1) by (simp_all add: extends_distinct_txs)
  qed (use b(1) b'(1) h in \<open>auto simp: extends_ok_def\<close>)
  with h show ?thesis by simp
qed

lemma tip_determines_chain:
  assumes "valid_chain c p bs" "valid_chain c p cs" "bs \<noteq> []" "cs \<noteq> []"
    and "length bs \<le> 2 ^ 64" "length cs \<le> 2 ^ 64"
    and inj: "inj_on sha256d M" and sub: "insert (genesis_msg p) (chain_msgs bs \<union> chain_msgs cs) \<subseteq> M"
    and eq: "header_hash (hdr (last bs)) = header_hash (hdr (last cs))"
  shows "bs = cs"
  using assms(1-6) sub eq
proof (induction bs arbitrary: cs rule: rev_induct)
  case (snoc b bs)
  obtain cs' d where cs: "cs = cs' @ [d]" using snoc.prems(4) by (metis rev_exhaust)
  have M: "chain_msgs [b] \<subseteq> M" "chain_msgs [d] \<subseteq> M" "genesis_msg p \<in> M" "chain_msgs bs \<subseteq> M" "chain_msgs cs' \<subseteq> M"
    using snoc.prems(7) by (auto simp: chain_msgs_def cs)
  have arr: "block_arrays b" "block_arrays d" "valid_chain c p bs" "valid_chain c p cs'"
    using snoc.prems(1,2) by (simp_all add: valid_chain_snoc cs)
  have h: "hdr b = hdr d"
    using snoc.prems(8) M arr by (intro header_hash_inj[OF inj]) (auto simp: chain_msgs_def block_arrays_def cs)
  have zero: "h_height (hdr (last xs)) = of_nat (length xs - 1)" if "valid_chain c p xs" "chain_msgs xs \<subseteq> M" "xs \<noteq> []" for xs
  proof -
    have "inj_on sha256d (insert (genesis_msg p) (chain_msgs xs))" using that M by (intro inj_on_subset[OF inj]) auto
    from valid_chain_heights[OF that(1) this, of "length xs - 1"] that(3) show ?thesis by (simp add: last_conv_nth)
  qed
  have "(of_nat (length bs) :: u64) = of_nat (length cs')"
    using zero[of "bs @ [b]"] zero[of "cs' @ [d]"] snoc.prems(1,2,7) h by (simp add: cs)
  moreover have "length bs < 2 ^ 64" "length cs' < 2 ^ 64" using snoc.prems(5,6) by (simp_all add: cs)
  ultimately have len: "length bs = length cs'"
    by (rule of_nat_u64_inj)
  show ?case
  proof (cases "bs = []")
    case True
    with len have "cs' = []" by simp
    with True snoc.prems(1,2) h show ?thesis by (simp add: cs valid_chain_snoc[of _ _ "[]", simplified] genesis_ok_def)
  next
    case False
    with len have ne: "cs' \<noteq> []" by auto
    have ext: "extends_ok c p bs b" "extends_ok c p cs' d"
      using snoc.prems(1,2) False ne by (simp_all add: valid_chain_snoc cs)
    have "b = d" using snoc.prems(8) cs by (intro extends_block_unique[OF inj M(1,2) ext(1) arr(1) ext(2) arr(2)]) simp
    moreover have "bs = cs'"
    proof (rule snoc.IH)
      show "header_hash (hdr (last bs)) = header_hash (hdr (last cs'))"
        using ext h by (simp add: extends_ok_def)
    qed (use arr False ne snoc.prems M cs in auto)
    ultimately show ?thesis by (simp add: cs)
  qed
qed simp

subsection \<open>Collisions, and the transaction index\<close>

text \<open>Two different messages among \<open>M\<close> with the same double SHA-256.\<close>

definition collision :: "bytes set \<Rightarrow> bool" where
  "collision M \<longleftrightarrow> (\<exists>x \<in> M. \<exists>y \<in> M. x \<noteq> y \<and> sha256d x = sha256d y)"

lemma not_collision_iff: "\<not> collision M \<longleftrightarrow> inj_on sha256d M"
  by (auto simp: collision_def inj_on_def)

lemma chain_txs_ok:
  assumes "valid_chain c p bs" "t \<in> set (all_txs bs)"
  shows "tx_ok t"
  using assms valid_chain_block_ok [OF assms(1)] by (auto simp: all_txs_def block_ok_def list_all_iff)

lemma chain_distinct_txids:
  assumes "valid_chain c p bs" "length (all_txs bs) \<le> 2 ^ 64" "inj_on sha256d (chain_msgs bs)"
  shows "distinct (map txid (all_txs bs))"
proof -
  have "t = u" if "t \<in> set (all_txs bs)" "u \<in> set (all_txs bs)" "txid t = txid u" for t u
  proof -
    have "tx_serialize t \<in> chain_msgs bs" "tx_serialize u \<in> chain_msgs bs"
      using that(1,2) by (auto simp: chain_msgs_def block_msgs_def all_txs_def)
    then have "tx_serialize t = tx_serialize u"
      using inj_onD [OF assms(3)] that(3) by (simp add: txid_eq)
    then show ?thesis
      using txc.enc_inj chain_txs_ok [OF assms(1)] that(1,2) by blast
  qed
  then show ?thesis
    using valid_chain_distinct_txs [OF assms(1,2)] by (auto simp: distinct_map inj_on_def)
qed

definition chain_at :: "block list \<Rightarrow> u32 \<times> u32 \<Rightarrow> h256 \<Rightarrow> bool" where
  "chain_at bs loc i \<longleftrightarrow> unat (fst loc) < length bs \<and> unat (snd loc) < length (txs (bs ! unat (fst loc))) \<and>
     txid (txs (bs ! unat (fst loc)) ! unat (snd loc)) = i"

lemma genesis_no_txs: "valid_chain c p bs \<Longrightarrow> bs \<noteq> [] \<Longrightarrow> txs (bs ! 0) = []"
  using valid_chain_hd [of c p bs] by (simp add: genesis_ok_def)

lemma chain_index_at:
  assumes v: "valid_chain c p bs" and len: "length bs \<le> 2 ^ 32" "length (all_txs bs) \<le> 2 ^ 64"
    and inj: "inj_on sha256d (insert (genesis_msg p) (chain_msgs bs))"
  shows "smap_find (fold index_block bs []) i = Some loc \<longleftrightarrow> chain_at bs loc i"
proof -
  have "inj_on sha256d (chain_msgs bs)" using inj by (simp add: inj_on_insert)
  note find = chain_index_find [OF chain_distinct_txids [OF v len(2) this], of i "fst loc" "snd loc"]
  have height: "unat (ucast (h_height (hdr (bs ! k))) :: u32) = k" if "k < length bs" for k
  proof -
    have "k < 2 ^ 32" using that len(1) by simp
    then show ?thesis
      using valid_chain_heights [OF v inj that] by (simp add: unsigned_ucast_eq unat_of_nat take_bit_nat_eq_self)
  qed
  have index: "unat (of_nat j :: u32) = j" if "k < length bs" "j < length (txs (bs ! k))" for k j
  proof -
    have "length (txs (bs ! k)) \<le> 5000"
      using valid_chain_block_ok [OF v] that(1) by (simp add: block_ok_def MAX_BLOCK_TXS_def)
    then show ?thesis using that(2) by (simp add: unat_of_nat)
  qed
  show ?thesis
  proof
    assume "smap_find (fold index_block bs []) i = Some loc"
    then obtain b j where b: "b \<in> set bs" "j < length (txs b)" "i = txid (txs b ! j)"
        "fst loc = ucast (h_height (hdr b))" "snd loc = of_nat j"
      using find by auto
    then obtain k where "k < length bs" "b = bs ! k" by (metis in_set_conv_nth)
    then show "chain_at bs loc i"
      using b height index by (simp add: chain_at_def)
  next
    assume at: "chain_at bs loc i"
    let ?b = "bs ! unat (fst loc)"
    have "?b \<in> set bs" "fst loc = ucast (h_height (hdr ?b))" "snd loc = of_nat (unat (snd loc))"
      using at height [of "unat (fst loc)"] by (simp_all add: chain_at_def word_unat_eq_iff)
    then show "smap_find (fold index_block bs []) i = Some loc"
      using at find unfolding chain_at_def by (metis prod.collapse)
  qed
qed

end
