(* ===== verification/ChainDb.thy ===== *)
theory ChainDb
  imports ChainFacts
begin

text \<open>
  The database behind \<^verbatim>\<open>Chain\<close>: that a running node keeps the \<^verbatim>\<open>blocks\<close> table equal to its chain,
  so that a restart restores it, and what \<^verbatim>\<open>init\<close> recovers from a damaged table.

  SQLite is the parameter \<open>sq\<close>.  \<open>sqlite_laws sq tbl ready\<close> states what the statements of
  \<^verbatim>\<open>core.h\<close> are documented to do on a healthy database (\<^verbatim>\<open>BEGIN IMMEDIATE\<close> and \<^verbatim>\<open>COMMIT\<close> may fail, \<^verbatim>\<open>core.h\<close> ignores their results): \<open>tbl d\<close> are the rows
  \<open>(height, raw)\<close> of table \<^verbatim>\<open>blocks\<close> in key order, \<open>ready d\<close> says the schema exists.
  \<open>mini_sql\<close> in \<open>Instances\<close> is an implementation that meets them.
\<close>

subsection \<open>What SQLite promises\<close>

definition housekeeping :: "string list" where
  "housekeeping = init_schema @ [''BEGIN IMMEDIATE'', ''COMMIT'']"

definition statements :: "string list" where
  "statements = [sql_insert_block, sql_insert_tx, sql_delete_blocks, sql_delete_txs, sql_select_raw]"

definition below :: "int \<Rightarrow> (int, bytes) smap \<Rightarrow> (int, bytes) smap" where
  "below h rows = filter (\<lambda>r. fst r < h) rows"

definition sqlite_laws :: "'d sqlite \<Rightarrow> ('d \<Rightarrow> (int, bytes) smap) \<Rightarrow> ('d \<Rightarrow> bool) \<Rightarrow> bool" where
  "sqlite_laws sq tbl ready \<longleftrightarrow>
     (\<forall>d. smap_ok (tbl d)) \<and>
     (\<forall>d. \<forall>s \<in> set housekeeping. tbl (snd (sq_exec sq s d)) = tbl d \<and> (ready d \<longrightarrow> ready (snd (sq_exec sq s d)))) \<and>
     (\<forall>d. \<forall>s \<in> set init_schema. fst (sq_exec sq s d)) \<and>
     (\<forall>d. ready (snd (exec_all sq init_schema d))) \<and>
     (\<forall>d. ready d \<longrightarrow> (\<forall>s \<in> set statements. sq_prepare sq s d)) \<and>
     (\<forall>d v. ready d \<longrightarrow> (\<forall>s \<in> set statements. ready (sq_step sq s v d))) \<and>
     (\<forall>d v h raw. ready d \<longrightarrow> v 1 = SInt h \<longrightarrow> v 6 = SBlob raw \<longrightarrow>
        tbl (sq_step sq sql_insert_block v d) = smap_put h raw (tbl d)) \<and>
     (\<forall>d v. ready d \<longrightarrow> tbl (sq_step sq sql_insert_tx v d) = tbl d \<and> tbl (sq_step sq sql_delete_txs v d) = tbl d) \<and>
     (\<forall>d v h. ready d \<longrightarrow> v 1 = SInt h \<longrightarrow> tbl (sq_step sq sql_delete_blocks v d) = below h (tbl d)) \<and>
     (\<forall>d. ready d \<longrightarrow> sq_blobs sq sql_select_raw d = map (\<lambda>(h, raw). if raw = [] then None else Some raw) (tbl d))"

lemma sqlite_lawsD:
  assumes "sqlite_laws sq tbl ready"
  shows "smap_ok (tbl d)"
    "s \<in> set init_schema \<Longrightarrow> fst (sq_exec sq s d)"
    "s \<in> set housekeeping \<Longrightarrow> tbl (snd (sq_exec sq s d)) = tbl d"
    "s \<in> set housekeeping \<Longrightarrow> ready d \<Longrightarrow> ready (snd (sq_exec sq s d))"
    "ready (snd (exec_all sq init_schema d))"
    "ready d \<Longrightarrow> s \<in> set statements \<Longrightarrow> sq_prepare sq s d"
    "ready d \<Longrightarrow> s \<in> set statements \<Longrightarrow> ready (sq_step sq s v d)"
    "ready d \<Longrightarrow> v 1 = SInt h \<Longrightarrow> v 6 = SBlob raw \<Longrightarrow> tbl (sq_step sq sql_insert_block v d) = smap_put h raw (tbl d)"
    "ready d \<Longrightarrow> tbl (sq_step sq sql_insert_tx v d) = tbl d"
    "ready d \<Longrightarrow> tbl (sq_step sq sql_delete_txs v d) = tbl d"
    "ready d \<Longrightarrow> v 1 = SInt h \<Longrightarrow> tbl (sq_step sq sql_delete_blocks v d) = below h (tbl d)"
    "ready d \<Longrightarrow> sq_blobs sq sql_select_raw d = map (\<lambda>(h, raw). if raw = [] then None else Some raw) (tbl d)"
  using assms unfolding sqlite_laws_def by (elim conjE; simp)+

subsection \<open>The writes of Chain\<close>

lemma db_insert_tx_keeps:
  assumes "sqlite_laws sq tbl ready" "ready d"
  shows "ready (db_insert_tx sq b i d) \<and> tbl (db_insert_tx sq b i d) = tbl d"
  using assms(2) sqlite_lawsD(6,7,9)[OF assms(1)]
  by (simp add: statements_def db_insert_tx_def St_def stmt_defs Let_def split: option.split)

lemma fold_insert_tx_keeps:
  assumes "sqlite_laws sq tbl ready"
  shows "ready d \<Longrightarrow> ready (fold (db_insert_tx sq b) is d) \<and> tbl (fold (db_insert_tx sq b) is d) = tbl d"
  by (induction "is" arbitrary: d) (simp_all add: db_insert_tx_keeps[OF assms])

definition row_of :: "block \<Rightarrow> int \<times> bytes" where
  "row_of b = (sint (h_height (hdr b)), block_serialize b)"

lemma db_insert_row:
  assumes "sqlite_laws sq tbl ready" "ready d"
  shows "ready (db_insert sq b d) \<and> tbl (db_insert sq b d) = smap_put (fst (row_of b)) (snd (row_of b)) (tbl d)"
proof -
  let ?p = "(\<lambda>_. SNull)(1 := SInt (sint (h_height (hdr b))), 2 := SText (hexs (header_hash (hdr b))),
    3 := SText (hexs (h_prev (hdr b))), 4 := SInt (sint (h_time (hdr b))), 5 := SInt (int (length (txs b))),
    6 := SBlob (block_serialize b))"
  let ?d = "sq_step sq sql_insert_block ?p d"
  have "db_insert sq b d = fold (db_insert_tx sq b) [0..<length (txs b)] ?d"
    using sqlite_lawsD(6)[OF assms(1,2)] by (simp add: statements_def db_insert_def St_def stmt_defs Let_def)
  moreover have "ready ?d" "tbl ?d = smap_put (sint (h_height (hdr b))) (block_serialize b) (tbl d)"
    using sqlite_lawsD(7,8)[OF assms(1,2)] by (simp_all add: statements_def)
  ultimately show ?thesis using fold_insert_tx_keeps[OF assms(1), of ?d b "[0..<length (txs b)]"]
    by (simp add: row_of_def)
qed

lemma db_truncate_rows:
  assumes "sqlite_laws sq tbl ready" "ready d"
  shows "ready (db_truncate_from sq h d) \<and> tbl (db_truncate_from sq h d) = below (sint h) (tbl d)"
proof -
  let ?p = "(\<lambda>_. SNull)(1 := SInt (sint h))"
  let ?d = "sq_step sq sql_delete_blocks ?p d"
  have "ready ?d" "tbl ?d = below (sint h) (tbl d)" using sqlite_lawsD(7,11)[OF assms(1,2)] by (simp_all add: statements_def)
  moreover from this have "db_truncate_from sq h d = sq_step sq sql_delete_txs ?p ?d"
    using sqlite_lawsD(6)[OF assms] sqlite_lawsD(6)[OF assms(1), of ?d]
    by (simp add: statements_def db_truncate_from_def db_delete_from_def St_def stmt_defs)
  ultimately show ?thesis using sqlite_lawsD(7,10)[OF assms(1), of ?d] by (simp add: statements_def)
qed

lemma housekeeping_exec:
  assumes "sqlite_laws sq tbl ready" "ready d" "s = ''BEGIN IMMEDIATE'' \<or> s = ''COMMIT''"
  shows "ready (snd (db_exec sq s d)) \<and> tbl (snd (db_exec sq s d)) = tbl d"
  using sqlite_lawsD(3,4)[OF assms(1), of s d] assms(2,3) by (auto simp: db_exec_def housekeeping_def)

lemma exec_schema:
  assumes "sqlite_laws sq tbl ready"
  shows "set ss \<subseteq> set init_schema \<Longrightarrow> fst (exec_all sq ss d) \<and> tbl (snd (exec_all sq ss d)) = tbl d"
proof (induction ss arbitrary: d)
  case (Cons s ss)
  then have "fst (sq_exec sq s d)" "tbl (snd (sq_exec sq s d)) = tbl d" using sqlite_lawsD(2,3)[OF assms] by (simp_all add: housekeeping_def)
  with Cons.IH[of "snd (sq_exec sq s d)"] Cons.prems show ?case
    by (cases "sq_exec sq s d") (simp add: db_exec_def)
qed simp

subsection \<open>Rows and chains\<close>

text \<open>A chain that starts with the literal genesis block has its heights as row keys.\<close>

definition rooted :: "params \<Rightarrow> block list \<Rightarrow> bool" where
  "rooted p bs \<longleftrightarrow> (\<forall>b bs'. bs = b # bs' \<longrightarrow> b = make_genesis p)"

lemma sint_of_nat_u64: "n < 2 ^ 63 \<Longrightarrow> sint (of_nat n :: u64) = int n"
  by (simp add: signed_of_nat signed_take_bit_int_eq_self)


lemma smap_put_last: "\<forall>e \<in> set m. fst e < k \<Longrightarrow> smap_put k v m = m @ [(k, v)]"
  by (simp add: smap_put_def takeWhile_eq_all_conv dropWhile_eq_Nil_conv less_le)

lemma rooted_heights:
  assumes "valid_chain c p bs" "rooted p bs" "i < length bs"
  shows "h_height (hdr (bs ! i)) = of_nat i"
proof -
  from assms(2,3) have "bs ! 0 = make_genesis p" by (cases bs) (auto simp: rooted_def)
  with valid_chain_height[OF assms(1,3)] show ?thesis by (simp add: make_genesis_def)
qed

lemma row_key:
  assumes "valid_chain c p bs" "rooted p bs" "length bs \<le> 2 ^ 63" "i < length bs"
  shows "fst (row_of (bs ! i)) = int i"
  using rooted_heights[OF assms(1,2,4)] assms(3,4) by (simp add: row_of_def sint_of_nat_u64)

lemma rooted_append: "rooted p (bs @ cs) \<longleftrightarrow> rooted p bs \<and> (bs = [] \<longrightarrow> rooted p cs)"
  by (cases bs) (auto simp: rooted_def)

lemma rows_below:
  assumes "valid_chain c p bs" "rooted p bs" "length bs \<le> 2 ^ 63" "n \<le> length bs"
  shows "below (int n) (map row_of bs) = map row_of (take n bs)"
proof -
  have key: "i < length bs \<Longrightarrow> fst (row_of (bs ! i)) = int i" for i by (rule row_key[OF assms(1-3)])
  have "bs = take n bs @ drop n bs" by simp
  moreover have "fst (row_of b) < int n" if "b \<in> set (take n bs)" for b
    using that key by (fastforce simp: in_set_conv_nth)
  moreover have "\<not> fst (row_of b) < int n" if "b \<in> set (drop n bs)" for b
    using that key assms(4) by (fastforce simp: in_set_conv_nth)
  ultimately have "filter (\<lambda>b. fst (row_of b) < int n) bs = take n bs"
    by (metis (no_types, lifting) append_Nil2 filter_False filter_True filter_append)
  then show ?thesis by (simp add: below_def filter_map comp_def)
qed

text \<open>Inserting the next blocks of a chain appends their rows.\<close>

lemma insert_next_row:
  assumes "sqlite_laws sq tbl ready" "ready d" "tbl d = map row_of bs"
    and "valid_chain c p (bs @ [b])" "rooted p (bs @ [b])" "length (bs @ [b]) \<le> 2 ^ 63"
  shows "ready (db_insert sq b d) \<and> tbl (db_insert sq b d) = map row_of (bs @ [b])"
proof -
  have key: "i < length (bs @ [b]) \<Longrightarrow> fst (row_of ((bs @ [b]) ! i)) = int i" for i by (rule row_key[OF assms(4-6)])
  have "fst (row_of x) < fst (row_of b)" if "x \<in> set bs" for x
  proof -
    from that obtain i where "i < length bs" "x = bs ! i" by (metis in_set_conv_nth)
    with key[of i] key[of "length bs"] show ?thesis by (simp add: nth_append)
  qed
  then have "smap_put (fst (row_of b)) (snd (row_of b)) (tbl d) = map row_of (bs @ [b])"
    unfolding assms(3) by (subst smap_put_last) auto
  with db_insert_row[OF assms(1,2), of b] show ?thesis by simp
qed

lemma insert_next_rows:
  assumes "sqlite_laws sq tbl ready" "valid_chain c p bs" "rooted p bs" "length bs \<le> 2 ^ 63"
    and "ready d" "tbl d = map row_of (take n bs)" "n \<le> m" "m \<le> length bs"
  shows "ready (fold (\<lambda>h d. db_insert sq (bs ! h) d) [n..<m] d) \<and>
    tbl (fold (\<lambda>h d. db_insert sq (bs ! h) d) [n..<m] d) = map row_of (take m bs)"
  using assms(7,8)
proof (induction m rule: dec_induct)
  case (step m)
  have "take (Suc m) bs = take m bs @ [bs ! m]" using step by (simp add: take_Suc_conv_app_nth)
  moreover have "valid_chain c p (take (Suc m) bs)" "rooted p (take (Suc m) bs)"
    using assms(2,3) by (simp_all add: valid_chain_take) (metis append_take_drop_id rooted_append)
  moreover have "length (take (Suc m) bs) \<le> 2 ^ 63" using assms(4) by simp
  ultimately show ?case using step insert_next_row[OF assms(1), where bs = "take m bs" and b = "bs ! m" and c = c and p = p]
    by simp
qed (use assms in simp)

subsection \<open>The table mirrors the chain\<close>

definition mirrors :: "('d \<Rightarrow> (int, bytes) smap) \<Rightarrow> ('d \<Rightarrow> bool) \<Rightarrow> 'd pchain \<Rightarrow> bool" where
  "mirrors tbl ready ch \<longleftrightarrow> persisting ch \<and>
     (case cdb ch of None \<Rightarrow> False | Some d \<Rightarrow> ready d \<and> tbl d = map row_of (blocks ch))"

lemma mirrors_connect:
  assumes "sqlite_laws (esq E) tbl ready" "chain_ok (ecng E) ch" "mirrors tbl ready ch"
    and "accepts E now ch b" "block_arrays b" "rooted (cparams ch) (blocks ch @ [b])" "length (blocks ch) < 2 ^ 63"
  shows "mirrors tbl ready (connected E b ch)"
proof -
  from assms(3) obtain d where d: "cdb ch = Some d" "ready d" "tbl d = map row_of (blocks ch)" "persisting ch"
    by (auto simp: mirrors_def split: option.splits)
  have "valid_chain (ecng E) (cparams ch) (blocks ch @ [b])"
    using chain_ok_connected[OF assms(2,4,5)] by (simp add: chain_ok_def chain_simps)
  from insert_next_row[OF assms(1) d(2,3) this assms(6)] assms(7) d show ?thesis
    by (simp add: mirrors_def chain_simps)
qed

lemma rooted_by_hash:
  assumes "valid_chain c p bs" "inj_on sha256d M" "insert (genesis_msg p) (chain_msgs bs) \<subseteq> M"
  shows "rooted p bs"
proof (cases bs)
  case (Cons b bs')
  then show ?thesis
    using valid_chain_hd[OF assms(1)] genesis_unique[OF assms(2), of p b] assms(3) by (auto simp: rooted_def chain_msgs_def)
qed (simp add: rooted_def)

lemma same_prefix_blocks:
  assumes "valid_chain c p bs" "valid_chain c p cs" "length bs \<le> 2 ^ 64" "length cs \<le> 2 ^ 64"
    and inj: "inj_on sha256d (insert (genesis_msg p) (chain_msgs bs \<union> chain_msgs cs))"
    and n: "n \<le> length bs" "n \<le> length cs"
    and eq: "take n (map (\<lambda>b. header_hash (hdr b)) bs) = take n (map (\<lambda>b. header_hash (hdr b)) cs)"
  shows "take n bs = take n cs"
proof (cases n)
  case (Suc k)
  have last: "last (take n xs) = xs ! k" if "n \<le> length xs" for xs :: "block list"
    using that Suc by (simp add: take_Suc_conv_app_nth)
  have sub: "chain_msgs (take n xs) \<subseteq> chain_msgs xs" for xs
    using set_take_subset[of n xs] unfolding chain_msgs_def by (intro Un_mono image_mono UN_mono) auto
  show ?thesis
  proof (rule tip_determines_chain[OF valid_chain_take valid_chain_take _ _ _ _ inj])
    show "header_hash (hdr (last (take n bs))) = header_hash (hdr (last (take n cs)))"
      using arg_cong[OF eq, of "\<lambda>xs. xs ! k"] Suc n last[of bs] last[of cs] by simp
  qed (use assms Suc sub[of bs] sub[of cs] in auto)
qed simp

lemma mirrors_replace:
  assumes laws: "sqlite_laws (esq E) tbl ready" and ch: "chain_ok (ecng E) ch" and mir: "mirrors tbl ready ch"
    and arr: "list_all block_arrays cand" and r: "try_replace E clk cand ch = (Inr fork, ch')"
    and len: "length (blocks ch) < 2 ^ 63" "length cand < 2 ^ 63"
    and inj: "inj_on sha256d (insert (genesis_msg (cparams ch)) (chain_msgs (blocks ch) \<union> chain_msgs cand))"
  shows "mirrors tbl ready ch'"
proof -
  note ok = try_replace_ok[OF ch arr r]
  from mir obtain d where d: "cdb ch = Some d" "ready d" "tbl d = map row_of (blocks ch)" "persisting ch"
    by (auto simp: mirrors_def split: option.splits)
  have h: "hashes ch = map (\<lambda>b. header_hash (hdr b)) (blocks ch)" "hashes ch' = map (\<lambda>b. header_hash (hdr b)) cand"
    using ch ok(1,2) by (simp_all add: chain_ok_def)
  let ?n = "length (blocks ch)" and ?sq = "esq E"
  have f: "fork \<le> length (blocks ch)" "fork \<le> length cand" using ok(6) common_prefix_le[of "hashes ch" "hashes ch'"] h by simp_all
  have vc: "valid_chain (ecng E) (cparams ch) (blocks ch)" using ch by (simp add: chain_ok_def)
  have root: "rooted (cparams ch) (blocks ch)" "rooted (cparams ch) cand"
    by (rule rooted_by_hash[OF vc inj]; auto) (rule rooted_by_hash[OF ok(8) inj]; auto)
  have eq: "take fork (blocks ch) = take fork cand"
    using common_prefix_take[of "hashes ch" "hashes ch'"] len f
    by (intro same_prefix_blocks[OF vc ok(8) _ _ inj]) (simp_all add: h ok(6))
  define d1 where "d1 = snd (db_exec ?sq ''BEGIN IMMEDIATE'' d)"
  define d2 where "d2 = db_truncate_from ?sq (of_nat fork) d1"
  define d3 where "d3 = fold (\<lambda>h d. db_insert ?sq (cand ! h) d) [fork..<length cand] d2"
  define d4 where "d4 = snd (db_exec ?sq ''COMMIT'' d3)"
  have d1: "ready d1" "tbl d1 = map row_of (blocks ch)" using housekeeping_exec[OF laws d(2)] d(3) by (simp_all add: d1_def)
  have "sint (of_nat fork :: u64) = int fork" using f len by (intro sint_of_nat_u64) simp
  then have d2: "ready d2" "tbl d2 = map row_of (take fork cand)"
    using db_truncate_rows[OF laws d1(1), of "of_nat fork"] rows_below[OF vc root(1) _ f(1)] len eq
    by (simp_all add: d2_def d1(2))
  have d3: "ready d3" "tbl d3 = map row_of cand"
    using insert_next_rows[OF laws ok(8) root(2) _ d2 f(2) order_refl] len by (simp_all add: d3_def)
  have d4: "ready d4" "tbl d4 = map row_of cand" using housekeeping_exec[OF laws d3(1)] d3(2) by (simp_all add: d4_def)
  have "cdb ch' = Some d4"
    using r d ok(2,6) h unfolding d4_def d3_def d2_def d1_def
    by (auto simp: try_replace_def Let_def split: if_splits prod.splits option.splits)
  with d4 ok(2,5) d(4) show ?thesis by (simp add: mirrors_def)
qed

subsection \<open>What init recovers\<close>

text \<open>The load loop keeps the longest prefix of rows that parse and connect.\<close>

lemma load_rows_spec:
  assumes "chain_ok (ecng E) ch" "\<not> persisting ch" "load_rows E clk i raws ch = (j, ch')"
  shows "\<exists>bs. i \<le> j \<and> j - i \<le> length raws \<and> take (j - i) raws = map block_serialize bs \<and> list_all block_ok bs \<and>
    blocks ch' = blocks ch @ bs \<and> chain_ok (ecng E) ch' \<and> cparams ch' = cparams ch \<and> cdb ch' = cdb ch \<and>
    \<not> persisting ch' \<and> accepts_all (ecng E) (cparams ch) clk i (blocks ch) bs \<and>
    (j - i < length raws \<longrightarrow> (case block_parse (raws ! (j - i)) of None \<Rightarrow> True | Some b \<Rightarrow> \<not> accepts E (clk j) ch' b))"
  using assms
proof (induction raws arbitrary: i ch)
  case (Cons raw raws)
  have stop: ?case if "j = i" "ch' = ch" "case block_parse raw of None \<Rightarrow> True | Some b \<Rightarrow> \<not> accepts E (clk i) ch b"
    using that(3) Cons.prems(1,2) unfolding that(1,2) by (intro exI[of _ "[]"]) simp
  show ?case
  proof (cases "block_parse raw")
    case None
    with stop Cons.prems(3) show ?thesis by simp
  next
    case (Some b)
    then have b: "block_ok b" "raw = block_serialize b" by (simp_all add: block_parse_Some_iff)
    show ?thesis
    proof (cases "accepts E (clk i) ch b")
      case False
      then obtain e where e: "fst (connect_block E (clk i) b ch) = Some e"
        using connect_block_ok_iff[OF Cons.prems(1)] by blast
      with connect_block_err[OF e] have "connect_block E (clk i) b ch = (Some e, ch)" by (simp add: prod_eq_iff)
      with stop Some False Cons.prems(3) show ?thesis by simp
    next
      case True
      with Cons.prems(3) Some Cons.prems(1) have rest: "load_rows E clk (Suc i) raws (connected E b ch) = (j, ch')"
        by (simp add: connect_block_ok)
      have "chain_ok (ecng E) (connected E b ch)" using Cons.prems(1) True b(1) by (simp add: chain_ok_connected block_ok_arrays)
      from Cons.IH[OF this _ rest] Cons.prems(2) obtain bs where
        IH: "Suc i \<le> j" "j - Suc i \<le> length raws" "take (j - Suc i) raws = map block_serialize bs" "list_all block_ok bs"
          "blocks ch' = (blocks ch @ [b]) @ bs" "chain_ok (ecng E) ch'" "cparams ch' = cparams ch" "cdb ch' = cdb ch"
          "\<not> persisting ch'" "accepts_all (ecng E) (cparams ch) clk (Suc i) (blocks ch @ [b]) bs"
          "j - Suc i < length raws \<longrightarrow> (case block_parse (raws ! (j - Suc i)) of None \<Rightarrow> True | Some b \<Rightarrow> \<not> accepts E (clk j) ch' b)"
        by (auto simp: chain_simps)
      have j: "j - i = Suc (j - Suc i)" using IH(1) by linarith
      show ?thesis using IH True b j by (intro exI[of _ "b # bs"]) (simp add: accepts_def split: if_splits)
    qed
  qed
qed (intro exI[of _ "[]"], simp)

lemma map_serialize_inj: "list_all block_ok bs \<Longrightarrow> list_all block_ok cs \<Longrightarrow> map block_serialize bs = map block_serialize cs \<Longrightarrow> bs = cs"
proof (induction bs arbitrary: cs)
  case (Cons b bs)
  then obtain d cs' where cs: "cs = d # cs'" "block_serialize b = block_serialize d" by auto
  with Cons.prems have "b = d" by (metis block_parse_Some_iff list.pred_inject(2) option.inject)
  with Cons cs show ?case by simp
qed simp

text \<open>Loading the rows of a chain rebuilds it, if the clock has not gone back past its timestamps.\<close>

lemma load_rows_complete:
  assumes "chain_ok (ecng E) ch" "\<not> persisting ch" "list_all block_ok bs"
    and "accepts_all (ecng E) (cparams ch) clk i (blocks ch) bs"
  shows "fst (load_rows E clk i (map block_serialize bs) ch) = i + length bs"
  using assms
proof (induction bs arbitrary: i ch)
  case (Cons b bs)
  from Cons.prems have a: "accepts E (clk i) ch b" and b: "block_parse (block_serialize b) = Some b" "block_arrays b"
    by (auto simp: accepts_def block_parse_Some_iff block_ok_arrays split: if_splits)
  have "chain_ok (ecng E) (connected E b ch)" using Cons.prems(1) a b by (simp add: chain_ok_connected)
  with Cons.IH[of "connected E b ch" "Suc i"] Cons.prems a b show ?case
    by (simp add: connect_block_ok chain_simps)
qed simp

lemma accepts_db [simp]:
  "accepts E now (ch\<lparr>cdb := d\<rparr>) b = accepts E now ch b" "accepts E now (ch\<lparr>persisting := q\<rparr>) b = accepts E now ch b"
  by (simp_all add: accepts_def)

lemma init_load_spec:
  assumes laws: "sqlite_laws (esq E) tbl ready" and d: "tbl d = rows"
  shows "\<exists>good d' bs ch'. init_load E clk d (new_chain p) = (None, ch') \<and> chain_ok (ecng E) ch' \<and> blocks ch' = bs \<and>
    good = length bs \<and> cparams ch' = p \<and> persisting ch' \<and> cdb ch' = Some d' \<and> ready d' \<and>
    map snd (take good rows) = map block_serialize bs \<and> list_all block_ok bs \<and>
    fst (load_rows E clk 0 (map snd rows) ((new_chain p)\<lparr>cdb := Some (snd (exec_all (esq E) init_schema d)), persisting := False\<rparr>)) = good \<and>
    tbl d' = (if good < length rows then below (sint (of_nat good :: u64)) rows else rows) \<and>
    (good < length rows \<longrightarrow> (\<forall>b. block_parse (snd (rows ! good)) = Some b \<longrightarrow> \<not> accepts E (clk good) ch' b))"
proof -
  define d1 where "d1 = snd (exec_all (esq E) init_schema d)"
  have ex: "exec_all (esq E) init_schema d = (True, d1)" "tbl d1 = rows" "ready d1"
    using exec_schema[OF laws, of init_schema d] sqlite_lawsD(5)[OF laws, of d] d
    by (auto simp: d1_def housekeeping_def prod_eq_iff)
  have q: "St (esq E) d1 sql_select_raw \<noteq> None" using sqlite_lawsD(6)[OF laws ex(3)] by (simp add: St_def statements_def)
  have raws: "map col_blob (sq_blobs (esq E) sql_select_raw d1) = map snd rows"
    using sqlite_lawsD(12)[OF laws ex(3)] by (auto simp: ex(2) col_blob_def)
  let ?ch = "(new_chain p)\<lparr>cdb := Some d1, persisting := False\<rparr>"
  obtain good ch' where l: "load_rows E clk 0 (map snd rows) ?ch = (good, ch')" by (metis surj_pair)
  have "chain_ok (ecng E) ?ch" "\<not> persisting ?ch" by simp_all
  from load_rows_spec[OF this l] obtain bs where bs: "take good (map snd rows) = map block_serialize bs"
    "list_all block_ok bs" "blocks ch' = bs" "chain_ok (ecng E) ch'" "cparams ch' = p" "cdb ch' = Some d1" "good \<le> length rows"
    "good < length rows \<longrightarrow> (\<forall>b. block_parse (snd (rows ! good)) = Some b \<longrightarrow> \<not> accepts E (clk good) ch' b)"
    by (auto split: option.splits)
  have good: "good = length bs" using arg_cong[OF bs(1), of length] bs(7) by simp
  define d2 where "d2 = db_truncate_from (esq E) (of_nat good) (snd (db_exec (esq E) ''BEGIN IMMEDIATE'' d1))"
  have d2: "ready d2" "tbl d2 = below (sint (of_nat good :: u64)) rows"
    using housekeeping_exec[OF laws ex(3), of "''BEGIN IMMEDIATE''"] ex(2)
      db_truncate_rows[OF laws, of "snd (db_exec (esq E) ''BEGIN IMMEDIATE'' d1)" "of_nat good"] by (simp_all add: d2_def)
  define d3 where "d3 = (if good < length rows then snd (db_exec (esq E) ''COMMIT'' d2) else d1)"
  have d3: "ready d3" "tbl d3 = (if good < length rows then below (sint (of_nat good :: u64)) rows else rows)"
    using housekeeping_exec[OF laws d2(1), of "''COMMIT''"] d2(2) ex by (simp_all add: d3_def)
  have "init_load E clk d (new_chain p) = (None, ch'\<lparr>persisting := True, cdb := Some d3\<rparr>)"
    using ex(1) q raws l bs(6) by (auto simp: init_load_def Let_def d3_def d2_def)
  moreover have "fst (load_rows E clk 0 (map snd rows) ?ch) = good" by (simp add: l)
  ultimately show ?thesis using bs good d3 unfolding d1_def[symmetric]
    by (intro exI[of _ good] exI[of _ d3] exI[of _ bs] exI[of _ "ch'\<lparr>persisting := True, cdb := Some d3\<rparr>"])
      (simp add: take_map)
qed

text \<open>Rows whose keys count from 0, as the node writes them, whatever their blobs hold.\<close>

definition numbered :: "(int, bytes) smap \<Rightarrow> bool" where
  "numbered rows \<longleftrightarrow> map fst rows = map int [0..<length rows]"

lemma numbered_below:
  assumes "numbered rows" "n \<le> length rows"
  shows "below (int n) rows = take n rows"
proof -
  have k: "fst (rows ! i) = int i" if "i < length rows" for i
    using arg_cong [OF assms(1) [unfolded numbered_def], of "\<lambda>xs. xs ! i"] that by simp
  have lo: "fst r < int n" if r: "r \<in> set (take n rows)" for r
  proof -
    obtain i where "i < n" "r = rows ! i" using r by (auto simp: in_set_conv_nth simp del: split_paired_Ex)
    then show ?thesis using k assms(2) by simp
  qed
  have hi: "\<not> fst r < int n" if r: "r \<in> set (drop n rows)" for r
  proof -
    obtain i where "i < length rows - n" "r = rows ! (n + i)" using r by (auto simp: in_set_conv_nth simp del: split_paired_Ex)
    then show ?thesis using k [of "n + i"] by simp
  qed
  have "below (int n) (take n rows) = take n rows" using lo by (simp add: below_def filter_id_conv)
  moreover have "below (int n) (drop n rows) = []" using hi by (simp add: below_def filter_empty_conv)
  moreover have "below (int n) rows = below (int n) (take n rows) @ below (int n) (drop n rows)"
    unfolding below_def filter_append [symmetric] by simp
  ultimately show ?thesis by simp
qed

lemma numbered_rows_of:
  assumes "numbered rows" "n \<le> length rows" "map snd (take n rows) = map block_serialize bs"
    and "valid_chain c p bs" "rooted p bs" "length bs \<le> 2 ^ 63"
  shows "take n rows = map row_of bs"
proof (rule nth_equalityI)
  show len: "length (take n rows) = length (map row_of bs)" using arg_cong [OF assms(3), of length] by simp
  fix i assume i: "i < length (take n rows)"
  then have ib: "i < length bs" unfolding len by simp
  from i have "fst (take n rows ! i) = fst (row_of (bs ! i))"
    using row_key [OF assms(4-6) ib] arg_cong [OF assms(1) [unfolded numbered_def], of "\<lambda>xs. xs ! i"] by simp
  moreover have "snd (take n rows ! i) = snd (row_of (bs ! i))"
    using arg_cong [OF assms(3), of "\<lambda>xs. xs ! i"] i ib by (simp add: row_of_def)
  ultimately show "take n rows ! i = map row_of bs ! i" using i ib by (simp add: prod_eq_iff)
qed

text \<open>
  A damaged table: \<^verbatim>\<open>init\<close> keeps the longest prefix of blocks that parse and are accepted in turn (the
  genesis block if there is none) and cuts the table back to it.
\<close>

lemma init_recovers:
  assumes laws: "sqlite_laws (esq E) tbl ready" and d: "tbl d = rows" "numbered rows" "length rows < 2 ^ 63"
  shows "\<exists>bs ch'. chain_init E clk now (Some d) (new_chain p) = (None, ch') \<and> chain_ok (ecng E) ch' \<and> cparams ch' = p \<and>
    blocks ch' = (if bs = [] then [make_genesis p] else bs) \<and> length bs \<le> length rows \<and>
    map snd (take (length bs) rows) = map block_serialize bs \<and>
    (length bs < length rows \<longrightarrow> (\<forall>b. block_parse (snd (rows ! length bs)) = Some b \<longrightarrow>
       \<not> (if bs = [] then genesis_ok p b else extends_ok (ecng E) p bs b \<and> clock_ok (clk (length bs)) b))) \<and>
    (mirrors tbl ready ch' \<or> collision (insert (genesis_msg p) (chain_msgs bs)))"
proof -
  from init_load_spec [OF laws d(1), of clk p] obtain d' bs ch where
    i: "init_load E clk d (new_chain p) = (None, ch)" "chain_ok (ecng E) ch" "blocks ch = bs" "cparams ch = p"
      "persisting ch" "cdb ch = Some d'" "ready d'" "map snd (take (length bs) rows) = map block_serialize bs"
      "tbl d' = (if length bs < length rows then below (sint (of_nat (length bs) :: u64)) rows else rows)"
      "length bs < length rows \<longrightarrow> (\<forall>b. block_parse (snd (rows ! length bs)) = Some b \<longrightarrow> \<not> accepts E (clk (length bs)) ch b)"
    by auto
  have len: "length bs \<le> length rows" using arg_cong [OF i(8), of length] by simp
  have rows: "tbl d' = take (length bs) rows"
    using i(9) len d(3) numbered_below [OF d(2) len] by (simp add: sint_of_nat_u64)
  have v: "valid_chain (ecng E) p bs" using i by (simp add: chain_ok_def)
  have mir: "mirrors tbl ready ch" if "\<not> collision (insert (genesis_msg p) (chain_msgs bs))"
    using numbered_rows_of [OF d(2) len i(8) v rooted_by_hash [OF v that [unfolded not_collision_iff] subset_refl]] len d(3) i rows
    by (simp add: mirrors_def)
  have stop: "length bs < length rows \<longrightarrow> (\<forall>b. block_parse (snd (rows ! length bs)) = Some b \<longrightarrow>
       \<not> (if bs = [] then genesis_ok p b else extends_ok (ecng E) p bs b \<and> clock_ok (clk (length bs)) b))"
  proof -
    have "accepts E (clk (length bs)) ch =
        (\<lambda>b. if bs = [] then genesis_ok p b else extends_ok (ecng E) p bs b \<and> clock_ok (clk (length bs)) b)"
      using i(3,4) by (simp add: accepts_def fun_eq_iff)
    then show ?thesis using i(10) by simp
  qed
  show ?thesis
  proof (cases "bs = []")
    case True
    let ?g = "make_genesis p"
    have a: "accepts E now ch ?g" using i True by (simp add: accepts_def genesis_ok_def genesis_arrays)
    have "chain_init E clk now (Some d) (new_chain p) = (None, connected E ?g ch)"
      using i True connect_block_ok [OF i(2) a] by (simp add: chain_init_def)
    moreover have "mirrors tbl ready (connected E ?g ch)" if "\<not> collision (insert (genesis_msg p) (chain_msgs bs))"
      using mirrors_connect [OF laws i(2) mir [OF that] a genesis_arrays(1)] i True by (simp add: rooted_def)
    ultimately show ?thesis using True stop len i chain_ok_connected [OF i(2) a genesis_arrays(1)]
      by (intro exI [of _ "[]"] exI [of _ "connected E ?g ch"]) (auto simp: chain_simps)
  next
    case False
    then show ?thesis using i stop len mir by (intro exI [of _ bs] exI [of _ ch]) (auto simp: chain_init_def)
  qed
qed

lemma restart_restores:
  assumes laws: "sqlite_laws (esq E) tbl ready" and ch: "chain_ok (ecng E) ch" and mir: "mirrors tbl ready ch"
    and ne: "blocks ch \<noteq> []" and d: "cdb ch = Some d"
    and clk: "\<And>k. 0 < k \<Longrightarrow> k < length (blocks ch) \<Longrightarrow> clock_ok (clk k) (blocks ch ! k)"
  shows "\<exists>ch'. chain_init E clk now (Some d) (new_chain (cparams ch)) = (None, ch') \<and> blocks ch' = blocks ch \<and>
    hashes ch' = hashes ch \<and> cstate ch' = cstate ch \<and> txidx ch' = txidx ch \<and> work ch' = work ch \<and>
    chain_ok (ecng E) ch' \<and> mirrors tbl ready ch'"
proof -
  let ?bs = "blocks ch" and ?p = "cparams ch"
  let ?ch0 = "(new_chain ?p)\<lparr>cdb := Some (snd (exec_all (esq E) init_schema d)), persisting := False\<rparr>"
  have vc: "valid_chain (ecng E) ?p ?bs" using ch by (simp add: chain_ok_def)
  have ok: "list_all block_ok ?bs" using valid_chain_block_ok[OF vc] by (simp add: list_all_iff)
  have rows: "tbl d = map row_of ?bs" using mir d by (simp add: mirrors_def)
  from init_load_spec[OF laws rows, of clk ?p] obtain good d' ch' where
    i: "init_load E clk d (new_chain ?p) = (None, ch')" "chain_ok (ecng E) ch'" "good = length (blocks ch')" "cparams ch' = ?p"
      "persisting ch'" "cdb ch' = Some d'" "ready d'"
      "map snd (take good (map row_of ?bs)) = map block_serialize (blocks ch')" "list_all block_ok (blocks ch')"
      "fst (load_rows E clk 0 (map snd (map row_of ?bs)) ?ch0) = good"
      "tbl d' = (if good < length ?bs then below (sint (of_nat good :: u64)) (map row_of ?bs) else map row_of ?bs)"
    by auto
  have "accepts_all (ecng E) ?p clk 0 [] ?bs"
    using accepts_all_iff[OF valid_chain.empty, of ?bs "ecng E" ?p clk 0] ok vc clk block_ok_arrays
    by (auto simp: list_all_iff)
  then have "fst (load_rows E clk 0 (map block_serialize ?bs) ?ch0) = length ?bs"
    using load_rows_complete[of E ?ch0 ?bs clk 0] ok by simp
  with i(10) have good: "good = length ?bs" by (simp add: comp_def row_of_def)
  with i(8) have "map block_serialize (blocks ch') = map block_serialize ?bs" by (simp add: comp_def row_of_def)
  with ok i(9) have bs: "blocks ch' = ?bs" by (simp add: map_serialize_inj)
  have "chain_init E clk now (Some d) (new_chain ?p) = (None, ch')" using i(1) bs ne by (simp add: chain_init_def)
  with bs i ch good show ?thesis by (auto simp: chain_ok_def mirrors_def)
qed

end
