(* ===== verification/Mempool.thy ===== *)
theory Mempool
  imports ChainFacts
begin

text \<open>
  \<^verbatim>\<open>src/core.h\<close>, class \<^verbatim>\<open>Mempool\<close>: pending transactions keyed by (sender, nonce), and the set of
  their ids.

  \<open>collect\<close> is written over any ledger step; the locale \<open>ledger_step\<close> states what it needs of
  \<^verbatim>\<open>apply_tx\<close> (a failing call changes nothing an observer of the accounts can see, a
  successful one is a function of what can be seen) and shows that whatever \<open>collect\<close> picks
  runs without error.  Lemmas: the pool invariant and that every operation keeps it, what
  \<open>add\<close> admits, that \<open>collect\<close> ends, respects its bound and leaves nothing includable behind.
\<close>

record mempool =
  pm :: "(addr20 \<times> u64, tx) smap"
  pids :: "h256 set"

definition mempool0 :: mempool where
  "mempool0 = \<lparr>pm = [], pids = {}\<rparr>"

datatype pool_error =
    CoinbaseNotAllowed
  | PoolWrongNetwork
  | MempoolFull
  | AlreadyInMempool
  | PoolMissingSender
  | PoolBadSignature
  | NonceAlreadyUsed
  | NonceTooFar
  | PoolInsufficientBalance
  | PoolTransferPayload
  | PoolRecordAmount
  | PoolBadPayloadSize
  | PoolUnknownType
  | ConflictingTx

text \<open>\<^verbatim>\<open>it == st.end() ? 0 : it->second.nonce\<close> (and \<^verbatim>\<open>.balance\<close>).\<close>

definition find_nonce :: "addr20 \<Rightarrow> state \<Rightarrow> u64" where
  "find_nonce a st = (case smap_find st a of None \<Rightarrow> 0 | Some x \<Rightarrow> nonce x)"

definition find_balance :: "addr20 \<Rightarrow> state \<Rightarrow> u64" where
  "find_balance a st = (case smap_find st a of None \<Rightarrow> 0 | Some x \<Rightarrow> balance x)"

definition pool_add :: "'k cng \<Rightarrow> tx \<Rightarrow> state \<Rightarrow> params \<Rightarrow> mempool \<Rightarrow> pool_error option \<times> mempool" where
  "pool_add c t st p m =
     (if tx_type t = TX_COINBASE then (Some CoinbaseNotAllowed, m)
      else if tx_net_id t \<noteq> p_net_id p then (Some PoolWrongNetwork, m)
      else if length (pm m) \<ge> 10000 then (Some MempoolFull, m)
      else let id = txid t in
      if id \<in> pids m then (Some AlreadyInMempool, m)
      else if is_zero (tx_from t) then (Some PoolMissingSender, m)
      else if \<not> sig_verify c (tx_from t) (sign_hash t) (tx_sig t) then (Some PoolBadSignature, m)
      else let a = addr_of (tx_from t); cur = find_nonce a st in
      if tx_nonce t < cur then (Some NonceAlreadyUsed, m)
      else if tx_nonce t > cur + 16 then (Some NonceTooFar, m)
      else case
        (if tx_type t = TX_TRANSFER then
           (if tx_nonce t = cur \<and> find_balance a st < tx_amount t then Some PoolInsufficientBalance
            else if tx_payload t \<noteq> [] then Some PoolTransferPayload else None)
         else if tx_type t = TX_RECORD then
           (if tx_amount t \<noteq> 0 then Some PoolRecordAmount
            else if tx_payload t = [] \<or> length (tx_payload t) > MAX_PAYLOAD then Some PoolBadPayloadSize else None)
         else Some PoolUnknownType) of
        Some e \<Rightarrow> (Some e, m)
      | None \<Rightarrow>
          (if smap_find (pm m) (a, tx_nonce t) \<noteq> None then (Some ConflictingTx, m)
           else (None, m\<lparr>pm := smap_put (a, tx_nonce t) t (pm m), pids := insert id (pids m)\<rparr>)))"

text \<open>
  One pass of the \<^verbatim>\<open>for\<close> loop over the entries: state copy, picked transactions, \<^verbatim>\<open>progress\<close>.
  \<open>cur\<close> reads a nonce, \<open>step\<close> tries a transaction.
\<close>

fun collect_pass :: "('s \<Rightarrow> addr20 \<Rightarrow> u64) \<Rightarrow> ('s \<Rightarrow> tx \<Rightarrow> 'e option \<times> 's) \<Rightarrow> nat
    \<Rightarrow> ((addr20 \<times> u64) \<times> tx) list \<Rightarrow> 's \<times> tx list \<times> bool \<Rightarrow> 's \<times> tx list \<times> bool" where
  "collect_pass cur step maxn [] acc = acc"
| "collect_pass cur step maxn (((a, n), t) # es) (tmp, out, progress) =
     (if n \<noteq> cur tmp a then collect_pass cur step maxn es (tmp, out, progress)
      else case step tmp t of
        (None, tmp) \<Rightarrow>
          (let out = out @ [t] in
           if length out \<ge> maxn then (tmp, out, True) else collect_pass cur step maxn es (tmp, out, True))
      | (Some _, tmp) \<Rightarrow> collect_pass cur step maxn es (tmp, out, progress))"

lemma collect_pass_grows:
  "collect_pass cur step maxn es (tmp, out, progress) = (tmp', out', progress') \<Longrightarrow>
     length out \<le> length out' \<and> (progress' \<longrightarrow> progress \<or> length out < length out')"
proof (induction es arbitrary: tmp out progress)
  case (Cons e es)
  obtain a n t where e: "e = ((a, n), t)" by (metis surj_pair)
  show ?case
  proof (cases "n = cur tmp a")
    case False
    with Cons.prems Cons.IH[of tmp out progress] e show ?thesis by simp
  next
    case True
    obtain err tmp1 where s: "step tmp t = (err, tmp1)" by force
    show ?thesis
    proof (cases err)
      case None
      with Cons.prems Cons.IH[of tmp1 "out @ [t]" True] s e True show ?thesis by (auto simp: Let_def split: if_splits)
    next
      case (Some x)
      with Cons.prems Cons.IH[of tmp1 out progress] s e True show ?thesis by simp
    qed
  qed
qed simp

lemma collect_pass_progress:
  "collect_pass cur step maxn es (tmp, out, False) = (tmp', out', True) \<Longrightarrow> length out < length out'"
  using collect_pass_grows[of cur step maxn es tmp out False] by simp

text \<open>\<^verbatim>\<open>while (progress && out.size() < maxn)\<close>: every further turn has picked a transaction.\<close>

function collect_loop :: "('s \<Rightarrow> addr20 \<Rightarrow> u64) \<Rightarrow> ('s \<Rightarrow> tx \<Rightarrow> 'e option \<times> 's) \<Rightarrow> nat
    \<Rightarrow> ((addr20 \<times> u64) \<times> tx) list \<Rightarrow> 's \<Rightarrow> tx list \<Rightarrow> tx list" where
  "collect_loop cur step maxn es tmp out =
     (if length out < maxn then
        (case collect_pass cur step maxn es (tmp, out, False) of
           (tmp, out, progress) \<Rightarrow> if progress then collect_loop cur step maxn es tmp out else out)
      else out)"
  by pat_completeness auto
termination
  by (relation "measure (\<lambda>(cur, step, maxn, es, tmp, out). maxn - length out)")
    (simp, auto dest!: collect_pass_progress[OF sym])

declare collect_loop.simps [simp del]

definition collect :: "'k cng \<Rightarrow> mempool \<Rightarrow> state \<Rightarrow> params \<Rightarrow> u64 \<Rightarrow> nat \<Rightarrow> tx list" where
  "collect c m base p height maxn =
     collect_loop (\<lambda>st a. find_nonce a st) (\<lambda>st t. apply_tx c st t p height False) maxn (pm m) base []"

text \<open>\<^verbatim>\<open>purge\<close>: the iterator walks the entries in order, erasing those already consumed.\<close>

fun purge_loop :: "state \<Rightarrow> ((addr20 \<times> u64) \<times> tx) list \<Rightarrow> mempool \<Rightarrow> mempool" where
  "purge_loop st [] m = m"
| "purge_loop st (((a, n), t) # es) m =
     (if n < find_nonce a st
      then purge_loop st es (m\<lparr>pids := pids m - {txid t}, pm := smap_erase (a, n) (pm m)\<rparr>)
      else purge_loop st es m)"

definition purge :: "state \<Rightarrow> mempool \<Rightarrow> mempool" where
  "purge st m = purge_loop st (pm m) m"

definition pool_size :: "mempool \<Rightarrow> nat" where
  "pool_size m = length (pm m)"

definition pool_has :: "mempool \<Rightarrow> h256 \<Rightarrow> bool" where
  "pool_has m i \<longleftrightarrow> i \<in> pids m"

fun find_entry :: "h256 \<Rightarrow> ((addr20 \<times> u64) \<times> tx) list \<Rightarrow> tx option" where
  "find_entry i [] = None"
| "find_entry i ((k, t) # es) = (if txid t = i then Some t else find_entry i es)"

definition pool_find :: "mempool \<Rightarrow> h256 \<Rightarrow> tx option" where
  "pool_find m i = find_entry i (pm m)"

subsection \<open>The invariant\<close>

text \<open>What every pending transaction satisfies, whatever the chain state.\<close>

definition pending_ok :: "'k cng \<Rightarrow> params \<Rightarrow> tx \<Rightarrow> bool" where
  "pending_ok c p t \<longleftrightarrow> tx_type t \<noteq> TX_COINBASE \<and> tx_static_ok c t p 0 False"

definition pool_ok :: "'k cng \<Rightarrow> params \<Rightarrow> mempool \<Rightarrow> bool" where
  "pool_ok c p m \<longleftrightarrow> smap_ok (pm m) \<and> length (pm m) \<le> 10000 \<and>
     (\<forall>((a, n), t) \<in> set (pm m). a = sender t \<and> n = tx_nonce t \<and> pending_ok c p t) \<and>
     pids m = (\<lambda>e. txid (snd e)) ` set (pm m) \<and> inj_on (\<lambda>e. txid (snd e)) (set (pm m))"

lemma pool_ok_empty [simp]: "pool_ok c p mempool0"
  by (simp add: pool_ok_def mempool0_def)

lemma static_height: "tx_type t \<noteq> TX_COINBASE \<Longrightarrow> tx_static_ok c t p h f = tx_static_ok c t p h' f"
  by (simp add: tx_static_ok_def)

lemma find_st_get: "find_nonce a st = nonce (st_get a st)" "find_balance a st = balance (st_get a st)"
  by (simp_all add: find_nonce_def find_balance_def st_get_def smap_at_def account0_def split: option.split)

lemma pool_add_outcome:
  "fst (pool_add c t st p m) = None \<longleftrightarrow>
     tx_type t \<noteq> TX_COINBASE \<and> tx_static_ok c t p 0 False \<and> length (pm m) < 10000 \<and> txid t \<notin> pids m \<and>
     find_nonce (sender t) st \<le> tx_nonce t \<and> tx_nonce t \<le> find_nonce (sender t) st + 16 \<and>
     (tx_type t = TX_TRANSFER \<longrightarrow> tx_nonce t = find_nonce (sender t) st \<longrightarrow> tx_amount t \<le> find_balance (sender t) st) \<and>
     smap_find (pm m) (sender t, tx_nonce t) = None"
  by (auto simp: pool_add_def tx_static_ok_def sender_def Let_def txtype_defs not_less not_le split: option.splits if_splits)

lemma pool_add_state:
  "snd (pool_add c t st p m) =
     (if fst (pool_add c t st p m) = None
      then m\<lparr>pm := smap_put (sender t, tx_nonce t) t (pm m), pids := insert (txid t) (pids m)\<rparr> else m)"
  by (simp add: pool_add_def sender_def Let_def split: option.split)

lemma pool_ok_add:
  assumes "pool_ok c p m"
  shows "pool_ok c p (snd (pool_add c t st p m))"
proof (cases "fst (pool_add c t st p m)")
  case None
  note ok = None[unfolded pool_add_outcome]
  let ?k = "(sender t, tx_nonce t)"
  have m: "smap_ok (pm m)" and inj: "inj_on (\<lambda>e. txid (snd e)) (set (pm m))"
    and ids: "pids m = (\<lambda>e. txid (snd e)) ` set (pm m)" using assms by (simp_all add: pool_ok_def)
  have fresh: "?k \<notin> fst ` set (pm m)" using ok sm.find_None_iff[OF m] by blast
  have "fst e \<noteq> ?k" if "e \<in> set (pm m)" for e using fresh that by (metis image_eqI)
  then have "{e \<in> set (pm m). fst e \<noteq> ?k} = set (pm m)" by blast
  then have set: "set (smap_put ?k t (pm m)) = insert (?k, t) (set (pm m))" using set_smap_put[OF m, of ?k t] by simp
  have "inj_on (\<lambda>e. txid (snd e)) (insert (?k, t) (set (pm m)))"
    using inj ok ids by (auto simp: inj_on_insert)
  moreover have "length (smap_put ?k t (pm m)) \<le> 10000" using ok length_smap_put_fresh[OF m, of ?k t] by simp
  ultimately show ?thesis using None assms ok set ids
    by (simp add: pool_add_state pool_ok_def sm.ok_put pending_ok_def)
next
  case (Some e)
  with assms show ?thesis by (simp add: pool_add_state)
qed

lemma purge_loop_eq:
  "distinct (map fst es) \<Longrightarrow> set es \<subseteq> set (pm m) \<Longrightarrow> smap_ok (pm m) \<Longrightarrow>
     pm (purge_loop st es m) = filter (\<lambda>e. e \<notin> set es \<or> \<not> snd (fst e) < find_nonce (fst (fst e)) st) (pm m) \<and>
     pids (purge_loop st es m) = pids m - (\<lambda>e. txid (snd e)) ` {e \<in> set es. snd (fst e) < find_nonce (fst (fst e)) st}"
proof (induction es arbitrary: m)
  case (Cons e es)
  obtain a n t where e: "e = ((a, n), t)" by (metis surj_pair)
  show ?case
  proof (cases "n < find_nonce a st")
    case False
    from Cons e have IH: "pm (purge_loop st es m) = filter (\<lambda>e. e \<notin> set es \<or> \<not> snd (fst e) < find_nonce (fst (fst e)) st) (pm m)"
      "pids (purge_loop st es m) = pids m - (\<lambda>e. txid (snd e)) ` {e \<in> set es. snd (fst e) < find_nonce (fst (fst e)) st}" by simp_all
    have "filter (\<lambda>e. e \<notin> set es \<or> \<not> snd (fst e) < find_nonce (fst (fst e)) st) (pm m) =
        filter (\<lambda>x. x \<notin> set (e # es) \<or> \<not> snd (fst x) < find_nonce (fst (fst x)) st) (pm m)"
      using False e by (intro filter_cong) auto
    moreover have "{x \<in> set (e # es). snd (fst x) < find_nonce (fst (fst x)) st} = {x \<in> set es. snd (fst x) < find_nonce (fst (fst x)) st}"
      using False e by auto
    ultimately show ?thesis using IH False e by simp
  next
    case True
    let ?m = "m\<lparr>pids := pids m - {txid t}, pm := smap_erase (a, n) (pm m)\<rparr>"
    have dk: "distinct (map fst (pm m))" using Cons.prems(3) by (rule smap_ok_distinct)
    have sub: "set es \<subseteq> set (pm ?m)" using Cons.prems(1,2) e by (force simp: smap_erase_def)
    from Cons.IH[of ?m] Cons.prems sub
    have IH: "pm (purge_loop st es ?m) = filter (\<lambda>e. e \<notin> set es \<or> \<not> snd (fst e) < find_nonce (fst (fst e)) st) (smap_erase (a, n) (pm m))"
      "pids (purge_loop st es ?m) = pids m - {txid t} - (\<lambda>e. txid (snd e)) ` {e \<in> set es. snd (fst e) < find_nonce (fst (fst e)) st}"
      by (simp_all add: sm.ok_erase)
    have uniq: "x = e" if "x \<in> set (pm m)" "fst x = (a, n)" for x
      using that Cons.prems(2) e dk by (metis (mono_tags) eq_key_imp_eq_value list.set_intros(1) prod.collapse subsetD)
    have "filter (\<lambda>e. e \<notin> set es \<or> \<not> snd (fst e) < find_nonce (fst (fst e)) st) (smap_erase (a, n) (pm m)) =
        filter (\<lambda>x. x \<notin> set (e # es) \<or> \<not> snd (fst x) < find_nonce (fst (fst x)) st) (pm m)"
      unfolding smap_erase_def filter_filter
    proof (rule filter_cong[OF refl])
      fix x assume "x \<in> set (pm m)"
      with uniq[of x] True e show "(fst x \<noteq> (a, n) \<and> (x \<notin> set es \<or> \<not> snd (fst x) < find_nonce (fst (fst x)) st)) =
          (x \<notin> set (e # es) \<or> \<not> snd (fst x) < find_nonce (fst (fst x)) st)"
        by (cases "x = e") auto
    qed
    moreover have "{x \<in> set (e # es). snd (fst x) < find_nonce (fst (fst x)) st} = insert e {x \<in> set es. snd (fst x) < find_nonce (fst (fst x)) st}"
      using True e by auto
    ultimately show ?thesis using IH True e by (simp add: set_diff_eq)
  qed
qed simp

lemma purge_entries:
  assumes "pool_ok c p m"
  shows "pm (purge st m) = filter (\<lambda>((a, n), t). find_nonce a st \<le> n) (pm m)"
    "pids (purge st m) = (\<lambda>e. txid (snd e)) ` set (pm (purge st m))"
proof -
  have m: "smap_ok (pm m)" and inj: "inj_on (\<lambda>e. txid (snd e)) (set (pm m))"
    and ids: "pids m = (\<lambda>e. txid (snd e)) ` set (pm m)" using assms by (simp_all add: pool_ok_def)
  note eq = purge_loop_eq[OF smap_ok_distinct[OF m] subset_refl m, of st]
  show pm: "pm (purge st m) = filter (\<lambda>((a, n), t). find_nonce a st \<le> n) (pm m)"
    using eq by (auto simp: purge_def not_less intro!: filter_cong)
  have "pids (purge st m) = (\<lambda>e. txid (snd e)) ` (set (pm m) - {e \<in> set (pm m). snd (fst e) < find_nonce (fst (fst e)) st})"
    using eq inj by (simp add: purge_def ids inj_on_image_set_diff)
  also have "set (pm m) - {e \<in> set (pm m). snd (fst e) < find_nonce (fst (fst e)) st} = set (pm (purge st m))"
    by (auto simp: pm not_less)
  finally show "pids (purge st m) = (\<lambda>e. txid (snd e)) ` set (pm (purge st m))" .
qed

lemma pool_ok_purge:
  assumes "pool_ok c p m"
  shows "pool_ok c p (purge st m)"
proof -
  have sub: "set (pm (purge st m)) \<subseteq> set (pm m)" and len: "length (pm (purge st m)) \<le> length (pm m)"
    by (simp_all add: purge_entries(1)[OF assms])
  have "smap_ok (pm (purge st m))"
    using assms by (simp add: purge_entries(1)[OF assms] pool_ok_def smap_ok_def sorted_wrt_map sorted_wrt_filter)
  with sub len assms purge_entries(2)[OF assms, of st] show ?thesis
    by (auto simp: pool_ok_def intro: inj_on_subset)
qed

lemma pool_find_has: "pool_ok c p m \<Longrightarrow> pool_has m i \<longleftrightarrow> (\<exists>t. pool_find m i = Some t \<and> txid t = i)"
proof -
  have "find_entry i es = Some t \<longleftrightarrow> (\<exists>k. (k, t) \<in> set es \<and> txid t = i)" if "inj_on (\<lambda>e. txid (snd e)) (set es)" for es t
    using that
  proof (induction es)
    case (Cons e es)
    have "snd e = t" if "(k, t) \<in> set es" "txid t = i" "txid (snd e) = i" for k
      using inj_onD[OF Cons.prems, of e "(k, t)"] that by simp
    with Cons show ?case by (cases e) auto
  qed simp
  moreover assume "pool_ok c p m"
  ultimately have "(\<exists>t. pool_find m i = Some t \<and> txid t = i) \<longleftrightarrow> (\<exists>t. \<exists>k. (k, t) \<in> set (pm m) \<and> txid t = i)"
    by (simp add: pool_ok_def pool_find_def)
  also have "\<dots> \<longleftrightarrow> i \<in> (\<lambda>e. txid (snd e)) ` set (pm m)" by (metis (no_types, lifting) image_iff prod.collapse snd_conv)
  finally show ?thesis using \<open>pool_ok c p m\<close> by (simp add: pool_ok_def pool_has_def)
qed

subsection \<open>What collect picks\<close>

fun steps_ok :: "('s \<Rightarrow> tx \<Rightarrow> 'e option \<times> 's) \<Rightarrow> 's \<Rightarrow> tx list \<Rightarrow> bool" where
  "steps_ok step s [] \<longleftrightarrow> True"
| "steps_ok step s (t # ts) \<longleftrightarrow> fst (step s t) = None \<and> steps_ok step (snd (step s t)) ts"

definition steps_end :: "('s \<Rightarrow> tx \<Rightarrow> 'e option \<times> 's) \<Rightarrow> tx list \<Rightarrow> 's \<Rightarrow> 's" where
  "steps_end step ts s = fold (\<lambda>t s. snd (step s t)) ts s"

lemma steps_ok_snoc: "steps_ok step s (ts @ [t]) \<longleftrightarrow> steps_ok step s ts \<and> fst (step (steps_end step ts s) t) = None"
  by (induction ts arbitrary: s) (simp_all add: steps_end_def)

text \<open>No entry with a current nonce can be applied.\<close>

definition stuck :: "('s \<Rightarrow> addr20 \<Rightarrow> u64) \<Rightarrow> ('s \<Rightarrow> tx \<Rightarrow> 'e option \<times> 's) \<Rightarrow> ((addr20 \<times> u64) \<times> tx) list \<Rightarrow> 's \<Rightarrow> bool" where
  "stuck cur step es s \<longleftrightarrow> (\<forall>((a, n), t) \<in> set es. n = cur s a \<longrightarrow> fst (step s t) \<noteq> None)"

text \<open>What \<open>collect\<close> relies on: \<open>obs\<close> relates states no later call can tell apart.\<close>

locale ledger_step =
  fixes cur :: "'s \<Rightarrow> addr20 \<Rightarrow> u64"
    and step :: "'s \<Rightarrow> tx \<Rightarrow> 'e option \<times> 's"
    and obs :: "'s \<Rightarrow> 's \<Rightarrow> bool"
  assumes obs_trans: "obs s s' \<Longrightarrow> obs s' s'' \<Longrightarrow> obs s s''"
    and obs_cur: "obs s s' \<Longrightarrow> cur s a = cur s' a"
    and obs_step: "obs s s' \<Longrightarrow> fst (step s t) = None \<longleftrightarrow> fst (step s' t) = None"
    and obs_ok: "obs s s' \<Longrightarrow> fst (step s' t) = None \<Longrightarrow> obs (snd (step s t)) (snd (step s' t))"
    and obs_err: "obs s s' \<Longrightarrow> fst (step s' t) \<noteq> None \<Longrightarrow> obs s (snd (step s' t))"
begin

lemma steps_end_snoc: "steps_end step (ts @ [t]) s = snd (step (steps_end step ts s) t)"
  by (simp add: steps_end_def)

lemma pass_runs:
  "steps_ok step s out \<Longrightarrow> obs (steps_end step out s) tmp \<Longrightarrow>
     collect_pass cur step maxn es (tmp, out, progress) = (tmp', out', progress') \<Longrightarrow>
     steps_ok step s out' \<and> obs (steps_end step out' s) tmp' \<and> set out' \<subseteq> set out \<union> snd ` set es"
proof (induction es arbitrary: tmp out progress)
  case (Cons e es)
  obtain a n t where e: "e = ((a, n), t)" by (metis surj_pair)
  obtain err tmp1 where s: "step tmp t = (err, tmp1)" by force
  consider (skip) "n \<noteq> cur tmp a" | (fail) x where "n = cur tmp a" "err = Some x" | (pick) "n = cur tmp a" "err = None"
    by (cases err) auto
  then show ?case
  proof cases
    case skip
    with Cons.prems Cons.IH[OF Cons.prems(1,2)] e show ?thesis by auto
  next
    case fail
    then have "obs (steps_end step out s) tmp1" using obs_err[OF Cons.prems(2), of t] s by simp
    from Cons.IH[OF Cons.prems(1) this] Cons.prems(3) fail e s show ?thesis by auto
  next
    case pick
    then have ok: "steps_ok step s (out @ [t])" "obs (steps_end step (out @ [t]) s) tmp1"
      using Cons.prems(1,2) obs_step[OF Cons.prems(2), of t] obs_ok[OF Cons.prems(2), of t] s
      by (simp_all add: steps_ok_snoc steps_end_snoc)
    show ?thesis
    proof (cases "length (out @ [t]) \<ge> maxn")
      case True
      with Cons.prems(3) pick e s have "out' = out @ [t]" "tmp' = tmp1" by simp_all
      with ok e show ?thesis by auto
    next
      case False
      with Cons.prems(3) pick e s have "collect_pass cur step maxn es (tmp1, out @ [t], True) = (tmp', out', progress')" by simp
      from Cons.IH[OF ok this] e show ?thesis by auto
    qed
  qed
qed simp

lemma pass_bound:
  "length out < maxn \<Longrightarrow> collect_pass cur step maxn es (tmp, out, progress) = (tmp', out', progress') \<Longrightarrow> length out' \<le> maxn"
proof (induction es arbitrary: tmp out progress)
  case (Cons e es)
  obtain a n t where e: "e = ((a, n), t)" by (metis surj_pair)
  obtain err tmp1 where s: "step tmp t = (err, tmp1)" by force
  with Cons.prems Cons.IH[of out tmp progress] Cons.IH[of out tmp1 progress] Cons.IH[of "out @ [t]" tmp1 True] e
  show ?case by (cases err) (auto simp: Let_def split: if_splits)
qed simp

lemma pass_keeps_progress:
  "collect_pass cur step maxn es (tmp, out, True) = (tmp', out', progress') \<Longrightarrow> progress'"
proof (induction es arbitrary: tmp out)
  case (Cons e es)
  obtain a n t where e: "e = ((a, n), t)" by (metis surj_pair)
  obtain err tmp1 where s: "step tmp t = (err, tmp1)" by force
  with Cons.prems Cons.IH[of tmp out] Cons.IH[of tmp1 out] Cons.IH[of tmp1 "out @ [t]"] e
  show ?case by (cases err) (auto simp: Let_def split: if_splits)
qed simp

lemma pass_no_progress:
  "collect_pass cur step maxn es (tmp, out, progress) = (tmp', out', False) \<Longrightarrow> out' = out"
proof (induction es arbitrary: tmp progress)
  case (Cons e es)
  obtain a n t where e: "e = ((a, n), t)" by (metis surj_pair)
  obtain err tmp1 where s: "step tmp t = (err, tmp1)" by force
  with Cons.prems Cons.IH[of tmp progress] Cons.IH[of tmp1 progress] pass_keeps_progress[of maxn es tmp1 "out @ [t]" tmp' out' False] e
  show ?case by (cases err) (auto simp: Let_def split: if_splits)
qed simp

text \<open>A pass that makes no progress has tried every entry whose nonce is current.\<close>

lemma pass_exhausted:
  "obs s tmp \<Longrightarrow> collect_pass cur step maxn es (tmp, out, False) = (tmp', out', False) \<Longrightarrow>
     obs s tmp' \<and> (\<forall>((a, n), t) \<in> set es. n = cur s a \<longrightarrow> fst (step s t) \<noteq> None)"
proof (induction es arbitrary: tmp)
  case (Cons e es)
  obtain a n t where e: "e = ((a, n), t)" by (metis surj_pair)
  obtain err tmp1 where s: "step tmp t = (err, tmp1)" by force
  consider (skip) "n \<noteq> cur tmp a" | (fail) x where "n = cur tmp a" "err = Some x" | (pick) "n = cur tmp a" "err = None"
    by (cases err) auto
  then show ?case
  proof cases
    case skip
    with Cons.IH[OF Cons.prems(1)] Cons.prems(2) e obs_cur[OF Cons.prems(1), of a] show ?thesis by simp
  next
    case fail
    then have "obs s tmp1" using obs_err[OF Cons.prems(1), of t] s by simp
    from Cons.IH[OF this] Cons.prems(2) fail e s obs_step[OF Cons.prems(1), of t] show ?thesis by simp
  next
    case pick
    with Cons.prems(2) e s pass_keeps_progress[of maxn es tmp1 "out @ [t]" tmp' out' False] show ?thesis
      by (auto simp: Let_def split: if_splits)
  qed
qed simp

lemma loop_spec:
  "steps_ok step s out \<Longrightarrow> obs (steps_end step out s) tmp \<Longrightarrow> length out \<le> maxn \<Longrightarrow>
     res = collect_loop cur step maxn es tmp out \<Longrightarrow>
     steps_ok step s res \<and> set res \<subseteq> set out \<union> snd ` set es \<and> length res \<le> maxn \<and>
     (length res = maxn \<or> stuck cur step es (steps_end step res s))"
proof (induction "maxn - length out" arbitrary: tmp out rule: less_induct)
  case less
  show ?case
  proof (cases "length out < maxn")
    case False
    with less.prems show ?thesis by (simp add: collect_loop.simps[of cur step maxn es tmp out])
  next
    case True
    obtain tmp1 out1 progress where p: "collect_pass cur step maxn es (tmp, out, False) = (tmp1, out1, progress)"
      by (metis prod_cases3)
    note runs1 = pass_runs[OF less.prems(1,2) p] and bound1 = pass_bound[OF True p]
    show ?thesis
    proof (cases progress)
      case False
      then have "out1 = out" using pass_no_progress p by metis
      with False less.prems True p pass_exhausted[OF less.prems(2), of maxn es out tmp1 out1] show ?thesis
        by (simp add: collect_loop.simps[of cur step maxn es tmp out] stuck_def)
    next
      case prog: True
      then have "length out < length out1" using p collect_pass_progress by metis
      then have "maxn - length out1 < maxn - length out" using True by simp
      moreover have "res = collect_loop cur step maxn es tmp1 out1"
        using less.prems(4) p prog True by (simp add: collect_loop.simps[of cur step maxn es tmp out])
      ultimately have "steps_ok step s res \<and> set res \<subseteq> set out1 \<union> snd ` set es \<and> length res \<le> maxn \<and>
          (length res = maxn \<or> stuck cur step es (steps_end step res s))"
        using runs1 bound1 by (intro less.hyps) auto
      with runs1 show ?thesis by auto
    qed
  qed
qed

end

text \<open>States with the same accounts, whether or not default entries have been created.\<close>

definition same_accounts :: "state \<Rightarrow> state \<Rightarrow> bool" where
  "same_accounts st st' \<longleftrightarrow> smap_ok st \<and> smap_ok st' \<and> (\<forall>a. st_get a st = st_get a st')"

lemma same_accounts_success:
  "same_accounts st st' \<Longrightarrow> fst (apply_tx c st t p h f) = None \<longleftrightarrow> fst (apply_tx c st' t p h f) = None"
  by (simp add: same_accounts_def apply_tx_success_iff)

lemma same_accounts_effect: "same_accounts st st' \<Longrightarrow> same_accounts (tx_effect t st) (tx_effect t st')"
  by (simp add: same_accounts_def ledger_simps)

interpretation ls: ledger_step "\<lambda>st a. find_nonce a st" "\<lambda>st t. apply_tx c st t p height False" same_accounts
proof unfold_locales
  fix s s' :: state and t
  assume s: "same_accounts s s'"
  show "fst (apply_tx c s t p height False) = None \<longleftrightarrow> fst (apply_tx c s' t p height False) = None"
    using s by (rule same_accounts_success)
  show "same_accounts (snd (apply_tx c s t p height False)) (snd (apply_tx c s' t p height False))"
    if "fst (apply_tx c s' t p height False) = None"
    using that s same_accounts_success[OF s, of c t p height False] by (simp add: apply_tx_effect same_accounts_effect)
  show "same_accounts s (snd (apply_tx c s' t p height False))" if "fst (apply_tx c s' t p height False) \<noteq> None"
    using that s apply_tx_error_state[of s' c t p height False] by (auto simp: same_accounts_def smap_ok_apply_tx)
qed (auto simp: same_accounts_def find_st_get)

lemma steps_ok_runs:
  "steps_ok (\<lambda>st t. apply_tx c st t p height False) st ts \<longleftrightarrow> runs c p height (Suc i) st ts"
  by (induction ts arbitrary: st i) (auto simp: apply_tx_effect)

lemma steps_end_effect:
  "steps_ok (\<lambda>st t. apply_tx c st t p height False) st ts \<Longrightarrow>
     steps_end (\<lambda>st t. apply_tx c st t p height False) ts st = fold tx_effect ts st"
proof (induction ts arbitrary: st)
  case (Cons t ts)
  from Cons.prems have "snd (apply_tx c st t p height False) = tx_effect t st" by (simp add: apply_tx_effect)
  with Cons show ?case by (simp add: steps_end_def)
qed (simp add: steps_end_def)

lemma collect_spec:
  assumes "smap_ok base" and res_def: "res = collect c m base p height maxn"
  shows "runs c p height (Suc i) base res" "set res \<subseteq> snd ` set (pm m)" "length res \<le> maxn"
    "length res = maxn \<or> (\<forall>((a, n), t) \<in> set (pm m). n = nonce (st_get a (fold tx_effect res base)) \<longrightarrow>
       fst (apply_tx c (fold tx_effect res base) t p height False) \<noteq> None)"
proof -
  have start: "same_accounts (steps_end (\<lambda>st t. apply_tx c st t p height False) [] base) base"
    using assms(1) by (simp add: steps_end_def same_accounts_def)
  from ls.loop_spec[of c p height base "[]" base maxn res "pm m", OF _ start] res_def
  have spec: "steps_ok (\<lambda>st t. apply_tx c st t p height False) base res" "set res \<subseteq> snd ` set (pm m)" "length res \<le> maxn"
    "length res = maxn \<or> stuck (\<lambda>st a. find_nonce a st) (\<lambda>st t. apply_tx c st t p height False) (pm m)
       (steps_end (\<lambda>st t. apply_tx c st t p height False) res base)"
    by (simp_all add: collect_def)
  show "runs c p height (Suc i) base res" using spec(1) steps_ok_runs by blast
  show "set res \<subseteq> snd ` set (pm m)" "length res \<le> maxn" by fact+
  show "length res = maxn \<or> (\<forall>((a, n), t) \<in> set (pm m). n = nonce (st_get a (fold tx_effect res base)) \<longrightarrow>
       fst (apply_tx c (fold tx_effect res base) t p height False) \<noteq> None)"
    using spec(4) by (simp add: steps_end_effect[OF spec(1)] stuck_def find_st_get)
qed

subsection \<open>Running after the coinbase\<close>

text \<open>
  The miners collect against the state before the coinbase, the block is applied with the
  coinbase first: more coins in one account, which no transaction minds.
\<close>

definition richer :: "state \<Rightarrow> state \<Rightarrow> bool" where
  "richer st st' \<longleftrightarrow> smap_ok st \<and> smap_ok st' \<and> coin_supply st \<le> coin_supply st' \<and> coin_supply st' < 2 ^ 64 \<and>
     (\<forall>a. nonce (st_get a st) = nonce (st_get a st') \<and> balance (st_get a st) \<le> balance (st_get a st'))"

lemma richer_success:
  assumes "richer st st'" "fst (apply_tx c st t p h False) = None"
  shows "fst (apply_tx c st' t p h False) = None"
proof -
  have ok: "smap_ok st" "smap_ok st'" using assms(1) by (simp_all add: richer_def)
  have "balance (st_get (sender t) st) \<le> balance (st_get (sender t) st')"
    "nonce (st_get (sender t) st) = nonce (st_get (sender t) st')" using assms(1) by (simp_all add: richer_def)
  with assms(2) show ?thesis
    unfolding apply_tx_success_iff[OF ok(1)] apply_tx_success_iff[OF ok(2)] by (auto intro: order_trans)
qed

lemma richer_effect:
  assumes r: "richer st st'" and ok: "fst (apply_tx c st t p h False) = None"
  shows "richer (tx_effect t st) (tx_effect t st')"
proof -
  have st: "smap_ok st" "smap_ok st'" "coin_supply st \<le> coin_supply st'" "coin_supply st' < 2 ^ 64" using r by (simp_all add: richer_def)
  have t: "tx_type t \<noteq> TX_COINBASE" "tx_type t = TX_TRANSFER \<longrightarrow> tx_amount t \<le> balance (st_get (sender t) st)"
    using ok by (auto simp: apply_tx_success_iff[OF st(1)] tx_static_ok_def split: if_splits)
  have t': "tx_type t = TX_TRANSFER \<longrightarrow> tx_amount t \<le> balance (st_get (sender t) st')"
    using t(2) r by (auto simp: richer_def intro: order_trans)
  have m: "minted t = 0" using t(1) by (simp add: minted_def)
  have sup: "coin_supply (tx_effect t st) = coin_supply st" "coin_supply (tx_effect t st') = coin_supply st'"
    using supply_tx_effect[OF st(1) _ t(2)] supply_tx_effect[OF st(2) _ t'] st m by simp_all
  have bal: "balance (st_get a (tx_effect t st)) \<le> balance (st_get a (tx_effect t st'))" for a
  proof -
    have "unat (balance (st_get a (tx_effect t x))) = (if tx_type t = TX_TRANSFER
        then a_pay (sender t) (tx_to t) (unat (tx_amount t)) (\<lambda>a. unat (balance (st_get a x))) a else unat (balance (st_get a x)))"
      if "smap_ok x" "coin_supply x < 2 ^ 64" "tx_type t = TX_TRANSFER \<longrightarrow> tx_amount t \<le> balance (st_get (sender t) x)" for x
      using unat_balance_effect[OF that(1) _ that(3), of a] that(2) m t(1) by simp
    from this[OF st(1) _ t(2)] this[OF st(2,4) t'] st(3,4) r show ?thesis
      by (auto simp: richer_def word_le_nat_alt a_pay_def Let_def diff_le_mono)
  qed
  from st sup bal r show ?thesis by (simp add: richer_def ledger_simps)
qed

lemma runs_richer:
  "richer st st' \<Longrightarrow> runs c p h (Suc i) st ts \<Longrightarrow> runs c p h (Suc i) st' ts"
proof (induction ts arbitrary: st st' i)
  case (Cons t ts)
  then have ok: "fst (apply_tx c st t p h False) = None" by simp
  from Cons.IH[OF richer_effect[OF Cons.prems(1) ok], of "Suc i"] richer_success[OF Cons.prems(1) ok] Cons.prems(2)
  show ?case by simp
qed simp

lemma richer_credit:
  assumes "smap_ok st" "coin_supply st + unat v < 2 ^ 64"
  shows "richer st (st_credit a v st)"
proof -
  have "unat (balance (st_get a st) + v) = unat (balance (st_get a st)) + unat v"
    using balance_le_supply[OF assms(1), of a] assms(2) by (intro unat_plus_no_wrap) simp
  then have "balance (st_get a st) \<le> balance (st_get a st) + v" by (simp add: word_le_nat_alt)
  then have "balance (st_get b st) \<le> balance (st_get b (st_credit a v st))" for b
    using assms(1) by (simp add: st_get_upd)
  moreover have "nonce (st_get b (st_credit a v st)) = nonce (st_get b st)" for b
    using assms(1) by (simp add: st_get_upd)
  ultimately show ?thesis using assms by (simp add: richer_def supply_upd)
qed

end
