(* ===== verification/Net.thy ===== *)
theory Net
  imports TxBlock StdMap
begin

text \<open>
  \<^verbatim>\<open>src/net.h\<close>: framing, the HELLO handshake with link deduplication, and one turn of the
  network loop.

  Winsock is not part of the repository.  What it returns during one turn is an argument:
  \<open>net_io\<close> (is the listener readable, the labels of accepted sockets, the readiness flags
  and results of each peer's socket) and the outcome of dialling each target.  The
  callbacks are the events that the turn yields, in order; \<open>Node\<close> handles them.

  Lemmas: a framed message parses back and leaves the rest; how the stream is cut into
  \<^verbatim>\<open>recv\<close> pieces does not matter; of the two links between two nodes exactly one survives;
  only dead peers leave the table, and only ready ones are reported gone.
\<close>

definition M_HELLO :: u8 where
  "M_HELLO = 1"

definition M_TIP :: u8 where
  "M_TIP = 2"

definition M_GET_BLOCKS :: u8 where
  "M_GET_BLOCKS = 3"

definition M_BLOCKS :: u8 where
  "M_BLOCKS = 4"

definition M_TX :: u8 where
  "M_TX = 5"

definition M_BLOCK :: u8 where
  "M_BLOCK = 6"

lemmas msg_defs = M_HELLO_def M_TIP_def M_GET_BLOCKS_def M_BLOCKS_def M_TX_def M_BLOCK_def

record peer =
  label :: string
  target :: string
  connecting :: bool
  ready :: bool
  dead :: bool
  dedup_drop :: bool
  peer_port :: u16
  inbuf :: bytes
  outbuf :: bytes
  tip_height :: u64
  tip_work :: u64
  ptip_hash :: h256

definition peer0 :: peer where
  "peer0 = \<lparr>label = [], target = [], connecting = False, ready = False, dead = False, dedup_drop = False,
     peer_port = 0, inbuf = [], outbuf = [], tip_height = 0, tip_work = 0, ptip_hash = replicate 32 0\<rparr>"

record p2p =
  net_id :: u32
  listen_port :: u16
  targets :: "string list"
  peers :: "(int, peer) smap"
  next_id :: int
  last_reconnect :: u64

datatype ev = EvReady int | EvMsg int u8 bytes | EvGone int

subsection \<open>Sending\<close>

definition frame_into :: "bytes \<Rightarrow> u8 \<Rightarrow> bytes \<Rightarrow> bytes" where
  "frame_into out ty payload =
     (let len = (of_nat (length payload) :: u32);
          out = fold (\<lambda>i out. out @ [ucast (drop_bit (8 * i) len AND 0xff)]) [0..<4] out;
          out = out @ [ty]
      in out @ payload)"

definition queue_hello :: "u32 \<Rightarrow> u16 \<Rightarrow> peer \<Rightarrow> peer" where
  "queue_hello nid port p =
     p\<lparr>outbuf := frame_into (outbuf p) M_HELLO (w_u16 port (w_u32 CL_VERSION (w_u32 nid [])))\<rparr>"

definition send_to :: "int \<Rightarrow> u8 \<Rightarrow> bytes \<Rightarrow> p2p \<Rightarrow> p2p" where
  "send_to pid ty payload n =
     (case smap_find (peers n) pid of None \<Rightarrow> n
      | Some p \<Rightarrow> if dead p then n
          else n\<lparr>peers := smap_put pid (p\<lparr>outbuf := frame_into (outbuf p) ty payload\<rparr>) (peers n)\<rparr>)"

definition broadcast :: "u8 \<Rightarrow> bytes \<Rightarrow> int \<Rightarrow> p2p \<Rightarrow> p2p" where
  "broadcast ty payload except n =
     n\<lparr>peers := map (\<lambda>(i, p). (i, if ready p \<and> \<not> dead p \<and> i \<noteq> except
        then p\<lparr>outbuf := frame_into (outbuf p) ty payload\<rparr> else p)) (peers n)\<rparr>"

definition ready_count :: "p2p \<Rightarrow> int" where
  "ready_count n = fold (\<lambda>(i, p) k. if ready p \<and> \<not> dead p then k + 1 else k) (peers n) 0"

definition peer_tip :: "p2p \<Rightarrow> int \<Rightarrow> (u64 \<times> u64 \<times> h256) option" where
  "peer_tip n pid =
     (case smap_find (peers n) pid of None \<Rightarrow> None
      | Some p \<Rightarrow> if \<not> ready p then None else Some (tip_height p, tip_work p, ptip_hash p))"

definition peer_label :: "p2p \<Rightarrow> int \<Rightarrow> string" where
  "peer_label n pid = (case smap_find (peers n) pid of None \<Rightarrow> ''?'' | Some p \<Rightarrow> label p)"

subsection \<open>Receiving\<close>

definition MAX_FRAME :: nat where
  "MAX_FRAME = 8 * 1024 * 1024"

datatype frame_result = NoFrame | FrameTooBig | Frame u8 bytes bytes

definition next_frame :: "bytes \<Rightarrow> frame_result" where
  "next_frame buf =
     (if length buf < 5 then NoFrame
      else let len = unat ((ucast (buf ! 0) :: u32) OR push_bit 8 (ucast (buf ! 1)) OR
                       push_bit 16 (ucast (buf ! 2)) OR push_bit 24 (ucast (buf ! 3))) in
      if len > MAX_FRAME then FrameTooBig
      else if length buf < 5 + len then NoFrame
      else Frame (buf ! 4) (take len (drop 5 buf)) (drop (5 + len) buf))"

text \<open>One frame of \<^verbatim>\<open>parse_frames\<close>; the flag says whether the loop goes on.\<close>

definition handle_hello :: "u32 \<Rightarrow> u16 \<Rightarrow> int \<Rightarrow> bytes \<Rightarrow> peer \<Rightarrow> ev list \<Rightarrow> bool \<times> peer \<times> ev list" where
  "handle_hello nid port i payload p evs =
     (case res_bind (rd_u32 (mk_reader payload)) (\<lambda>(their_net, r). res_bind (rd_u32 r) (\<lambda>(_, r).
        res_bind (rd_u16 r) (\<lambda>(their_port, r). Inr (their_net, their_port)))) of
        Inl _ \<Rightarrow> (False, p\<lparr>dead := True\<rparr>, evs)
      | Inr (their_net, their_port) \<Rightarrow>
          if their_net \<noteq> nid then (False, p\<lparr>dead := True\<rparr>, evs)
          else
            (let p = p\<lparr>peer_port := their_port\<rparr>;
                 i_should_dial = port < their_port;
                 is_outbound = (target p \<noteq> [])
             in if their_port \<noteq> 0 \<and> i_should_dial \<noteq> is_outbound
                then (False, p\<lparr>dead := True, dedup_drop := True\<rparr>, evs)
                else if \<not> ready p then (True, p\<lparr>ready := True\<rparr>, evs @ [EvReady i])
                else (True, p, evs)))"

definition handle_tip :: "int \<Rightarrow> bytes \<Rightarrow> peer \<Rightarrow> ev list \<Rightarrow> bool \<times> peer \<times> ev list" where
  "handle_tip i payload p evs =
     (case rd_u64 (mk_reader payload) of Inl _ \<Rightarrow> (False, p\<lparr>dead := True\<rparr>, evs)
      | Inr (h, r) \<Rightarrow> let p = p\<lparr>tip_height := h\<rparr> in
        case rd_u64 r of Inl _ \<Rightarrow> (False, p\<lparr>dead := True\<rparr>, evs)
        | Inr (w, r) \<Rightarrow> let p = p\<lparr>tip_work := w\<rparr> in
          case rd_arr 32 r of Inl _ \<Rightarrow> (False, p\<lparr>dead := True\<rparr>, evs)
          | Inr (hash, r) \<Rightarrow> (True, p\<lparr>ptip_hash := hash\<rparr>, evs @ [EvMsg i M_TIP payload]))"

definition handle_frame :: "u32 \<Rightarrow> u16 \<Rightarrow> int \<Rightarrow> u8 \<Rightarrow> bytes \<Rightarrow> peer \<Rightarrow> ev list \<Rightarrow> bool \<times> peer \<times> ev list" where
  "handle_frame nid port i ty payload p evs =
     (if ty = M_HELLO then handle_hello nid port i payload p evs
      else if ty = M_TIP then handle_tip i payload p evs
      else (True, p, evs @ [EvMsg i ty payload]))"

lemma handle_frame_inbuf: "handle_frame nid port i ty payload p evs = (go, p', evs') \<Longrightarrow> inbuf p' = inbuf p"
  by (auto simp: handle_frame_def handle_hello_def handle_tip_def Let_def split: if_splits sum.splits prod.splits)

lemma next_frame_rest: "next_frame buf = Frame ty payload rest \<Longrightarrow> length rest < length buf"
  by (auto simp: next_frame_def Let_def split: if_splits)

function parse_frames :: "u32 \<Rightarrow> u16 \<Rightarrow> int \<Rightarrow> peer \<Rightarrow> ev list \<Rightarrow> peer \<times> ev list" where
  "parse_frames nid port i p evs =
     (case next_frame (inbuf p) of
        NoFrame \<Rightarrow> (p, evs)
      | FrameTooBig \<Rightarrow> (p\<lparr>dead := True\<rparr>, evs)
      | Frame ty payload rest \<Rightarrow>
          (case handle_frame nid port i ty payload (p\<lparr>inbuf := rest\<rparr>) evs of
             (go, p, evs) \<Rightarrow> if go then parse_frames nid port i p evs else (p, evs)))"
  by pat_completeness auto
termination
  by (relation "measure (\<lambda>(nid, port, i, p, evs). length (inbuf p))")
    (simp, auto dest!: handle_frame_inbuf[OF sym] next_frame_rest)

declare parse_frames.simps [simp del]

subsection \<open>One turn of the loop\<close>

datatype connect_result = ConnectFailed | Connected | ConnectPending

text \<open>\<open>dial t\<close>: what opening a socket, parsing the host and \<^verbatim>\<open>connect\<close> give for target \<open>t\<close>.\<close>

definition dial_target :: "(string \<Rightarrow> connect_result) \<Rightarrow> string \<Rightarrow> p2p \<Rightarrow> p2p" where
  "dial_target dial t n =
     (if \<exists>(i, p) \<in> set (peers n). target p = t \<and> \<not> dead p then n
      else if CHR '':'' \<notin> set t then n
      else if dial t = ConnectFailed then n
      else
        (let p = peer0\<lparr>label := t, target := t, connecting := (dial t = ConnectPending)\<rparr>;
             p = (if connecting p then p else queue_hello (net_id n) (listen_port n) p)
         in n\<lparr>peers := smap_put (next_id n) p (peers n), next_id := next_id n + 1\<rparr>))"

definition try_connect_targets :: "(string \<Rightarrow> connect_result) \<Rightarrow> p2p \<Rightarrow> p2p" where
  "try_connect_targets dial n = fold (dial_target dial) (targets n) n"

definition accept_peer :: "string \<Rightarrow> p2p \<Rightarrow> p2p" where
  "accept_peer lbl n =
     n\<lparr>peers := smap_put (next_id n) (queue_hello (net_id n) (listen_port n) (peer0\<lparr>label := lbl\<rparr>)) (peers n),
       next_id := next_id n + 1\<rparr>"

datatype recv_result = Received bytes | RecvClosed | RecvWouldBlock | RecvError
datatype send_result = Sent nat | SendWouldBlock | SendError

record sock_io =
  sk_rf :: bool
  sk_wf :: bool
  sk_ef :: bool
  sk_err :: bool
  sk_recv :: "recv_result list"
  sk_send :: send_result

text \<open>The \<^verbatim>\<open>recv\<close> loop; a list that ends without a final result would block.\<close>

fun recv_loop :: "recv_result list \<Rightarrow> peer \<Rightarrow> peer" where
  "recv_loop [] p = p"
| "recv_loop (Received buf # rs) p =
     (let p = p\<lparr>inbuf := inbuf p @ buf\<rparr> in
      if length (inbuf p) > 16 * 1024 * 1024 then p\<lparr>dead := True\<rparr> else recv_loop rs p)"
| "recv_loop (RecvClosed # rs) p = p\<lparr>dead := True\<rparr>"
| "recv_loop (RecvWouldBlock # rs) p = p"
| "recv_loop (RecvError # rs) p = p\<lparr>dead := True\<rparr>"

definition send_out :: "send_result \<Rightarrow> peer \<Rightarrow> peer" where
  "send_out r p =
     (case r of Sent n \<Rightarrow> p\<lparr>outbuf := drop n (outbuf p)\<rparr> | SendWouldBlock \<Rightarrow> p | SendError \<Rightarrow> p\<lparr>dead := True\<rparr>)"

definition serve_peer :: "u32 \<Rightarrow> u16 \<Rightarrow> sock_io \<Rightarrow> int \<Rightarrow> peer \<Rightarrow> ev list \<Rightarrow> peer \<times> ev list" where
  "serve_peer nid port io i p evs =
     (if dead p then (p, evs)
      else if connecting p then
        (if sk_ef io then (p\<lparr>dead := True\<rparr>, evs)
         else if sk_wf io then
           (if sk_err io then (p\<lparr>dead := True\<rparr>, evs) else (queue_hello nid port (p\<lparr>connecting := False\<rparr>), evs))
         else (p, evs))
      else
        (let (p, evs) = (if sk_rf io then
               (let p = recv_loop (sk_recv io) p in if \<not> dead p then parse_frames nid port i p evs else (p, evs))
             else (p, evs))
         in (if \<not> dead p \<and> outbuf p \<noteq> [] \<and> sk_wf io then send_out (sk_send io) p else p, evs)))"

fun serve_peers :: "u32 \<Rightarrow> u16 \<Rightarrow> (int \<Rightarrow> sock_io) \<Rightarrow> (int, peer) smap \<Rightarrow> ev list \<Rightarrow> (int, peer) smap \<times> ev list" where
  "serve_peers nid port io [] evs = ([], evs)"
| "serve_peers nid port io ((i, p) # ps) evs =
     (case serve_peer nid port (io i) i p evs of (p, evs) \<Rightarrow>
        case serve_peers nid port io ps evs of (ps, evs) \<Rightarrow> ((i, p) # ps, evs))"

fun reap :: "(int, peer) smap \<Rightarrow> ev list \<Rightarrow> (int, peer) smap \<times> ev list" where
  "reap [] evs = ([], evs)"
| "reap ((i, p) # ps) evs =
     (if dead p then reap ps (if ready p then evs @ [EvGone i] else evs)
      else case reap ps evs of (ps, evs) \<Rightarrow> ((i, p) # ps, evs))"

record net_io =
  io_now :: u64
  io_dial :: "string \<Rightarrow> connect_result"
  io_rc :: bool
  io_accept :: "string list"
  io_sock :: "int \<Rightarrow> sock_io"

definition net_turn :: "net_io \<Rightarrow> p2p \<Rightarrow> p2p \<times> ev list" where
  "net_turn io n =
     (let n = (if io_now io - last_reconnect n > 2000
               then try_connect_targets (io_dial io) (n\<lparr>last_reconnect := io_now io\<rparr>) else n);
          (n, evs) = (if io_rc io then
             (let n = fold accept_peer (io_accept io) n;
                  (ps, evs) = serve_peers (net_id n) (listen_port n) (io_sock io) (peers n) []
              in (n\<lparr>peers := ps\<rparr>, evs)) else (n, []));
          (ps, evs) = reap (peers n) evs
      in (n\<lparr>peers := ps\<rparr>, evs))"

subsection \<open>Framing\<close>

lemma frame_into_eq: "frame_into out ty payload = out @ le_bytes 4 (of_nat (length payload) :: u32) @ [ty] @ payload"
proof -
  have "fold (\<lambda>i out. out @ [ucast (drop_bit (8 * i) len AND 0xff)]) [0..<4] out = out @ le_bytes 4 len" for len :: u32
    using fold_snoc_map[of "\<lambda>i. ucast (drop_bit (8 * i) len AND 0xff)" "[0..<4]" out] by (simp add: le_bytes_def ucast_and_ff)
  then show ?thesis by (simp add: frame_into_def Let_def)
qed

lemma frame_len_word:
  "(ucast b0 :: u32) OR push_bit 8 (ucast b1) OR push_bit 16 (ucast b2) OR push_bit 24 (ucast (b3 :: u8)) = le_word [b0, b1, b2, b3]"
  by (rule bit_word_eqI)
    (auto simp: bit_le_word bit_or_iff bit_push_bit_iff bit_ucast_iff nth_Cons' less_Suc_eq numeral_eq_Suc)

lemma list_of_4: "length xs = 4 \<Longrightarrow> \<exists>a b c d. xs = [a, b, c, d]"
  by (auto simp: numeral_eq_Suc length_Suc_conv)

lemma next_frame_frame:
  assumes "length payload \<le> MAX_FRAME"
  shows "next_frame (frame_into [] ty payload @ rest) = Frame ty payload rest"
proof -
  let ?len = "of_nat (length payload) :: u32" and ?buf = "frame_into [] ty payload @ rest"
  have un: "unat ?len = length payload" using assms by (simp add: MAX_FRAME_def unat_of_nat take_bit_nat_eq_self)
  obtain b0 b1 b2 b3 where b: "le_bytes 4 ?len = [b0, b1, b2, b3]"
    using list_of_4[of "le_bytes 4 ?len"] by auto
  have "le_word [b0, b1, b2, b3] = ?len" using le_word_le_bytes[of 4 ?len] b by simp
  moreover have "drop (5 + n) (b0 # b1 # b2 # b3 # ty # xs) = drop n xs" for n xs by (simp add: numeral_eq_Suc)
  ultimately show ?thesis using assms un
    by (simp add: next_frame_def frame_into_eq b frame_len_word Let_def del: le_word.simps)
qed

lemma next_frame_append:
  "next_frame buf = Frame ty payload rest \<Longrightarrow> next_frame (buf @ b) = Frame ty payload (rest @ b)"
  "next_frame buf = FrameTooBig \<Longrightarrow> next_frame (buf @ b) = FrameTooBig"
  by (auto simp: next_frame_def Let_def nth_append split: if_splits)

lemma handle_frame_indep:
  "handle_frame nid port i ty payload (p\<lparr>inbuf := x\<rparr>) evs =
     (case handle_frame nid port i ty payload p evs of (go, p', evs') \<Rightarrow> (go, p'\<lparr>inbuf := x\<rparr>, evs'))"
  by (simp add: handle_frame_def handle_hello_def handle_tip_def Let_def split: sum.split prod.split)

lemma handle_frame_dead:
  "handle_frame nid port i ty payload p evs = (go, p', evs') \<Longrightarrow> \<not> dead p \<Longrightarrow> dead p' \<longleftrightarrow> \<not> go"
  by (auto simp: handle_frame_def handle_hello_def handle_tip_def Let_def split: if_splits sum.splits prod.splits)

text \<open>Bytes that arrive later do not change what was parsed before them.\<close>

lemma parse_frames_append:
  "\<not> dead p \<Longrightarrow> parse_frames nid port i p evs = (p', evs') \<Longrightarrow>
     parse_frames nid port i (p\<lparr>inbuf := inbuf p @ b\<rparr>) evs =
       (if dead p' then (p'\<lparr>inbuf := inbuf p' @ b\<rparr>, evs') else parse_frames nid port i (p'\<lparr>inbuf := inbuf p' @ b\<rparr>) evs')"
proof (induction nid port i p evs rule: parse_frames.induct)
  case (1 nid port i p evs)
  show ?case
  proof (cases "next_frame (inbuf p)")
    case NoFrame
    with 1 show ?thesis by (simp add: parse_frames.simps[of nid port i p])
  next
    case FrameTooBig
    then have "next_frame (inbuf p @ b) = FrameTooBig" by (rule next_frame_append)
    with FrameTooBig 1 show ?thesis
      by (auto simp: parse_frames.simps[of nid port i p] parse_frames.simps[of nid port i "p\<lparr>inbuf := inbuf p @ b\<rparr>"])
  next
    case (Frame ty payload rest)
    then have f: "next_frame (inbuf p @ b) = Frame ty payload (rest @ b)" by (rule next_frame_append)
    obtain go q evs1 where h: "handle_frame nid port i ty payload (p\<lparr>inbuf := rest\<rparr>) evs = (go, q, evs1)" by (metis prod_cases3)
    have q: "inbuf q = rest" "dead q \<longleftrightarrow> \<not> go" using handle_frame_inbuf[OF h] handle_frame_dead[OF h] 1(2) by simp_all
    have h': "handle_frame nid port i ty payload (p\<lparr>inbuf := rest @ b\<rparr>) evs = (go, q\<lparr>inbuf := rest @ b\<rparr>, evs1)"
      using handle_frame_indep[where p = "p\<lparr>inbuf := rest\<rparr>" and x = "rest @ b"] h by simp
    show ?thesis
    proof (cases go)
      case True
      from 1(3) Frame h True have "parse_frames nid port i q evs1 = (p', evs')" by (simp add: parse_frames.simps[of nid port i p])
      from 1(1)[OF Frame h[symmetric] refl True _ this] q True have
        "parse_frames nid port i (q\<lparr>inbuf := rest @ b\<rparr>) evs1 = (if dead p' then (p'\<lparr>inbuf := inbuf p' @ b\<rparr>, evs')
          else parse_frames nid port i (p'\<lparr>inbuf := inbuf p' @ b\<rparr>) evs')" by simp
      with f h' True show ?thesis by (simp add: parse_frames.simps[of nid port i "p\<lparr>inbuf := inbuf p @ b\<rparr>"])
    next
      case False
      with 1(3) Frame h have "q = p'" "evs1 = evs'" by (simp_all add: parse_frames.simps[of nid port i p])
      with f h' False q show ?thesis by (simp add: parse_frames.simps[of nid port i "p\<lparr>inbuf := inbuf p @ b\<rparr>"])
    qed
  qed
qed

lemma parse_frames_rest: "parse_frames nid port i p evs = (p', evs') \<Longrightarrow> \<not> dead p \<Longrightarrow> \<not> dead p' \<Longrightarrow> next_frame (inbuf p') = NoFrame"
proof (induction nid port i p evs rule: parse_frames.induct)
  case (1 nid port i p evs)
  show ?case
  proof (cases "next_frame (inbuf p)")
    case (Frame ty payload rest)
    obtain go q evs1 where h: "handle_frame nid port i ty payload (p\<lparr>inbuf := rest\<rparr>) evs = (go, q, evs1)" by (metis prod_cases3)
    have "dead q \<longleftrightarrow> \<not> go" using handle_frame_dead[OF h] 1(3) by simp
    with 1(1)[OF Frame h[symmetric] refl] 1(2-4) Frame h show ?thesis
      by (simp add: parse_frames.simps[of nid port i p] split: if_splits)
  qed (use 1 in \<open>auto simp: parse_frames.simps[of nid port i p]\<close>)
qed

text \<open>The stream of a list of messages, and what handling them in order does.\<close>

definition stream :: "(u8 \<times> bytes) list \<Rightarrow> bytes" where
  "stream ms = fold (\<lambda>(ty, payload) out. frame_into out ty payload) ms []"

lemma stream_simps [simp]: "stream [] = []" "stream ((ty, payload) # ms) = frame_into [] ty payload @ stream ms"
proof -
  have "(\<lambda>(ty, payload) out. frame_into out ty payload) = (\<lambda>m out. out @ frame_into [] (fst m) (snd m))"
    by (auto simp: frame_into_eq fun_eq_iff)
  then have "stream ms = concat (map (\<lambda>m. frame_into [] (fst m) (snd m)) ms)" for ms
    using fold_append_concat[of "\<lambda>m. frame_into [] (fst m) (snd m)" ms "[]"] by (simp add: stream_def)
  then show "stream [] = []" "stream ((ty, payload) # ms) = frame_into [] ty payload @ stream ms" by simp_all
qed

fun run_frames :: "u32 \<Rightarrow> u16 \<Rightarrow> int \<Rightarrow> (u8 \<times> bytes) list \<Rightarrow> peer \<Rightarrow> ev list \<Rightarrow> peer \<times> ev list" where
  "run_frames nid port i [] p evs = (p, evs)"
| "run_frames nid port i ((ty, payload) # ms) p evs =
     (case handle_frame nid port i ty payload p evs of
        (go, p, evs) \<Rightarrow> if go then run_frames nid port i ms p evs else (p, evs))"

text \<open>Peers up to unparsed input.\<close>

definition settled :: "peer \<Rightarrow> peer" where
  "settled p = p\<lparr>inbuf := []\<rparr>"

lemma parse_stream:
  "list_all (\<lambda>(ty, payload). length payload \<le> MAX_FRAME) ms \<Longrightarrow> inbuf p = stream ms \<Longrightarrow>
     run_frames nid port i ms (settled p) evs = (settled (fst (parse_frames nid port i p evs)), snd (parse_frames nid port i p evs))"
proof (induction ms arbitrary: p evs)
  case Nil
  then show ?case by (simp add: parse_frames.simps[of nid port i p] next_frame_def settled_def)
next
  case (Cons m ms)
  obtain ty payload where m: "m = (ty, payload)" by force
  with Cons.prems have f: "next_frame (inbuf p) = Frame ty payload (stream ms)" by (simp add: next_frame_frame)
  obtain go q evs1 where h: "handle_frame nid port i ty payload (p\<lparr>inbuf := stream ms\<rparr>) evs = (go, q, evs1)" by (metis prod_cases3)
  have q: "inbuf q = stream ms" using handle_frame_inbuf[OF h] by simp
  have "handle_frame nid port i ty payload (settled p) evs = (go, settled q, evs1)"
    using handle_frame_indep[where p = "p\<lparr>inbuf := stream ms\<rparr>" and x = "[]"] h by (simp add: settled_def)
  with f h m Cons.IH[of q evs1] Cons.prems q show ?case
    by (simp add: parse_frames.simps[of nid port i p])
qed

text \<open>Reading pieces one after another, each followed by \<^verbatim>\<open>parse_frames\<close>, until the peer is dropped.\<close>

definition feed :: "u32 \<Rightarrow> u16 \<Rightarrow> int \<Rightarrow> bytes \<Rightarrow> peer \<times> ev list \<Rightarrow> peer \<times> ev list" where
  "feed nid port i piece = (\<lambda>(p, evs). if dead p then (p, evs) else parse_frames nid port i (p\<lparr>inbuf := inbuf p @ piece\<rparr>) evs)"

lemma feed_dead: "dead p \<Longrightarrow> fold (feed nid port i) pieces (p, evs) = (p, evs)"
  by (induction pieces) (simp_all add: feed_def)

lemma feed_pieces:
  assumes "\<not> dead p" "next_frame (inbuf p) = NoFrame"
  shows "snd (fold (feed nid port i) pieces (p, evs)) = snd (parse_frames nid port i (p\<lparr>inbuf := inbuf p @ concat pieces\<rparr>) evs) \<and>
    settled (fst (fold (feed nid port i) pieces (p, evs))) = settled (fst (parse_frames nid port i (p\<lparr>inbuf := inbuf p @ concat pieces\<rparr>) evs))"
  using assms
proof (induction pieces arbitrary: p evs)
  case Nil
  then show ?case by (simp add: parse_frames.simps[of nid port i p])
next
  case (Cons a pieces)
  let ?p = "p\<lparr>inbuf := inbuf p @ a\<rparr>"
  obtain q evs1 where q: "parse_frames nid port i ?p evs = (q, evs1)" by force
  have step: "fold (feed nid port i) (a # pieces) (p, evs) = fold (feed nid port i) pieces (q, evs1)"
    using Cons.prems q by (simp add: feed_def)
  have app: "parse_frames nid port i (p\<lparr>inbuf := inbuf p @ a @ concat pieces\<rparr>) evs =
      (if dead q then (q\<lparr>inbuf := inbuf q @ concat pieces\<rparr>, evs1) else parse_frames nid port i (q\<lparr>inbuf := inbuf q @ concat pieces\<rparr>) evs1)"
    using parse_frames_append[of ?p nid port i evs q evs1 "concat pieces"] q Cons.prems by simp
  show ?case
  proof (cases "dead q")
    case True
    with step app show ?thesis by (simp add: feed_dead settled_def)
  next
    case False
    have "next_frame (inbuf q) = NoFrame" using parse_frames_rest[OF q] False Cons.prems by simp
    from Cons.IH[OF False this, of evs1] step app False show ?thesis by simp
  qed
qed

text \<open>Turns of the loop in which the socket of a peer is readable and \<^verbatim>\<open>recv\<close> returns the pieces \<open>bufs\<close>.\<close>

definition read_turn :: "bytes list \<Rightarrow> sock_io" where
  "read_turn bufs = \<lparr>sk_rf = True, sk_wf = False, sk_ef = False, sk_err = False, sk_recv = map Received bufs, sk_send = SendWouldBlock\<rparr>"

definition read_turns :: "u32 \<Rightarrow> u16 \<Rightarrow> int \<Rightarrow> bytes list list \<Rightarrow> peer \<times> ev list \<Rightarrow> peer \<times> ev list" where
  "read_turns nid port i turns = fold (\<lambda>bufs (p, evs). serve_peer nid port (read_turn bufs) i p evs) turns"

lemma recv_loop_pieces:
  "length (inbuf p @ concat bufs) \<le> 16 * 1024 * 1024 \<Longrightarrow> recv_loop (map Received bufs) p = p\<lparr>inbuf := inbuf p @ concat bufs\<rparr>"
  by (induction bufs arbitrary: p) (simp_all add: Let_def)

lemma serve_read_turn:
  assumes "\<not> connecting p" "length (inbuf p @ concat bufs) \<le> 16 * 1024 * 1024"
  shows "serve_peer nid port (read_turn bufs) i p evs = feed nid port i (concat bufs) (p, evs)"
  using assms by (simp add: serve_peer_def read_turn_def feed_def recv_loop_pieces Let_def split: prod.split)

lemma handle_frame_connecting:
  "handle_frame nid port i ty payload p evs = (go, p', evs') \<Longrightarrow> connecting p' = connecting p"
  by (auto simp: handle_frame_def handle_hello_def handle_tip_def Let_def split: if_splits sum.splits prod.splits)

lemma parse_frames_keeps:
  "parse_frames nid port i p evs = (p', evs') \<Longrightarrow> connecting p' = connecting p \<and> length (inbuf p') \<le> length (inbuf p)"
proof (induction nid port i p evs rule: parse_frames.induct)
  case (1 nid port i p evs)
  show ?case
  proof (cases "next_frame (inbuf p)")
    case (Frame ty payload rest)
    obtain go q evs1 where h: "handle_frame nid port i ty payload (p\<lparr>inbuf := rest\<rparr>) evs = (go, q, evs1)"
      by (metis prod_cases3)
    note q = handle_frame_connecting [OF h] handle_frame_inbuf [OF h] next_frame_rest [OF Frame]
    show ?thesis
    proof (cases go)
      case True
      then have "parse_frames nid port i q evs1 = (p', evs')"
        using 1 (2) h Frame by (simp add: parse_frames.simps [of nid port i p])
      then show ?thesis using 1 (1) [OF Frame h [symmetric] refl True] q by simp
    next
      case False
      then show ?thesis using 1 (2) h Frame q by (simp add: parse_frames.simps [of nid port i p])
    qed
  qed (use 1 (2) in \<open>auto simp: parse_frames.simps [of nid port i p]\<close>)
qed

lemma read_turns_feed:
  "\<not> connecting p \<Longrightarrow> length (inbuf p) + length (concat (concat turns)) \<le> 16 * 1024 * 1024 \<Longrightarrow>
     read_turns nid port i turns (p, evs) = fold (feed nid port i) (map concat turns) (p, evs)"
proof (induction turns arbitrary: p evs)
  case Nil
  then show ?case by (simp add: read_turns_def)
next
  case (Cons bufs turns)
  obtain q evs1 where q: "feed nid port i (concat bufs) (p, evs) = (q, evs1)" by force
  have "\<not> connecting q \<and> length (inbuf q) \<le> length (inbuf p @ concat bufs)"
    using q Cons.prems parse_frames_keeps [of nid port i "p\<lparr>inbuf := inbuf p @ concat bufs\<rparr>" evs q evs1]
    by (auto simp: feed_def split: if_splits)
  then have "read_turns nid port i turns (q, evs1) = fold (feed nid port i) (map concat turns) (q, evs1)"
    using Cons by simp
  then show ?case using q Cons.prems serve_read_turn [of p bufs nid port i evs] by (simp add: read_turns_def)
qed

text \<open>However the stream of some messages is cut into pieces and turns, the node handles those messages, in order.\<close>

lemma read_turns_stream:
  assumes "\<not> dead p" "\<not> connecting p" "inbuf p = []" "list_all (\<lambda>(ty, payload). length payload \<le> MAX_FRAME) ms"
    and "concat (concat turns) = stream ms" "length (stream ms) \<le> 16 * 1024 * 1024"
    and r: "read_turns nid port i turns (p, evs) = (p', evs')"
  shows "run_frames nid port i ms p evs = (settled p', evs')"
proof -
  have p: "settled (p\<lparr>inbuf := stream ms\<rparr>) = p" using assms(3) by (simp add: settled_def)
  have nf: "next_frame (inbuf p) = NoFrame" using assms(3) by (simp add: next_frame_def)
  have c: "concat (map concat turns) = concat (concat turns)" by (induction turns) auto
  have f: "fold (feed nid port i) (map concat turns) (p, evs) = (p', evs')"
    using read_turns_feed [of p turns nid port i evs] assms(2,3,5,6) r by simp
  have "evs' = snd (parse_frames nid port i (p\<lparr>inbuf := stream ms\<rparr>) evs) \<and>
      settled p' = settled (fst (parse_frames nid port i (p\<lparr>inbuf := stream ms\<rparr>) evs))"
    using feed_pieces [OF assms(1) nf, of nid port i "map concat turns" evs] assms(3,5) f c by simp
  then show ?thesis using parse_stream [OF assms(4), of "p\<lparr>inbuf := stream ms\<rparr>" nid port i evs] p by simp
qed

lemma run_frames_app:
  "list_all (\<lambda>(ty, payload). ty \<noteq> M_HELLO \<and> ty \<noteq> M_TIP) ms \<Longrightarrow>
     run_frames nid port i ms p evs = (p, evs @ map (\<lambda>(ty, payload). EvMsg i ty payload) ms)"
  by (induction ms arbitrary: evs) (auto simp: handle_frame_def)

subsection \<open>The handshake\<close>

definition hello_payload :: "u32 \<Rightarrow> u16 \<Rightarrow> bytes" where
  "hello_payload nid port = w_u16 port (w_u32 CL_VERSION (w_u32 nid []))"

lemma queue_hello_eq: "queue_hello nid port p = p\<lparr>outbuf := frame_into (outbuf p) M_HELLO (hello_payload nid port)\<rparr>"
  by (simp add: queue_hello_def hello_payload_def)

lemma handle_hello_payload:
  "handle_hello nid port i (hello_payload nid' port') p evs =
     (if nid' \<noteq> nid then (False, p\<lparr>dead := True\<rparr>, evs)
      else if port' \<noteq> 0 \<and> (port < port') \<noteq> (target p \<noteq> []) then (False, p\<lparr>peer_port := port', dead := True, dedup_drop := True\<rparr>, evs)
      else (True, p\<lparr>peer_port := port', ready := True\<rparr>, if ready p then evs else evs @ [EvReady i]))"
proof -
  have "hello_payload nid' port' = w_u32 nid' [] @ w_u32 CL_VERSION [] @ w_u16 port' [] @ []"
    by (simp add: hello_payload_def wire_simps)
  then have "res_bind (rd_u32 (mk_reader (hello_payload nid' port'))) (\<lambda>(their_net, r). res_bind (rd_u32 r) (\<lambda>(_, r).
        res_bind (rd_u16 r) (\<lambda>(their_port, r). Inr (their_net, their_port)))) = (Inr (nid', port') :: read_error + _)"
    by (simp add: mk_reader_rat field_codecs del: append_Nil2)
  then show ?thesis by (auto simp: handle_hello_def Let_def)
qed

text \<open>Does the end \<open>p\<close> of a link, on a node that listens on port \<open>mine\<close>, survive the HELLO of a node of the same
  network that listens on port \<open>theirs\<close>?\<close>

definition keeps_link :: "u32 \<Rightarrow> u16 \<Rightarrow> u16 \<Rightarrow> peer \<Rightarrow> bool" where
  "keeps_link nid mine theirs p \<longleftrightarrow> \<not> dead (fst (snd (handle_hello nid mine 0 (hello_payload nid theirs) p [])))"

lemma keeps_link_iff:
  "theirs \<noteq> 0 \<Longrightarrow> \<not> dead p \<Longrightarrow> keeps_link nid mine theirs p \<longleftrightarrow> (mine < theirs) = (target p \<noteq> [])"
  by (simp add: keeps_link_def handle_hello_payload)

subsection \<open>The peer table\<close>

definition net_ok :: "p2p \<Rightarrow> bool" where
  "net_ok n \<longleftrightarrow> smap_ok (peers n) \<and> (\<forall>(i, p) \<in> set (peers n). 0 < i \<and> i < next_id n) \<and> 1 \<le> next_id n"

lemma smap_ok_keys: "map fst m = map fst m' \<Longrightarrow> smap_ok m \<longleftrightarrow> smap_ok m'"
  by (simp add: smap_ok_def)

lemma serve_peers_keys: "map fst (fst (serve_peers nid port io ps evs)) = map fst ps"
proof (induction ps arbitrary: evs)
  case (Cons a ps)
  obtain i p where a: "a = (i, p)" by force
  obtain p1 evs1 where s: "serve_peer nid port (io i) i p evs = (p1, evs1)" by force
  from Cons[of evs1] a s show ?case by (simp add: case_prod_unfold)
qed simp

lemma reap_filter: "fst (reap ps evs) = filter (\<lambda>(i, p). \<not> dead p) ps"
  by (induction ps evs rule: reap.induct) (auto split: prod.splits)

lemma reap_events:
  "snd (reap ps evs) = evs @ map (\<lambda>(i, p). EvGone i) (filter (\<lambda>(i, p). dead p \<and> ready p) ps)"
  by (induction ps evs rule: reap.induct) (auto split: prod.splits)

lemma set_put_fresh:
  assumes "smap_ok m"
  shows "set (smap_put k v m) \<subseteq> insert (k, v) (set m)"
  using set_smap_put[OF assms, of k v] by blast

lemma net_ok_add:
  assumes "net_ok n"
  shows "net_ok (n\<lparr>peers := smap_put (next_id n) p (peers n), next_id := next_id n + 1\<rparr>)"
proof -
  have m: "smap_ok (peers n)" using assms by (simp add: net_ok_def)
  have "0 < i \<and> i < next_id n + 1" if "(i, q) \<in> set (smap_put (next_id n) p (peers n))" for i q
    using that set_put_fresh[OF m, of "next_id n" p] assms by (fastforce simp: net_ok_def)
  with assms m show ?thesis by (auto simp: net_ok_def sm.ok_put)
qed

lemma net_ok_dial: "net_ok n \<Longrightarrow> net_ok (dial_target dial t n)"
  by (simp add: dial_target_def Let_def net_ok_add)

lemma net_ok_fold: "(\<And>x n. net_ok n \<Longrightarrow> net_ok (f x n)) \<Longrightarrow> net_ok n \<Longrightarrow> net_ok (fold f xs n)"
  by (induction xs arbitrary: n) simp_all

lemma net_ok_peers:
  assumes "net_ok n" "fst ` set ps \<subseteq> fst ` set (peers n)" "smap_ok ps"
  shows "net_ok (n\<lparr>peers := ps\<rparr>)"
proof -
  have "0 < i \<and> i < next_id n" if "(i, p) \<in> set ps" for i p
  proof -
    have "i \<in> fst ` set (peers n)" using that assms(2) by (metis fst_conv image_eqI subsetD)
    with assms(1) show ?thesis by (auto simp: net_ok_def)
  qed
  with assms show ?thesis by (auto simp: net_ok_def)
qed

lemma net_ok_turn:
  assumes "net_ok n"
  shows "net_ok (fst (net_turn io n))"
proof -
  define n1 where "n1 = (if io_now io - last_reconnect n > 2000 then try_connect_targets (io_dial io) (n\<lparr>last_reconnect := io_now io\<rparr>) else n)"
  have "net_ok (n\<lparr>last_reconnect := io_now io\<rparr>)" using assms by (simp add: net_ok_def)
  then have n1: "net_ok n1" using assms by (simp add: n1_def try_connect_targets_def net_ok_fold net_ok_dial)
  define n2 where "n2 = fold accept_peer (io_accept io) n1"
  have "net_ok n2" unfolding n2_def using n1 by (intro net_ok_fold) (auto simp: accept_peer_def net_ok_add)
  define sp where "sp = serve_peers (net_id n2) (listen_port n2) (io_sock io) (peers n2) []"
  have keys: "map fst (fst sp) = map fst (peers n2)" by (simp add: sp_def serve_peers_keys)
  then have "fst ` set (fst sp) = fst ` set (peers n2)" by (metis list.set_map)
  with \<open>net_ok n2\<close> keys have n3: "net_ok (n2\<lparr>peers := fst sp\<rparr>)"
    by (intro net_ok_peers) (simp_all add: net_ok_def smap_ok_def)
  have "net_ok (m\<lparr>peers := fst (reap (peers m) evs)\<rparr>)" if "net_ok m" for m evs
    using that by (intro net_ok_peers) (auto simp: reap_filter net_ok_def smap_ok_def sorted_wrt_map sorted_wrt_filter)
  from this[OF n1, of "[]"] this[OF n3, of "snd sp"] show ?thesis
    unfolding net_turn_def n1_def[symmetric] n2_def[symmetric] Let_def
    by (simp add: sp_def[symmetric] case_prod_unfold n2_def[symmetric])
qed

end
