(* ===== verification/Node.thy ===== *)
theory Node
  imports ChainDb Mempool Net
begin

text \<open>
  \<^verbatim>\<open>src/node_impl.h\<close>, up to the RPC handler: the node state \<^verbatim>\<open>App\<close>, the synchronisation state
  machine, the handlers of the network callbacks, the CPU miner and the housekeeping
  thread.

  Every handler runs under \<^verbatim>\<open>App::mtx\<close>, so each is one step of the model.  The three parts
  of the miner (build a candidate, search a nonce, submit it) are separate definitions,
  because the lock is released between them.  Clock readings are arguments: \<open>now_s_at i\<close> and
  \<open>now_ms_at i\<close> are the successive results of \<^verbatim>\<open>now_s()\<close> and \<^verbatim>\<open>now_ms()\<close> during the step.
  Log lines are left out.

  Lemmas: the payload of a BLOCKS message parses back to the blocks it was built from.  The
  invariant of the node is in \<open>NodeInv\<close>.
\<close>

record 'd app =
  params :: params
  chain :: "'d pchain"
  pool :: mempool
  p2p :: p2p
  miner_addr :: addr20
  mine_on :: bool
  heartbeat_s :: u64
  webroot :: string
  rpc_peers :: string
  rpc_port :: u16
  tip_seq :: u64
  sync_peer :: int
  sync_mode :: int
  sync_extend_got :: u64
  cand :: "block list"
  sync_last_ms :: u64
  work_cache :: "(h256, tx list) smap"

record times =
  now_s_at :: "nat \<Rightarrow> u64"
  now_ms_at :: "nat \<Rightarrow> u64"

definition tip_payload :: "'d app \<Rightarrow> bytes" where
  "tip_payload a = w_arr (tip_hash (chain a)) (w_u64 (work (chain a)) (w_u64 (chain_height (chain a)) []))"

definition announce_tip :: "int \<Rightarrow> 'd app \<Rightarrow> 'd app" where
  "announce_tip except a = a\<lparr>p2p := broadcast M_TIP (tip_payload a) except (p2p a)\<rparr>"

definition post_chain_change :: "'d app \<Rightarrow> 'd app" where
  "post_chain_change a = a\<lparr>pool := purge (cstate (chain a)) (pool a), work_cache := [], tip_seq := tip_seq a + 1\<rparr>"

definition reset_sync :: "'d app \<Rightarrow> 'd app" where
  "reset_sync a = a\<lparr>sync_peer := -1, sync_mode := 0, sync_extend_got := 0, cand := []\<rparr>"

definition request_blocks :: "u64 \<Rightarrow> int \<Rightarrow> u64 \<Rightarrow> 'd app \<Rightarrow> 'd app" where
  "request_blocks ms peer start a =
     a\<lparr>p2p := send_to peer M_GET_BLOCKS (w_u32 200 (w_u64 start [])) (p2p a), sync_last_ms := ms\<rparr>"

definition maybe_sync :: "u64 \<Rightarrow> int \<Rightarrow> 'd app \<Rightarrow> 'd app" where
  "maybe_sync ms peer a =
     (if sync_peer a \<noteq> -1 then a
      else case peer_tip (p2p a) peer of None \<Rightarrow> a
      | Some (ph, pw, phash) \<Rightarrow>
          if pw \<le> work (chain a) then a
          else request_blocks ms peer (chain_height (chain a) + 1)
                 (a\<lparr>sync_peer := peer, sync_mode := 1, sync_extend_got := 0, cand := []\<rparr>))"

subsection \<open>Blocks received while synchronising\<close>

definition sync_extend :: "('k, 'd) ext \<Rightarrow> times \<Rightarrow> int \<Rightarrow> block list \<Rightarrow> (u64 \<times> u64 \<times> h256) option \<Rightarrow> 'd app \<Rightarrow> 'd app" where
  "sync_extend E tm peer v tip a =
     (case connect_all E (now_s_at tm) 0 v (chain a) of (err, okc, ch) \<Rightarrow>
        let a = a\<lparr>chain := ch\<rparr>;
            a = (if okc > 0 then post_chain_change a else a)
        in if err \<noteq> None \<and> okc = 0 \<and> sync_extend_got a = 0
           then request_blocks (now_ms_at tm 1) peer 0 (a\<lparr>sync_mode := 2, cand := []\<rparr>)
           else
             (let a = a\<lparr>sync_extend_got := sync_extend_got a + of_nat okc\<rparr>
              in if (case tip of None \<Rightarrow> False | Some (ph, pw, _) \<Rightarrow> work (chain a) \<ge> pw)
                 then reset_sync (announce_tip (-1) a)
                 else if okc > 0 \<and> v \<noteq> [] then request_blocks (now_ms_at tm 1) peer (chain_height (chain a) + 1) a
                 else reset_sync a))"

definition sync_download :: "('k, 'd) ext \<Rightarrow> times \<Rightarrow> int \<Rightarrow> block list \<Rightarrow> (u64 \<times> u64 \<times> h256) option \<Rightarrow> 'd app \<Rightarrow> 'd app" where
  "sync_download E tm peer v tip a =
     (let a = a\<lparr>cand := cand a @ v\<rparr>
      in if length (cand a) > 500000 then reset_sync a
         else
           (let complete = (v = [] \<or> (cand a \<noteq> [] \<and>
                  (case tip of None \<Rightarrow> False | Some (ph, pw, _) \<Rightarrow> h_height (hdr (last (cand a))) \<ge> ph)))
            in if \<not> complete then request_blocks (now_ms_at tm 1) peer (of_nat (length (cand a))) a
               else
                 (case try_replace E (now_s_at tm) (cand a) (chain a) of
                    (Inr fork, ch) \<Rightarrow> reset_sync (announce_tip (-1) (post_chain_change (a\<lparr>chain := ch\<rparr>)))
                  | (Inl e, ch) \<Rightarrow> reset_sync (a\<lparr>chain := ch\<rparr>))))"

definition handle_blocks :: "('k, 'd) ext \<Rightarrow> times \<Rightarrow> int \<Rightarrow> block list \<Rightarrow> 'd app \<Rightarrow> 'd app" where
  "handle_blocks E tm peer v a =
     (if peer \<noteq> sync_peer a then a
      else
        (let a = a\<lparr>sync_last_ms := now_ms_at tm 0\<rparr>; tip = peer_tip (p2p a) peer
         in if sync_mode a = 1 then sync_extend E tm peer v tip a
            else if sync_mode a = 2 then sync_download E tm peer v tip a
            else a))"

subsection \<open>Network callbacks\<close>

definition on_ready :: "int \<Rightarrow> 'd app \<Rightarrow> 'd app" where
  "on_ready peer a = a\<lparr>p2p := send_to peer M_TIP (tip_payload a) (p2p a)\<rparr>"

definition on_gone :: "int \<Rightarrow> 'd app \<Rightarrow> 'd app" where
  "on_gone peer a = (if peer = sync_peer a then reset_sync a else a)"

definition blocks_payload :: "block list \<Rightarrow> bytes" where
  "blocks_payload bs =
     (let raws = map block_serialize bs
      in fold (\<lambda>r w. w_blob r (w_u32 (of_nat (length r)) w)) raws (w_u32 (of_nat (length raws)) []))"

text \<open>\<^verbatim>\<open>for (h = start; h < a.chain.blocks.size() && n < cnt; h++, n++)\<close>\<close>

definition block_range :: "u64 \<Rightarrow> u32 \<Rightarrow> block list \<Rightarrow> block list" where
  "block_range start cnt bs = take (unat cnt) (drop (unat start) bs)"

definition on_get_blocks :: "int \<Rightarrow> bytes \<Rightarrow> 'd app \<Rightarrow> 'd app" where
  "on_get_blocks peer payload a =
     (case res_bind (rd_u64 (mk_reader payload)) (\<lambda>(start, r). res_bind (rd_u32 r) (\<lambda>(cnt, r). Inr (start, cnt))) of
        Inl _ \<Rightarrow> a
      | Inr (start, cnt) \<Rightarrow>
          a\<lparr>p2p := send_to peer M_BLOCKS (blocks_payload (block_range start (min cnt 200) (blocks (chain a)))) (p2p a)\<rparr>)"

definition rd_block :: "reader \<Rightarrow> read_error + block \<times> reader" where
  "rd_block r = res_bind (rd_u32 r) (\<lambda>(len, r). res_bind (rd_blob (unat len) r) (\<lambda>(raw, r).
     case block_parse raw of None \<Rightarrow> Inl BadBlock | Some b \<Rightarrow> Inr (b, r)))"

definition parse_blocks :: "bytes \<Rightarrow> block list option" where
  "parse_blocks payload =
     (case rd_u32 (mk_reader payload) of Inl _ \<Rightarrow> None
      | Inr (n, r) \<Rightarrow> if n > 500 then None
          else (case rd_many rd_block (unat n) [] r of Inl _ \<Rightarrow> None | Inr (bs, r) \<Rightarrow> Some bs))"

definition on_blocks :: "('k, 'd) ext \<Rightarrow> times \<Rightarrow> int \<Rightarrow> bytes \<Rightarrow> 'd app \<Rightarrow> 'd app" where
  "on_blocks E tm peer payload a =
     (case parse_blocks payload of None \<Rightarrow> a | Some v \<Rightarrow> handle_blocks E tm peer v a)"

text \<open>A payload that is one transaction and nothing more.\<close>

definition parse_tx :: "bytes \<Rightarrow> read_error + tx" where
  "parse_tx payload =
     (case tx_parse (mk_reader payload) of Inl e \<Rightarrow> Inl e
      | Inr (t, r) \<Rightarrow> if rd_remaining r \<noteq> 0 then Inl TrailingBytes else Inr t)"

definition on_tx :: "('k, 'd) ext \<Rightarrow> int \<Rightarrow> bytes \<Rightarrow> 'd app \<Rightarrow> 'd app" where
  "on_tx E peer payload a =
     (case parse_tx payload of Inl _ \<Rightarrow> a
      | Inr t \<Rightarrow>
          if pool_has (pool a) (txid t) \<or> smap_find (txidx (chain a)) (txid t) \<noteq> None then a
          else (case pool_add (ecng E) t (cstate (chain a)) (params a) (pool a) of
             (Some e, m) \<Rightarrow> a\<lparr>pool := m\<rparr>
           | (None, m) \<Rightarrow> a\<lparr>pool := m, p2p := broadcast M_TX payload peer (p2p a)\<rparr>))"

definition on_block :: "('k, 'd) ext \<Rightarrow> times \<Rightarrow> int \<Rightarrow> bytes \<Rightarrow> 'd app \<Rightarrow> 'd app" where
  "on_block E tm peer payload a =
     (case block_parse payload of None \<Rightarrow> a
      | Some b \<Rightarrow>
          if has_block (chain a) (header_hash (hdr b)) then a
          else (case connect_block E (now_s_at tm 0) b (chain a) of
             (None, ch) \<Rightarrow>
               (let a = announce_tip peer (post_chain_change (a\<lparr>chain := ch\<rparr>))
                in a\<lparr>p2p := broadcast M_BLOCK payload peer (p2p a)\<rparr>)
           | (Some e, ch) \<Rightarrow>
               (let a = a\<lparr>chain := ch\<rparr>
                in if h_height (hdr b) > chain_height (chain a) then maybe_sync (now_ms_at tm 0) peer a else a)))"

definition on_msg :: "('k, 'd) ext \<Rightarrow> times \<Rightarrow> int \<Rightarrow> u8 \<Rightarrow> bytes \<Rightarrow> 'd app \<Rightarrow> 'd app" where
  "on_msg E tm peer ty payload a =
     (if ty = M_TIP then maybe_sync (now_ms_at tm 0) peer a
      else if ty = M_GET_BLOCKS then on_get_blocks peer payload a
      else if ty = M_BLOCKS then on_blocks E tm peer payload a
      else if ty = M_TX then on_tx E peer payload a
      else if ty = M_BLOCK then on_block E tm peer payload a
      else a)"

fun on_event :: "('k, 'd) ext \<Rightarrow> times \<Rightarrow> ev \<Rightarrow> 'd app \<Rightarrow> 'd app" where
  "on_event E tm (EvReady peer) a = on_ready peer a"
| "on_event E tm (EvGone peer) a = on_gone peer a"
| "on_event E tm (EvMsg peer ty payload) a = on_msg E tm peer ty payload a"

subsection \<open>The miner\<close>

definition coinbase_tx :: "params \<Rightarrow> addr20 \<Rightarrow> u64 \<Rightarrow> tx" where
  "coinbase_tx p to height = tx_default\<lparr>tx_type := TX_COINBASE, tx_net_id := p_net_id p, tx_to := to,
     tx_amount := p_reward p, tx_nonce := height\<rparr>"

text \<open>The candidate both the miner thread and \<^verbatim>\<open>GET /work\<close> build on the current tip.\<close>

definition candidate :: "addr20 \<Rightarrow> tx list \<Rightarrow> u64 \<Rightarrow> 'd app \<Rightarrow> block" where
  "candidate payto ts now a =
     (let height = chain_height (chain a) + 1;
          all = coinbase_tx (params a) payto height # ts
      in \<lparr>hdr = header_default\<lparr>h_version := CL_VERSION, h_net_id := p_net_id (params a),
            h_prev := tip_hash (chain a), h_merkle := merkle_root (map txid all), h_height := height,
            h_time := now, h_bits := p_bits (params a)\<rparr>, txs = all\<rparr>)"

definition miner_prepare :: "('k, 'd) ext \<Rightarrow> times \<Rightarrow> 'd app \<Rightarrow> (u64 \<times> block) option" where
  "miner_prepare E tm a =
     (if \<not> mine_on a then None
      else
        (let height = chain_height (chain a) + 1;
             ts = collect (ecng E) (pool a) (cstate (chain a)) (params a) height 1000;
             hb_due = (heartbeat_s a > 0 \<and> now_s_at tm 0 \<ge> h_time (hdr (last (blocks (chain a)))) + heartbeat_s a)
         in if ts \<noteq> [] \<or> hb_due then Some (tip_seq a, candidate (miner_addr a) ts (now_s_at tm 1) a) else None))"

text \<open>The inner \<^verbatim>\<open>for\<close> loop of \<open>n\<close> tries: was a nonce found, the header buffer and the nonce.\<close>

fun mine_batch :: "nat \<Rightarrow> u32 \<Rightarrow> bytes \<Rightarrow> u64 \<Rightarrow> bool \<times> bytes \<times> u64" where
  "mine_batch 0 bits buf nc = (False, buf, nc)"
| "mine_batch (Suc n) bits buf nc =
     (let buf = patch_nonce buf nc in
      if pow_ok (sha256d buf) bits then (True, buf, nc) else mine_batch n bits buf (nc + 1))"

text \<open>
  The outer loop; \<open>go k\<close> is the \<open>k\<close>-th evaluation of \<^verbatim>\<open>a.running && a.tip_seq.load() == seq\<close>.
  It gives up after \<open>2 ^ 40\<close> tries.
\<close>

function mine_loop :: "(nat \<Rightarrow> bool) \<Rightarrow> nat \<Rightarrow> u32 \<Rightarrow> bytes \<Rightarrow> u64 \<Rightarrow> nat \<Rightarrow> bool \<times> u64" where
  "mine_loop go k bits buf nc tried =
     (if \<not> go k then (False, nc)
      else case mine_batch 100000 bits buf nc of
        (True, buf, nc) \<Rightarrow> (True, nc)
      | (False, buf, nc) \<Rightarrow>
          if tried + 100000 > 2 ^ 40 then (False, nc)
          else mine_loop go (Suc k) bits buf nc (tried + 100000))"
  by pat_completeness auto
termination
  by (relation "measure (\<lambda>(go, k, bits, buf, nc, tried). 2 ^ 40 - tried)") auto

declare mine_loop.simps [simp del]

definition miner_submit :: "('k, 'd) ext \<Rightarrow> times \<Rightarrow> u64 \<Rightarrow> block \<Rightarrow> u64 \<Rightarrow> 'd app \<Rightarrow> 'd app" where
  "miner_submit E tm seq b nc a =
     (if tip_seq a \<noteq> seq then a
      else
        (let b = b\<lparr>hdr := (hdr b)\<lparr>h_nonce := nc\<rparr>\<rparr>
         in case connect_block E (now_s_at tm 0) b (chain a) of
              (Some e, ch) \<Rightarrow> a\<lparr>chain := ch\<rparr>
            | (None, ch) \<Rightarrow>
                (let a = announce_tip (-1) (post_chain_change (a\<lparr>chain := ch\<rparr>))
                 in a\<lparr>p2p := broadcast M_BLOCK (block_serialize b) (-1) (p2p a)\<rparr>)))"

subsection \<open>Housekeeping\<close>

definition periodic_tick :: "times \<Rightarrow> nat \<Rightarrow> 'd app \<Rightarrow> 'd app" where
  "periodic_tick tm tick a =
     (let a = (if tick mod 40 = 0 then announce_tip (-1) a else a)
      in if sync_peer a \<noteq> -1 \<and> now_ms_at tm 0 - sync_last_ms a > 20000 then reset_sync a else a)"

subsection \<open>The blocks of a message\<close>

text \<open>One length-prefixed block of a \<^verbatim>\<open>BLOCKS\<close> message, as a codec.\<close>

definition enc_block :: "block \<Rightarrow> bytes" where
  "enc_block b = w_u32 (of_nat (length (block_serialize b))) [] @ block_serialize b"

lemma length_block_le:
  assumes "block_ok b"
  shows "length (block_serialize b) \<le> 6000000"
proof -
  have "length (tx_serialize t) \<le> 1195" if "t \<in> set (txs b)" for t
    using assms that length_tx_serialize [of t] by (auto simp: block_ok_def list_all_iff tx_ok_def MAX_PAYLOAD_def)
  then have "length (concat (map tx_serialize (txs b))) \<le> sum_list (map (\<lambda>t. 1195) (txs b))"
    unfolding length_concat map_map comp_def by (rule sum_list_map_le)
  also have "\<dots> \<le> 5000 * 1195"
    using assms by (simp add: sum_list_triv block_ok_def MAX_BLOCK_TXS_def)
  finally show ?thesis
    using assms by (simp add: block_serialize_eq length_header_serialize block_ok_def HEADER_SIZE_def wire_simps)
qed

lemma length_block_serialize: "block_ok b \<Longrightarrow> length (block_serialize b) < 2 ^ 32"
  using length_block_le [of b] by simp

interpretation blkc: codec enc_block rd_block block_ok
proof
  fix b pre suf assume b: "block_ok b"
  then have "unat (of_nat (length (block_serialize b)) :: u32) = length (block_serialize b)"
    using length_block_serialize [OF b] by (simp add: unat_of_nat)
  moreover have "block_parse (block_serialize b) = Some b"
    using b by (simp add: block_parse_Some_iff)
  ultimately show "rd_block (rat pre (enc_block b @ suf)) = Inr (b, rat (pre @ enc_block b) suf)"
    using blobc.rd_enc [of "block_serialize b" "length (block_serialize b)"]
    by (simp add: rd_block_def enc_block_def u32c.rd_enc [unfolded wire_simps append_Nil] wire_simps)
next
  fix pre s b r' assume "rd_block (rat pre s) = Inr (b, r')"
  then show "block_ok b \<and> (\<exists>suf. s = enc_block b @ suf \<and> r' = rat (pre @ enc_block b) suf)"
    by (auto simp: rd_block_def enc_block_def res_bind_Inr_iff block_parse_Some_iff wire_simps
        split: option.splits prod.splits elim!: u32c.rdE blobc.rdE)
qed

lemma blocks_payload_eq:
  "blocks_payload bs = w_u32 (of_nat (length bs)) [] @ concat (map enc_block bs)"
proof -
  have "fold (\<lambda>r w. w_blob r (w_u32 (of_nat (length r)) w)) (map block_serialize bs) w = w @ concat (map enc_block bs)" for w
    by (induction bs arbitrary: w) (simp_all add: enc_block_def wire_simps)
  then show ?thesis by (simp add: blocks_payload_def)
qed

lemma parse_blocks_payload:
  assumes "list_all block_ok bs" "length bs \<le> 500"
  shows "parse_blocks (blocks_payload bs) = Some bs"
proof -
  have "unat (of_nat (length bs) :: u32) = length bs"
    using assms(2) by (simp add: unat_of_nat)
  moreover have "\<not> (of_nat (length bs) :: u32) > 500"
    using assms(2) calculation by (simp add: word_less_nat_alt)
  ultimately show ?thesis
    using blkc.rd_many_enc [OF assms(1), of "[]" _ "[]"] u32c.rd_enc [where x = "of_nat (length bs)" and pre = "[]"]
    by (simp add: parse_blocks_def blocks_payload_eq mk_reader_rat)
qed

lemma parse_blocks_ok:
  assumes "parse_blocks payload = Some bs"
  shows "list_all block_ok bs \<and> length bs \<le> 500"
proof -
  obtain n r where n: "rd_u32 (mk_reader payload) = Inr (n, r)" "\<not> n > 500" "\<exists>r'. rd_many rd_block (unat n) [] r = Inr (bs, r')"
    using assms by (auto simp: parse_blocks_def split: sum.splits prod.splits if_splits)
  then obtain suf where "r = rat (w_u32 n []) suf"
    by (auto simp: mk_reader_rat elim!: u32c.rdE)
  with n blkc.rd_many_Inr [of "unat n" "[]"] have "list_all block_ok bs \<and> length bs = unat n"
    by fastforce
  then show ?thesis
    using n(2) by (simp add: word_less_nat_alt)
qed

end
