(* ===== verification/Text.thy ===== *)
theory Text
  imports Common
begin

text \<open>
  The parts of the C and C++ string library that the text interfaces use
  (\<^verbatim>\<open>find\<close>, \<^verbatim>\<open>substr\<close>, \<^verbatim>\<open>strtoull\<close>, \<^verbatim>\<open>atoll\<close>, \<^verbatim>\<open>%llu\<close>), \<^verbatim>\<open>strf\<close> of \<^verbatim>\<open>src/common.h\<close> and the JSON field
  extractors of \<^verbatim>\<open>src/http_client.h\<close>.

  Lemmas: decimal numbers print and parse back, splitting at a separator inverts joining,
  and the extractors read the first field with a key.
\<close>

subsection \<open>Searching and splitting\<close>

definition starts_with :: "string \<Rightarrow> string \<Rightarrow> bool" where
  "starts_with p s \<longleftrightarrow> take (length p) s = p"

text \<open>\<^verbatim>\<open>s.find(pat)\<close>: what precedes the first occurrence and what follows it.\<close>

fun cut_at :: "string \<Rightarrow> string \<Rightarrow> (string \<times> string) option" where
  "cut_at pat [] = (if pat = [] then Some ([], []) else None)"
| "cut_at pat (c # s) =
     (if starts_with pat (c # s) then Some ([], drop (length pat) (c # s))
      else map_option (\<lambda>(a, b). (c # a, b)) (cut_at pat s))"

text \<open>\<^verbatim>\<open>while (pos < s.size()) { e = s.find(sep, pos) or s.size(); ..; pos = e + 1; }\<close>\<close>

function split_on :: "char \<Rightarrow> string \<Rightarrow> string list" where
  "split_on sep s =
     (if s = [] then [] else takeWhile (\<lambda>c. c \<noteq> sep) s # split_on sep (drop 1 (dropWhile (\<lambda>c. c \<noteq> sep) s)))"
  by pat_completeness auto
termination
proof (relation "measure (\<lambda>(sep, s). length s)", goal_cases)
  case (2 sep s)
  have "length (dropWhile (\<lambda>c. c \<noteq> sep) s) \<le> length s" by (rule length_dropWhile_le)
  moreover from 2 have "0 < length s" by simp
  ultimately show ?case unfolding in_measure case_prod_conv length_drop by linarith
qed simp

declare split_on.simps [simp del]

subsection \<open>Numbers\<close>

definition digit_char :: "nat \<Rightarrow> char" where
  "digit_char d = ''0123456789'' ! d"

fun dec :: "nat \<Rightarrow> string" where
  "dec n = (if n < 10 then [digit_char n] else dec (n div 10) @ [digit_char (n mod 10)])"

declare dec.simps [simp del]

definition is_digit :: "char \<Rightarrow> bool" where
  "is_digit c \<longleftrightarrow> CHR ''0'' \<le> c \<and> c \<le> CHR ''9''"

definition digit_val :: "char \<Rightarrow> nat" where
  "digit_val c = of_char c - 48"

definition dec_value :: "string \<Rightarrow> nat" where
  "dec_value s = fold (\<lambda>c v. 10 * v + digit_val c) s 0"

definition is_space :: "char \<Rightarrow> bool" where
  "is_space c \<longleftrightarrow> c = CHR '' '' \<or> (CHR 0x09 \<le> c \<and> c \<le> CHR 0x0D)"

text \<open>Optional white space and sign, then digits: is it negative, and the magnitude.\<close>

definition scan_int :: "string \<Rightarrow> bool \<times> nat" where
  "scan_int s =
     (let s = dropWhile is_space s;
          neg = (s \<noteq> [] \<and> hd s = CHR ''-'');
          s = (if s \<noteq> [] \<and> (hd s = CHR ''-'' \<or> hd s = CHR ''+'') then tl s else s)
      in (neg, dec_value (takeWhile is_digit s)))"

text \<open>\<^verbatim>\<open>strtoull(s, nullptr, 10)\<close>: out of range gives \<^verbatim>\<open>ULLONG_MAX\<close>, a minus sign negates modulo \<open>2 ^ 64\<close>.\<close>

definition strtoull :: "string \<Rightarrow> u64" where
  "strtoull s = (case scan_int s of (neg, v) \<Rightarrow> if v \<ge> 2 ^ 64 then -1 else if neg then - of_nat v else of_nat v)"

text \<open>\<^verbatim>\<open>atoll\<close>, saturating as the Microsoft C runtime does.\<close>

definition atoll :: "string \<Rightarrow> int" where
  "atoll s = (case scan_int s of (neg, v) \<Rightarrow>
     if neg then max (- (2 ^ 63)) (- int v) else min (2 ^ 63 - 1) (int v))"

subsection \<open>strf\<close>

text \<open>\<^verbatim>\<open>strf\<close> formats into a buffer of 4096 bytes, terminator included.\<close>

text \<open>\<^verbatim>\<open>atoi\<close> and \<^verbatim>\<open>strtoul\<close> of the Windows C library, where \<^verbatim>\<open>int\<close> and \<^verbatim>\<open>long\<close> have 32 bits.\<close>

definition atoi :: "string \<Rightarrow> int" where
  "atoi s = (case scan_int s of (neg, v) \<Rightarrow>
     if neg then max (- (2 ^ 31)) (- int v) else min (2 ^ 31 - 1) (int v))"

definition strtoul :: "string \<Rightarrow> u32" where
  "strtoul s = (case scan_int s of (neg, v) \<Rightarrow> if v \<ge> 2 ^ 32 then -1 else if neg then - of_nat v else of_nat v)"

definition strf :: "string \<Rightarrow> string" where
  "strf s = take 4095 s"

subsection \<open>JSON fields\<close>

definition quote :: string where
  "quote = [CHR 0x22]"

definition extract_json_str :: "string \<Rightarrow> string \<Rightarrow> string" where
  "extract_json_str body key =
     (case cut_at (quote @ key @ quote @ '':'' @ quote) body of None \<Rightarrow> []
      | Some (_, s) \<Rightarrow> (case cut_at quote s of None \<Rightarrow> [] | Some (v, _) \<Rightarrow> v))"

definition extract_json_int :: "string \<Rightarrow> string \<Rightarrow> int \<Rightarrow> int" where
  "extract_json_int body key def =
     (case cut_at (quote @ key @ quote @ '':'') body of None \<Rightarrow> def | Some (_, s) \<Rightarrow> atoll s)"

subsection \<open>Lemmas\<close>

lemma digit_char: "d < 10 \<Longrightarrow> is_digit (digit_char d) \<and> digit_val (digit_char d) = d"
proof -
  assume "d < 10"
  then have "d \<in> {0, 1, 2, 3, 4, 5, 6, 7, 8, 9}" by auto
  then show ?thesis by (auto simp: digit_char_def is_digit_def digit_val_def less_eq_char_def)
qed

lemma dec_digits: "\<forall>c \<in> set (dec n). is_digit c"
proof (induction n rule: dec.induct)
  case (1 n)
  then show ?case by (subst dec.simps) (auto simp: digit_char)
qed

lemma dec_nonempty [simp]: "dec n \<noteq> []"
  by (subst dec.simps) simp

lemma dec_value_dec: "dec_value (dec n) = n"
proof (induction n rule: dec.induct)
  case (1 n)
  show ?case
  proof (cases "n < 10")
    case True
    then show ?thesis by (subst dec.simps) (simp add: dec_value_def digit_char)
  next
    case False
    with 1 have "dec_value (dec (n div 10)) = n div 10" by simp
    moreover have "dec n = dec (n div 10) @ [digit_char (n mod 10)]" using False by (subst dec.simps) simp
    ultimately show ?thesis by (simp add: dec_value_def digit_char)
  qed
qed

lemma digit_not_special: "is_digit c \<Longrightarrow> \<not> is_space c \<and> c \<noteq> CHR ''-'' \<and> c \<noteq> CHR ''+''"
  by (auto simp: is_digit_def is_space_def less_eq_char_def)

lemma scan_int_dec:
  assumes "s = [] \<or> \<not> is_digit (hd s)"
  shows "scan_int (dec n @ s) = (False, n)"
proof -
  have h: "is_digit (hd (dec n))" using dec_digits[of n] by simp
  then have "dropWhile is_space (dec n @ s) = dec n @ s" "hd (dec n @ s) \<noteq> CHR ''-''" "hd (dec n @ s) \<noteq> CHR ''+''"
    using digit_not_special[OF h] by (simp_all add: dropWhile_eq_self_iff)
  moreover have "takeWhile is_digit (dec n @ s) = dec n"
  proof -
    have "takeWhile is_digit (dec n @ s) = dec n @ takeWhile is_digit s" using dec_digits by (simp add: takeWhile_append2)
    with assms show ?thesis by (cases s) auto
  qed
  ultimately show ?thesis by (simp add: scan_int_def dec_value_dec)
qed

lemma strtoull_dec:
  assumes "s = [] \<or> \<not> is_digit (hd s)"
  shows "strtoull (dec (unat v) @ s) = v"
  using scan_int_dec[OF assms, of "unat v"] unat_bound[of v] by (simp add: strtoull_def not_le)

lemma split_on_join:
  "list_all (\<lambda>x. sep \<notin> set x) xs \<Longrightarrow> split_on sep (concat (map (\<lambda>x. x @ [sep]) xs)) = xs"
proof (induction xs)
  case (Cons x xs)
  have "takeWhile (\<lambda>c. c \<noteq> sep) (x @ sep # r) = x" "dropWhile (\<lambda>c. c \<noteq> sep) (x @ sep # r) = sep # r" for r
    using Cons.prems by (auto simp: takeWhile_append dropWhile_append takeWhile_eq_all_conv)
  with Cons show ?case by (subst split_on.simps) simp
qed (simp add: split_on.simps)

lemma starts_with_append [simp]: "starts_with p (p @ s)"
  by (simp add: starts_with_def)

lemma length_dec: "n < 10 ^ Suc k \<Longrightarrow> length (dec n) \<le> Suc k"
proof (induction k arbitrary: n)
  case 0
  then show ?case by (simp add: dec.simps)
next
  case (Suc k)
  then have "n div 10 < 10 ^ Suc k" by (simp add: less_mult_imp_div_less mult.commute)
  then show ?case using Suc.IH [of "n div 10"] by (simp add: dec.simps [of n])
qed

lemma length_dec_u64: "length (dec (unat (v :: u64))) \<le> 20"
proof -
  have "unat v < 10 ^ Suc 19" using unat_bound [of v] by simp
  then show ?thesis using length_dec [of _ 19] by fastforce
qed

lemma length_dec_u32: "length (dec (unat (v :: u32))) \<le> 10"
proof -
  have "unat v < 10 ^ Suc 9" using unat_bound [of v] by simp
  then show ?thesis using length_dec [of _ 9] by fastforce
qed

lemma strf_short: "length s \<le> 4095 \<Longrightarrow> strf s = s"
  by (simp add: strf_def)

lemma dec_no_char: "\<not> is_digit c \<Longrightarrow> c \<notin> set (dec n)"
  using dec_digits by blast

subsection \<open>Searching\<close>

lemma takeWhile_neq:
  "x \<notin> set ys \<Longrightarrow> takeWhile (\<lambda>y. y \<noteq> x) (ys @ x # zs) = ys"
  "x \<notin> set ys \<Longrightarrow> dropWhile (\<lambda>y. y \<noteq> x) (ys @ x # zs) = x # zs"
  by (induction ys) auto

lemma starts_with_iff: "starts_with p s \<longleftrightarrow> (\<exists>r. s = p @ r)"
  by (metis append_eq_conv_conj starts_with_def)

lemma cut_at_Some: "cut_at pat s = Some (a, b) \<Longrightarrow> s = a @ pat @ b"
proof (induction pat s arbitrary: a b rule: cut_at.induct)
  case (2 pat c s)
  then show ?case by (auto simp: starts_with_iff split: if_splits)
qed (auto split: if_splits)

lemma cut_at_here: "cut_at pat (pat @ s) = Some ([], s)"
proof (cases "pat @ s")
  case Nil
  then show ?thesis by simp
next
  case (Cons c r)
  then have "starts_with pat (c # r)" by (metis starts_with_append)
  then show ?thesis using Cons by (metis append_eq_conv_conj cut_at.simps(2))
qed

lemma cut_at_append:
  assumes "cut_at pat s = Some (a, b)"
  shows "cut_at pat (s @ t) = Some (a, b @ t)"
  using assms
proof (induction pat s arbitrary: a b rule: cut_at.induct)
  case (1 pat)
  then show ?case by (cases t) (auto simp: starts_with_def split: if_splits)
next
  case (2 pat c s)
  show ?case
  proof (cases "starts_with pat (c # s)")
    case True
    then obtain r where r: "c # s = pat @ r" by (auto simp: starts_with_iff)
    then have "(c # s) @ t = pat @ r @ t" by simp
    then show ?thesis using 2(2) r by (metis cut_at_here option.inject prod.inject append.assoc)
  next
    case False
    then obtain a' where a': "cut_at pat s = Some (a', b)" "a = c # a'" using 2(2) by auto
    have "\<not> starts_with pat (c # s @ t)"
    proof
      assume "starts_with pat (c # s @ t)"
      moreover have "length pat \<le> length (c # s)"
        using cut_at_Some [OF a'(1)] by simp
      ultimately show False using False by (metis append_Cons append_eq_append_conv_if starts_with_def take_append
            diff_is_0_eq' take0 append_Nil2 take_eq_Nil)
    qed
    then show ?thesis using 2(1) [OF False a'(1)] a'(2) by simp
  qed
qed

lemma cut_at_skip: "pat \<noteq> [] \<Longrightarrow> hd pat \<notin> set pre \<Longrightarrow> cut_at pat (pre @ s) = map_option (\<lambda>(a, b). (pre @ a, b)) (cut_at pat s)"
proof (induction pre)
  case Nil
  then show ?case by (cases "cut_at pat s") auto
next
  case (Cons c pre)
  then have "\<not> starts_with pat (c # pre @ s)"
    by (cases pat) (auto simp: starts_with_def)
  then show ?case using Cons by (cases "cut_at pat s") auto
qed

lemma cut_at_first: "pat \<noteq> [] \<Longrightarrow> hd pat \<notin> set pre \<Longrightarrow> cut_at pat (pre @ pat @ s) = Some (pre, s)"
  by (simp add: cut_at_skip cut_at_here)

text \<open>A pattern whose last character occurs nowhere else in it: look for that character.\<close>

lemma cut_at_last:
  assumes "x \<notin> set q" "x \<notin> set w"
  shows "cut_at (q @ [x]) (w @ x # v) =
    (if q = [] \<or> (\<exists>u. w = u @ q) then Some (take (length w - length q) w, v)
     else map_option (\<lambda>(a, b). (w @ x # a, b)) (cut_at (q @ [x]) v))"
  using assms(2)
proof (induction w)
  case Nil
  show ?case
  proof (cases q)
    case (Cons c q')
    then have "\<not> starts_with (q @ [x]) (x # v)" using assms(1) by (auto simp: starts_with_def)
    then show ?thesis using Cons by (cases "cut_at (q @ [x]) v") auto
  qed (simp add: starts_with_def)
next
  case (Cons c w)
  have pre: "starts_with (q @ [x]) ((c # w) @ x # v) \<longleftrightarrow> q = c # w"
  proof
    assume "starts_with (q @ [x]) ((c # w) @ x # v)"
    then obtain r where "(c # w) @ x # v = q @ x # r" by (auto simp: starts_with_iff)
    then have "takeWhile (\<lambda>y. y \<noteq> x) ((c # w) @ x # v) = takeWhile (\<lambda>y. y \<noteq> x) (q @ x # r)" by simp
    then show "q = c # w"
      using assms(1) Cons.prems by (metis takeWhile_neq)
  qed (auto simp: starts_with_iff)
  show ?case
  proof (cases "q = c # w")
    case True
    then show ?thesis using pre by simp
  next
    case False
    then have suf: "(\<exists>u. c # w = u @ q) \<longleftrightarrow> (\<exists>u. w = u @ q)" if "q \<noteq> []"
      using that by (auto simp: Cons_eq_append_conv)
    have step: "cut_at (q @ [x]) ((c # w) @ x # v) = map_option (\<lambda>(a, b). (c # a, b)) (cut_at (q @ [x]) (w @ x # v))"
      using pre False by simp
    have len: "length (c # w) - length q = Suc (length w - length q)" if "w = u @ q" for u
      using that by simp
    show ?thesis
    proof (cases "q = [] \<or> (\<exists>u. w = u @ q)")
      case True
      then have "q = [] \<or> (\<exists>u. c # w = u @ q)" using suf by auto
      moreover have "length (c # w) - length q = Suc (length w - length q)" using True len by auto
      ultimately show ?thesis unfolding step using Cons True by simp
    next
      case False
      then have "\<not> (q = [] \<or> (\<exists>u. c # w = u @ q))" using suf by auto
      then show ?thesis
        unfolding step using Cons False by (cases "cut_at (q @ [x]) v") (simp_all add: case_prod_beta)
    qed
  qed
qed

end
