(* ===== verification/Rpc.thy ===== *)
theory Rpc
  imports Node Text
begin

text \<open>
  \<^verbatim>\<open>src/rpc.h\<close> and the RPC half of \<^verbatim>\<open>src/node_impl.h\<close>: URL decoding, parsing of an HTTP request
  out of the received pieces, and \<^verbatim>\<open>handle_rpc\<close> with all its endpoints.

  Error strings of the core are produced here, where they reach a client.  The contents of
  \<^verbatim>\<open>web/viewer.html\<close> on disk (\<open>read_file\<close>) and of the generated \<^verbatim>\<open>viewer_html()\<close> are arguments.
\<close>

subsection \<open>Requests\<close>

record http_req =
  req_method :: string
  req_path :: string
  req_query :: "(string, string) smap"
  req_body :: string

record http_resp =
  resp_code :: int
  resp_ctype :: string
  resp_body :: string

fun url_decode :: "string \<Rightarrow> string" where
  "url_decode [] = []"
| "url_decode (c # s) =
     (case (c, s) of
        (_, a # b # rest) \<Rightarrow>
          if c = CHR ''%'' \<and> hexval a \<ge> 0 \<and> hexval b \<ge> 0
          then char_of (nat (16 * hexval a + hexval b)) # url_decode rest
          else (if c = CHR ''+'' then CHR '' '' else c) # url_decode s
      | _ \<Rightarrow> (if c = CHR ''+'' then CHR '' '' else c) # url_decode s)"

definition crlf :: string where
  "crlf = [CHR 0x0D, CHR 0x0A]"

text \<open>\<^verbatim>\<open>s.rfind(' ')\<close>: what precedes the last space and what follows it.\<close>

definition cut_last_space :: "string \<Rightarrow> (string \<times> string) option" where
  "cut_last_space s =
     (if CHR '' '' \<in> set s
      then Some (rev (drop 1 (dropWhile (\<lambda>c. c \<noteq> CHR '' '') (rev s))), rev (takeWhile (\<lambda>c. c \<noteq> CHR '' '') (rev s)))
      else None)"

definition add_query :: "string \<Rightarrow> (string, string) smap \<Rightarrow> (string, string) smap" where
  "add_query pr q = (case cut_at ''='' pr of None \<Rightarrow> q | Some (k, v) \<Rightarrow> smap_put (url_decode k) (url_decode v) q)"

definition tolower_char :: "char \<Rightarrow> char" where
  "tolower_char c = (if CHR ''A'' \<le> c \<and> c \<le> CHR ''Z'' then char_of ((of_char c :: nat) + 32) else c)"

definition content_length :: "string \<Rightarrow> nat" where
  "content_length head =
     (case cut_at ''content-length:'' (map tolower_char head) of None \<Rightarrow> 0
      | Some (_, s) \<Rightarrow> unat (of_int (atoll s) :: u64))"

text \<open>The request line and the headers, once the blank line has been found: the request without its body.\<close>

definition parse_head :: "string \<Rightarrow> http_req option" where
  "parse_head head =
     (let line = (case cut_at crlf head of None \<Rightarrow> head | Some (l, _) \<Rightarrow> l) in
      case (cut_at '' '' line, cut_last_space line) of
        (Some (m, after), Some (before, _)) \<Rightarrow>
          if length before \<le> length m then None
          else
            (let full = take (length before - length m - 1) after;
                 (path, qs) = (case cut_at ''?'' full of None \<Rightarrow> (full, []) | Some (p, q) \<Rightarrow> (p, q))
             in Some \<lparr>req_method = m, req_path = path,
                  req_query = fold add_query (split_on CHR ''&'' qs) [], req_body = []\<rparr>)
      | _ \<Rightarrow> None)"

text \<open>The two \<^verbatim>\<open>recv\<close> loops; the list holds the pieces received, and ends where \<^verbatim>\<open>recv\<close> returns no more.\<close>

fun recv_head :: "string list \<Rightarrow> string \<Rightarrow> (string \<times> string \<times> string list) option" where
  "recv_head [] req = None"
| "recv_head (piece # rest) req =
     (if length req \<ge> 1024 * 1024 then None
      else case cut_at (crlf @ crlf) (req @ piece) of
        Some (head, body) \<Rightarrow> Some (head, body, rest)
      | None \<Rightarrow> recv_head rest (req @ piece))"

fun recv_body :: "nat \<Rightarrow> string list \<Rightarrow> string \<Rightarrow> string" where
  "recv_body clen [] body = body"
| "recv_body clen (piece # rest) body =
     (if length body < clen then recv_body clen rest (body @ piece) else body)"

definition parse_request :: "string list \<Rightarrow> http_req option" where
  "parse_request pieces =
     (case recv_head pieces [] of None \<Rightarrow> None
      | Some (head, body, rest) \<Rightarrow>
          (case parse_head head of None \<Rightarrow> None
           | Some r \<Rightarrow>
               let clen = content_length head in
               if clen > 4 * 1024 * 1024 then None else Some (r\<lparr>req_body := recv_body clen rest body\<rparr>)))"

definition http_status :: "int \<Rightarrow> string" where
  "http_status code = (if code = 200 then ''200 OK'' else if code = 400 then ''400 Bad Request''
     else if code = 404 then ''404 Not Found'' else ''500 Internal Server Error'')"

definition render_response :: "http_resp \<Rightarrow> string" where
  "render_response resp =
     strf (''HTTP/1.1 '' @ http_status (resp_code resp) @ crlf @ ''Content-Type: '' @ resp_ctype resp @ crlf @
       ''Content-Length: '' @ dec (length (resp_body resp)) @ crlf @
       ''Access-Control-Allow-Origin: *'' @ crlf @ ''Connection: close'' @ crlf @ crlf) @ resp_body resp"

subsection \<open>Error strings\<close>

fun tx_error_msg :: "tx_error \<Rightarrow> string" where
  "tx_error_msg WrongNetworkId = ''wrong network id''"
| "tx_error_msg CoinbaseNotFirst = ''coinbase must be first tx''"
| "tx_error_msg CoinbaseFromSig = ''coinbase must have zero from/sig''"
| "tx_error_msg CoinbasePayload = ''coinbase payload not allowed''"
| "tx_error_msg BadCoinbaseAmount = ''bad coinbase amount''"
| "tx_error_msg CoinbaseNonce = ''coinbase nonce must equal height''"
| "tx_error_msg FirstNotCoinbase = ''first tx must be coinbase''"
| "tx_error_msg MissingSender = ''missing sender''"
| "tx_error_msg BadSignature = ''bad signature''"
| "tx_error_msg (BadNonce want got) = strf (''bad nonce (want '' @ dec (unat want) @ '' got '' @ dec (unat got) @ '')'')"
| "tx_error_msg TransferPayload = ''transfer payload not allowed''"
| "tx_error_msg InsufficientBalance = ''insufficient balance''"
| "tx_error_msg RecordAmount = ''record amount must be 0''"
| "tx_error_msg BadPayloadSize = ''bad payload size''"
| "tx_error_msg UnknownTxType = ''unknown tx type''"

fun chain_error_msg :: "chain_error \<Rightarrow> string" where
  "chain_error_msg InvalidGenesis = ''invalid genesis''"
| "chain_error_msg BadVersion = ''bad version''"
| "chain_error_msg WrongNetwork = ''wrong network''"
| "chain_error_msg BadHeight = ''bad height''"
| "chain_error_msg PrevHashMismatch = ''prev hash mismatch''"
| "chain_error_msg BadDifficulty = ''bad difficulty''"
| "chain_error_msg InsufficientPow = ''insufficient proof of work''"
| "chain_error_msg TimestampTooFar = ''timestamp too far in future''"
| "chain_error_msg BadTxCount = ''bad tx count''"
| "chain_error_msg MerkleMismatch = ''merkle mismatch''"
| "chain_error_msg (TxError i e) = strf (''tx '' @ dec i @ '': '' @ tx_error_msg e)"

fun pool_error_msg :: "pool_error \<Rightarrow> string" where
  "pool_error_msg CoinbaseNotAllowed = ''coinbase not allowed in mempool''"
| "pool_error_msg PoolWrongNetwork = ''wrong network id''"
| "pool_error_msg MempoolFull = ''mempool full''"
| "pool_error_msg AlreadyInMempool = ''already in mempool''"
| "pool_error_msg PoolMissingSender = ''missing sender''"
| "pool_error_msg PoolBadSignature = ''bad signature''"
| "pool_error_msg NonceAlreadyUsed = ''nonce already used''"
| "pool_error_msg NonceTooFar = ''nonce too far ahead''"
| "pool_error_msg PoolInsufficientBalance = ''insufficient balance''"
| "pool_error_msg PoolTransferPayload = ''transfer payload not allowed''"
| "pool_error_msg PoolRecordAmount = ''record amount must be 0''"
| "pool_error_msg PoolBadPayloadSize = ''bad payload size''"
| "pool_error_msg PoolUnknownType = ''unknown tx type''"
| "pool_error_msg ConflictingTx = ''conflicting tx (same sender+nonce) already pending''"

fun read_error_msg :: "read_error \<Rightarrow> string" where
  "read_error_msg ShortRead = ''short read''"
| "read_error_msg PayloadTooBig = ''payload too big''"
| "read_error_msg BadBlock = ''bad block''"
| "read_error_msg TrailingBytes = ''trailing bytes''"

definition err400 :: "string \<Rightarrow> http_resp" where
  "err400 e = \<lparr>resp_code = 400, resp_ctype = ''application/json'', resp_body = ''{\"error\":\"'' @ e @ ''\"}''\<rparr>"

definition err404 :: "string \<Rightarrow> http_resp" where
  "err404 e = \<lparr>resp_code = 404, resp_ctype = ''application/json'', resp_body = ''{\"error\":\"'' @ e @ ''\"}''\<rparr>"

definition json200 :: "string \<Rightarrow> http_resp" where
  "json200 b = \<lparr>resp_code = 200, resp_ctype = ''application/json'', resp_body = b\<rparr>"

definition text200 :: "string \<Rightarrow> http_resp" where
  "text200 b = \<lparr>resp_code = 200, resp_ctype = ''text/plain'', resp_body = b\<rparr>"

text \<open>\<^verbatim>\<open>r.query.count(k) ? r.query.at(k) : ""\<close>\<close>

definition query_or_empty :: "http_req \<Rightarrow> string \<Rightarrow> string" where
  "query_or_empty r k = (case smap_find (req_query r) k of None \<Rightarrow> [] | Some v \<Rightarrow> v)"

subsection \<open>Read-only endpoints\<close>

definition rpc_viewer :: "(string \<Rightarrow> string) \<Rightarrow> string \<Rightarrow> 'd app \<Rightarrow> http_resp" where
  "rpc_viewer read_file viewer_html a =
     (let html = (if webroot a = [] then [] else read_file (webroot a @ [CHR 0x5C] @ ''viewer.html''));
          html = (if html = [] then viewer_html else html)
      in if html \<noteq> [] then \<lparr>resp_code = 200, resp_ctype = ''text/html; charset=utf-8'', resp_body = html\<rparr>
         else text200 (''chainlite node RPC (no web viewer embedded or found)'' @ [CHR 0x0A] @
                ''Endpoints: GET /help for the list.'' @ [CHR 0x0A]))"

definition help_lines :: "string list" where
  "help_lines =
    [''chainlite node RPC'',
     ''  GET  /            web viewer (explorer + wallet)'',
     ''  GET  /status'',
     ''  GET  /balance?addr=<hex40>'',
     ''  GET  /block?height=N | /block?hash=<hex64>'',
     ''  GET  /tx?id=<hex64>'',
     ''  GET  /mempool'',
     ''  GET  /records?limit=N[&addr=<hex40>]   (notes feed: every RECORD tx)'',
     ''  GET  /tail?n=N'',
     ''  GET  /prove?txid=<hex64>          (merkle inclusion proof)'',
     ''  POST /submit        body=<hex tx>'',
     ''  GET  /work?addr=<hex40>           (mining work for external miner)'',
     ''  POST /submitwork    body=<hex 100-byte header>'']"

definition rpc_help :: http_resp where
  "rpc_help = text200 (concat (map (\<lambda>l. l @ [CHR 0x0A]) help_lines))"

text \<open>\<^verbatim>\<open>list += (first ? "" : ",") + t\<close> over the pieces that are not empty.\<close>

definition comma_list :: "string list \<Rightarrow> string" where
  "comma_list ts = snd (fold (\<lambda>t (first, out). (False, out @ (if first then [] else '','') @ t)) ts (True, []))"

definition rpc_nodes :: "'d app \<Rightarrow> http_resp" where
  "rpc_nodes a =
     (let src = (if rpc_peers a = [] then dec (unat (rpc_port a)) else rpc_peers a);
          ts = filter (\<lambda>t. t \<noteq> []) (split_on CHR '','' src)
      in json200 (strf (''{\"self\":'' @ dec (unat (rpc_port a)) @ '',\"rpc\":['' @ comma_list ts @ '']}'')))"

definition dec_int :: "int \<Rightarrow> string" where
  "dec_int i = (if i < 0 then ''-'' @ dec (nat (- i)) else dec (nat i))"

definition rpc_status :: "'d app \<Rightarrow> http_resp" where
  "rpc_status a = json200 (strf (
     ''{\"height\":'' @ dec (unat (chain_height (chain a))) @ '',\"tip\":\"'' @ hexs (tip_hash (chain a)) @
     ''\",\"work\":'' @ dec (unat (work (chain a))) @ '',\"peers\":'' @ dec_int (ready_count (p2p a)) @
     '',\"mempool\":'' @ dec (pool_size (pool a)) @ '',\"mining\":'' @ (if mine_on a then ''true'' else ''false'') @
     '',\"miner_addr\":\"'' @ hexs (miner_addr a) @ ''\",\"net_id\":'' @ dec (unat (p_net_id (params a))) @
     '',\"bits\":'' @ dec (unat (p_bits (params a))) @ '',\"reward\":'' @ dec (unat (p_reward (params a))) @ ''}''))"

definition rpc_balance :: "http_req \<Rightarrow> 'd app \<Rightarrow> http_resp" where
  "rpc_balance r a =
     (case unhex_n 20 (query_or_empty r ''addr'') of None \<Rightarrow> err400 ''need addr=<hex40>''
      | Some ad \<Rightarrow> json200 (strf (''{\"addr\":\"'' @ hexs ad @ ''\",\"balance\":'' @
          dec (unat (find_balance ad (cstate (chain a)))) @ '',\"nonce\":'' @
          dec (unat (find_nonce ad (cstate (chain a)))) @ ''}'')))"

text \<open>\<^verbatim>\<open>for (i ..) if (hashes[i] == *want) { b = &blocks[i]; break; }\<close>\<close>

fun find_by_hash :: "h256 \<Rightarrow> h256 list \<Rightarrow> block list \<Rightarrow> block option" where
  "find_by_hash want (h # hs) (b # bs) = (if h = want then Some b else find_by_hash want hs bs)"
| "find_by_hash want _ _ = None"

definition select_block :: "http_req \<Rightarrow> 'd pchain \<Rightarrow> block option" where
  "select_block r ch =
     (case smap_find (req_query r) ''height'' of
        Some v \<Rightarrow> (let h = unat (strtoull v) in if h < length (blocks ch) then Some (blocks ch ! h) else None)
      | None \<Rightarrow> (case smap_find (req_query r) ''hash'' of
          Some v \<Rightarrow> (case unhex_n 32 v of None \<Rightarrow> None | Some want \<Rightarrow> find_by_hash want (hashes ch) (blocks ch))
        | None \<Rightarrow> None))"

definition quoted_list :: "string list \<Rightarrow> string" where
  "quoted_list xs = comma_list (map (\<lambda>x. ''\"'' @ x @ ''\"'') xs)"

definition rpc_block :: "http_req \<Rightarrow> 'd app \<Rightarrow> http_resp" where
  "rpc_block r a =
     (case select_block r (chain a) of None \<Rightarrow> err404 ''block not found''
      | Some b \<Rightarrow> json200 (strf (
          ''{\"height\":'' @ dec (unat (h_height (hdr b))) @ '',\"hash\":\"'' @ hexs (header_hash (hdr b)) @
          ''\",\"prev\":\"'' @ hexs (h_prev (hdr b)) @ ''\",\"merkle\":\"'' @ hexs (h_merkle (hdr b)) @
          ''\",\"time\":'' @ dec (unat (h_time (hdr b))) @ '',\"bits\":'' @ dec (unat (h_bits (hdr b))) @
          '',\"nonce\":'' @ dec (unat (h_nonce (hdr b))) @ '',\"ntx\":'' @ dec (length (txs b)) @ '',\"txids\":['') @
          quoted_list (map (\<lambda>t. hexs (txid t)) (txs b)) @ '']}''))"

definition confirmations :: "block \<Rightarrow> 'd app \<Rightarrow> u64" where
  "confirmations b a = chain_height (chain a) - h_height (hdr b) + 1"

definition rpc_tx :: "http_req \<Rightarrow> 'd app \<Rightarrow> http_resp" where
  "rpc_tx r a =
     (case unhex_n 32 (query_or_empty r ''id'') of None \<Rightarrow> err400 ''need id=<hex64>''
      | Some i \<Rightarrow>
          (case smap_find (txidx (chain a)) i of
             Some (bi, ti) \<Rightarrow>
               (let b = blocks (chain a) ! unat bi; t = txs b ! unat ti
                in json200 (strf (
                  ''{\"txid\":\"'' @ hexs i @ ''\",\"status\":\"confirmed\",\"height\":'' @ dec (unat (h_height (hdr b))) @
                  '',\"index\":'' @ dec (unat ti) @ '',\"confirmations\":'' @ dec (unat (confirmations b a)) @
                  '',\"type\":'' @ dec (unat (tx_type t)) @ '',\"from\":\"'' @
                  (if tx_type t = TX_COINBASE then ''coinbase'' else hexs (addr_of (tx_from t))) @
                  ''\",\"to\":\"'' @ hexs (tx_to t) @ ''\",\"amount\":'' @ dec (unat (tx_amount t)) @
                  '',\"nonce\":'' @ dec (unat (tx_nonce t)) @ '',\"payload_hex\":\"'' @ hexs (tx_payload t) @ ''\"}'')))
           | None \<Rightarrow>
               (case pool_find (pool a) i of
                  Some _ \<Rightarrow> json200 (strf (''{\"txid\":\"'' @ hexs i @ ''\",\"status\":\"pending\"}''))
                | None \<Rightarrow> err404 ''tx not found (it may have been dropped in a reorg; resubmit)'')))"

definition rpc_mempool :: "'d app \<Rightarrow> http_resp" where
  "rpc_mempool a = json200 (strf (''{\"count\":'' @ dec (pool_size (pool a)) @ '',\"txids\":['') @
     quoted_list (map (\<lambda>e. hexs (txid (snd e))) (pm (pool a))) @ '']}'')"

definition record_json :: "tx \<Rightarrow> string \<Rightarrow> u64 \<Rightarrow> u64 \<Rightarrow> u64 \<Rightarrow> string" where
  "record_json t status height time conf = strf (
     ''{\"txid\":\"'' @ hexs (txid t) @ ''\",\"status\":\"'' @ status @ ''\",\"height\":'' @ dec (unat height) @
     '',\"time\":'' @ dec (unat time) @ '',\"confirmations\":'' @ dec (unat conf) @ '',\"from\":\"'' @
     hexs (addr_of (tx_from t)) @ ''\",\"payload_hex\":\"'' @ hexs (tx_payload t) @ ''\"}'')"

text \<open>
  The two loops of \<^verbatim>\<open>/records\<close>: pending ones in pool order, then the chain newest first, each
  until the limit is reached.
\<close>

definition record_matches :: "addr20 option \<Rightarrow> tx \<Rightarrow> bool" where
  "record_matches only t \<longleftrightarrow> tx_type t = TX_RECORD \<and> (case only of None \<Rightarrow> True | Some ad \<Rightarrow> addr_of (tx_from t) = ad)"

definition select_records :: "nat \<Rightarrow> addr20 option \<Rightarrow> 'd app \<Rightarrow> (tx \<times> block option) list" where
  "select_records limit only a =
     take limit (
       map (\<lambda>e. (snd e, None)) (filter (\<lambda>e. record_matches only (snd e)) (pm (pool a))) @
       concat (map (\<lambda>b. map (\<lambda>t. (t, Some b)) (filter (record_matches only) (rev (txs b)))) (rev (blocks (chain a)))))"

definition rpc_records :: "http_req \<Rightarrow> 'd app \<Rightarrow> http_resp" where
  "rpc_records r a =
     (let limit = (case smap_find (req_query r) ''limit'' of Some v \<Rightarrow> strtoull v | None \<Rightarrow> 50);
          limit = (if limit = 0 \<or> limit > 500 then 500 else limit);
          emit = (\<lambda>(t, loc). case loc of
             None \<Rightarrow> record_json t ''pending'' 0 0 0
           | Some b \<Rightarrow> record_json t ''confirmed'' (h_height (hdr b)) (h_time (hdr b)) (confirmations b a));
          render = (\<lambda>only. json200 (''{\"records\":['' @ comma_list (map emit (select_records (unat limit) only a)) @ '']}''))
      in case smap_find (req_query r) ''addr'' of
           None \<Rightarrow> render None
         | Some v \<Rightarrow> (case unhex_n 20 v of None \<Rightarrow> err400 ''bad addr'' | Some ad \<Rightarrow> render (Some ad)))"

definition json_block_summary :: "block \<Rightarrow> string" where
  "json_block_summary b = strf (''{\"height\":'' @ dec (unat (h_height (hdr b))) @ '',\"hash\":\"'' @ hexs (header_hash (hdr b)) @
     ''\",\"time\":'' @ dec (unat (h_time (hdr b))) @ '',\"ntx\":'' @ dec (length (txs b)) @ ''}'')"

definition rpc_tail :: "http_req \<Rightarrow> 'd app \<Rightarrow> http_resp" where
  "rpc_tail r a =
     (let n = (case smap_find (req_query r) ''n'' of Some v \<Rightarrow> strtoull v | None \<Rightarrow> 10);
          n = unat (min n 100);
          total = length (blocks (chain a));
          start = (if total > n then total - n else 0)
      in json200 (''{\"blocks\":['' @ comma_list (map json_block_summary (drop start (blocks (chain a)))) @ '']}''))"

definition proof_text :: "h256 \<Rightarrow> block \<Rightarrow> u32 \<Rightarrow> string" where
  "proof_text i b idx =
     (let steps = merkle_proof (map txid (txs b)) (unat idx); nl = [CHR 0x0A]
      in ''CHAINLITE-PROOF v1'' @ nl @ ''txid '' @ hexs i @ nl @
         strf (''height '' @ dec (unat (h_height (hdr b))) @ nl) @ strf (''index '' @ dec (unat idx) @ nl) @
         ''blockhash '' @ hexs (header_hash (hdr b)) @ nl @ ''header '' @ hexs (header_serialize (hdr b)) @ nl @
         concat (map (\<lambda>s. ''sibling '' @ (if ms_left s then ''L'' else ''R'') @ '' '' @ hexs (ms_h s) @ nl) steps) @
         ''end'' @ nl)"

definition rpc_prove :: "http_req \<Rightarrow> 'd app \<Rightarrow> http_resp" where
  "rpc_prove r a =
     (case unhex_n 32 (query_or_empty r ''txid'') of None \<Rightarrow> err400 ''need txid=<hex64>''
      | Some i \<Rightarrow>
          (case smap_find (txidx (chain a)) i of None \<Rightarrow> err404 ''tx not confirmed on this chain''
           | Some (bi, ti) \<Rightarrow> text200 (proof_text i (blocks (chain a) ! unat bi) ti)))"

subsection \<open>Endpoints that change the node\<close>

definition rpc_submit :: "('k, 'd) ext \<Rightarrow> http_req \<Rightarrow> 'd app \<Rightarrow> http_resp \<times> 'd app" where
  "rpc_submit E r a =
     (case unhex (req_body r) of None \<Rightarrow> (err400 ''body must be hex'', a)
      | Some raw \<Rightarrow>
          (case parse_tx raw of Inl e \<Rightarrow> (err400 (''parse: '' @ read_error_msg e), a)
           | Inr t \<Rightarrow>
               if pool_has (pool a) (txid t) \<or> smap_find (txidx (chain a)) (txid t) \<noteq> None then (err400 ''duplicate tx'', a)
               else (case pool_add (ecng E) t (cstate (chain a)) (params a) (pool a) of
                  (Some e, m) \<Rightarrow> (err400 (pool_error_msg e), a\<lparr>pool := m\<rparr>)
                | (None, m) \<Rightarrow>
                    (json200 (strf (''{\"txid\":\"'' @ hexs (txid t) @ ''\",\"status\":\"pending\"}'')),
                     a\<lparr>pool := m, p2p := broadcast M_TX raw (-1) (p2p a)\<rparr>))))"

definition rpc_work :: "('k, 'd) ext \<Rightarrow> times \<Rightarrow> http_req \<Rightarrow> 'd app \<Rightarrow> http_resp \<times> 'd app" where
  "rpc_work E tm r a =
     (case (case smap_find (req_query r) ''addr'' of None \<Rightarrow> Some (miner_addr a) | Some v \<Rightarrow> unhex_n 20 v) of
        None \<Rightarrow> (err400 ''bad addr'', a)
      | Some payto \<Rightarrow>
          (let height = chain_height (chain a) + 1;
               ts = collect (ecng E) (pool a) (cstate (chain a)) (params a) height 1000;
               b = candidate payto ts (now_s_at tm 0) a;
               cache = (if length (work_cache a) > 64 then [] else work_cache a)
           in (json200 (strf (''{\"header\":\"'' @ hexs (header_serialize (hdr b)) @ ''\",\"bits\":'' @ dec (unat (h_bits (hdr b))) @
                 '',\"height\":'' @ dec (unat height) @ '',\"tip\":\"'' @ hexs (tip_hash (chain a)) @ ''\",\"ntx\":'' @
                 dec (length (txs b)) @ ''}'')),
               a\<lparr>work_cache := smap_put (h_merkle (hdr b)) (txs b) cache\<rparr>)))"

definition rpc_submitwork :: "('k, 'd) ext \<Rightarrow> times \<Rightarrow> http_req \<Rightarrow> 'd app \<Rightarrow> http_resp \<times> 'd app" where
  "rpc_submitwork E tm r a =
     (case unhex (req_body r) of None \<Rightarrow> (err400 ''body must be hex of 100-byte header'', a)
      | Some raw \<Rightarrow>
          if length raw \<noteq> HEADER_SIZE then (err400 ''body must be hex of 100-byte header'', a)
          else (case header_parse (mk_reader raw) of Inl _ \<Rightarrow> (err400 ''bad header'', a)
           | Inr (h, _) \<Rightarrow>
               (case smap_find (work_cache a) (h_merkle h) of None \<Rightarrow> (err400 ''unknown work (stale tip?)'', a)
                | Some ts \<Rightarrow>
                    (let b = \<lparr>hdr = h, txs = ts\<rparr> in
                     case connect_block E (now_s_at tm 0) b (chain a) of
                       (Some e, ch) \<Rightarrow> (err400 (''rejected: '' @ chain_error_msg e), a\<lparr>chain := ch\<rparr>)
                     | (None, ch) \<Rightarrow>
                         (let a = announce_tip (-1) (post_chain_change (a\<lparr>chain := ch\<rparr>));
                              a = a\<lparr>p2p := broadcast M_BLOCK (block_serialize b) (-1) (p2p a)\<rparr>
                          in (json200 (strf (''{\"ok\":true,\"height\":'' @ dec (unat (h_height h)) @ '',\"hash\":\"'' @
                                hexs (header_hash h) @ ''\"}'')), a))))))"

definition handle_rpc :: "('k, 'd) ext \<Rightarrow> times \<Rightarrow> (string \<Rightarrow> string) \<Rightarrow> string \<Rightarrow> http_req \<Rightarrow> 'd app \<Rightarrow> http_resp \<times> 'd app" where
  "handle_rpc E tm read_file viewer_html r a =
     (let path = req_path r in
      if path = ''/'' \<or> path = ''/app'' \<or> path = ''/viewer.html'' then (rpc_viewer read_file viewer_html a, a)
      else if path = ''/help'' then (rpc_help, a)
      else if path = ''/nodes'' then (rpc_nodes a, a)
      else if path = ''/status'' then (rpc_status a, a)
      else if path = ''/balance'' then (rpc_balance r a, a)
      else if path = ''/block'' then (rpc_block r a, a)
      else if path = ''/tx'' then (rpc_tx r a, a)
      else if path = ''/mempool'' then (rpc_mempool a, a)
      else if path = ''/records'' then (rpc_records r a, a)
      else if path = ''/tail'' then (rpc_tail r a, a)
      else if path = ''/submit'' \<and> req_method r = ''POST'' then rpc_submit E r a
      else if path = ''/prove'' then (rpc_prove r a, a)
      else if path = ''/work'' then rpc_work E tm r a
      else if path = ''/submitwork'' \<and> req_method r = ''POST'' then rpc_submitwork E tm r a
      else (err404 ''unknown endpoint (GET / for help)'', a))"

end
