(* ===== verification/Instances.thy ===== *)
theory Instances
  imports ChainDb Mempool
begin

text \<open>
  Concrete instances of the two libraries the program links against, used to show that
  the hypotheses of the theorems can be met: an in-memory database with the statements
  \<^verbatim>\<open>core.h\<close> issues (\<open>mini_sql\<close>, which satisfies \<open>sqlite_laws\<close>) and a transparent signature scheme
  (\<open>mini_cng\<close>, which satisfies \<open>cng_laws\<close>).  On top of them, a small network: parameters with
  no proof of work, its genesis chain, and one block that extends it.
\<close>

subsection \<open>An in-memory database\<close>

type_synonym mini_db = "bool \<times> (int \<times> bytes) list"

definition mini_tbl :: "mini_db \<Rightarrow> (int, bytes) smap" where
  "mini_tbl d = (if smap_ok (snd d) then snd d else [])"

definition mini_step :: "string \<Rightarrow> (nat \<Rightarrow> sqlval) \<Rightarrow> mini_db \<Rightarrow> mini_db" where
  "mini_step s v d =
     (if s = sql_insert_block then
        (case (v 1, v 6) of (SInt h, SBlob raw) \<Rightarrow> (fst d, smap_put h raw (mini_tbl d)) | _ \<Rightarrow> d)
      else if s = sql_delete_blocks then
        (case v 1 of SInt h \<Rightarrow> (fst d, below h (mini_tbl d)) | _ \<Rightarrow> d)
      else d)"

definition mini_sql :: "mini_db sqlite" where
  "mini_sql = \<lparr>
     sq_exec = (\<lambda>s d. (True, if s = sql_create_txs then (True, snd d) else d)),
     sq_prepare = (\<lambda>s d. fst d),
     sq_step = mini_step,
     sq_blobs = (\<lambda>s d. map (\<lambda>(h, raw). if raw = [] then None else Some raw) (mini_tbl d))\<rparr>"

lemma smap_ok_mini_tbl [simp]: "smap_ok (mini_tbl d)"
  by (simp add: mini_tbl_def)

lemma smap_ok_below [simp]: "smap_ok m \<Longrightarrow> smap_ok (below h m)"
  by (simp add: smap_ok_def below_def sorted_wrt_filter sorted_wrt_map)

lemma statements_distinct [simp]:
  "sql_delete_blocks \<noteq> sql_insert_block" "sql_insert_tx \<noteq> sql_insert_block" "sql_insert_tx \<noteq> sql_delete_blocks"
  "sql_delete_txs \<noteq> sql_insert_block" "sql_delete_txs \<noteq> sql_delete_blocks"
  by (simp_all add: sql_insert_block_def sql_delete_blocks_def sql_insert_tx_def sql_delete_txs_def)

lemma mini_tbl_step:
  "v 1 = SInt h \<Longrightarrow> v 6 = SBlob raw \<Longrightarrow> mini_tbl (mini_step sql_insert_block v d) = smap_put h raw (mini_tbl d)"
  "v 1 = SInt h \<Longrightarrow> mini_tbl (mini_step sql_delete_blocks v d) = below h (mini_tbl d)"
  "mini_step sql_insert_tx v d = d" "mini_step sql_delete_txs v d = d"
  "fst (mini_step s v d) = fst d"
  by (auto simp: mini_step_def smap_ok_put split: sqlval.splits)
    (simp_all add: mini_tbl_def smap_ok_put)

lemma mini_sql_laws: "sqlite_laws mini_sql mini_tbl fst"
proof -
  have ready: "fst (snd (exec_all mini_sql init_schema d))" for d
    by (simp add: init_schema_def db_exec_def mini_sql_def)
  have exec: "mini_tbl (snd (sq_exec mini_sql s d)) = mini_tbl d" "fst (sq_exec mini_sql s d)"
    "fst d \<Longrightarrow> fst (snd (sq_exec mini_sql s d))" for s d
    by (simp_all add: mini_sql_def mini_tbl_def)
  have stmt: "sq_prepare mini_sql s d = fst d" "sq_step mini_sql = mini_step"
    "sq_blobs mini_sql s d = map (\<lambda>(h, raw). if raw = [] then None else Some raw) (mini_tbl d)" for s d
    by (simp_all add: mini_sql_def)
  show ?thesis
    unfolding sqlite_laws_def by (simp add: ready exec stmt mini_tbl_step)
qed

subsection \<open>A transparent signature scheme\<close>

text \<open>
  What the node relies on of CNG: a signature made with the private half of a key blob
  verifies under the public half, whatever the randomness.
\<close>

definition cng_laws :: "'k cng \<Rightarrow> bool" where
  "cng_laws c \<longleftrightarrow> (\<forall>blob k rnd digest sig.
     length blob = 104 \<longrightarrow> cng_import_private c blob = Some k \<longrightarrow> cng_sign c rnd k digest = Some sig \<longrightarrow>
     (\<exists>k'. cng_import_public c (pub_blob (take 64 (drop 8 blob))) = Some k' \<and> cng_verify c k' digest sig))"

definition mini_cng :: "bytes cng" where
  "mini_cng = \<lparr>cng_open = True, cng_generate = (\<lambda>rnd. Some (replicate 104 (of_nat rnd))),
     cng_export_private = Some, cng_import_private = (\<lambda>blob. Some (take 64 (drop 8 blob))),
     cng_import_public = (\<lambda>blob. Some (drop 8 blob)),
     cng_sign = (\<lambda>rnd k digest. Some (digest @ take 32 k)), cng_verify = (\<lambda>k digest sig. sig = digest @ take 32 k)\<rparr>"

lemma drop_pub_blob: "drop 8 (pub_blob pub) = pub"
  by (simp add: pub_blob_def wire_simps)

lemma mini_cng_laws: "cng_laws mini_cng"
  by (simp add: cng_laws_def mini_cng_def drop_pub_blob)

definition mini_ext :: "(bytes, mini_db) ext" where
  "mini_ext = \<lparr>ecng = mini_cng, esq = mini_sql\<rparr>"

lemma mini_ext_simps [simp]: "ecng mini_ext = mini_cng" "esq mini_ext = mini_sql"
  by (simp_all add: mini_ext_def)

subsection \<open>A small network\<close>

definition mini_params :: params where
  "mini_params = default_params\<lparr>p_bits := 0\<rparr>"

definition mini_genesis :: block where
  "mini_genesis = make_genesis mini_params"

definition mini_coinbase :: tx where
  "mini_coinbase = tx_default\<lparr>tx_type := TX_COINBASE, tx_net_id := p_net_id mini_params, tx_amount := 50, tx_nonce := 1\<rparr>"

definition mini_block :: block where
  "mini_block = \<lparr>hdr = header_default\<lparr>h_net_id := p_net_id mini_params, h_prev := header_hash (hdr mini_genesis),
     h_merkle := txid mini_coinbase, h_height := 1, h_time := 1753000100\<rparr>, txs = [mini_coinbase]\<rparr>"

lemma mini_params_simps [simp]:
  "p_net_id mini_params = 0x4C495445" "p_bits mini_params = 0" "p_reward mini_params = 50"
  by (simp_all add: mini_params_def default_params_def)

lemma merkle_root_single: "merkle_root [x] = x"
  by (simp add: merkle_root_def root_loop.simps)

lemma mini_genesis_ok: "genesis_ok mini_params mini_genesis" "block_arrays mini_genesis"
  by (simp_all add: genesis_ok_def mini_genesis_def genesis_arrays)

lemma mini_chain_genesis: "valid_chain c mini_params [mini_genesis]"
  by (rule valid_chain.genesis) (rule mini_genesis_ok)+

lemma mini_coinbase_runs: "runs c mini_params 1 0 [] [mini_coinbase]"
  by (simp add: mini_coinbase_def apply_tx_def tx_default_def is_zero_def)

lemma mini_block_extends: "extends_ok c mini_params [mini_genesis] mini_block"
proof -
  have "replay [mini_genesis] = []"
    by (simp add: replay_def mini_genesis_def genesis_arrays)
  moreover have "h_height (hdr mini_genesis) = 0"
    by (simp add: mini_genesis_def make_genesis_def)
  ultimately show ?thesis
    using mini_coinbase_runs [of c]
    by (simp add: extends_ok_def mini_block_def header_default_def merkle_root_single MAX_BLOCK_TXS_def)
qed

lemma mini_coinbase_arrays: "tx_arrays mini_coinbase"
  by (simp add: tx_arrays_def mini_coinbase_def tx_default_def)

lemma mini_block_arrays: "block_arrays mini_block"
  using mini_coinbase_arrays
  by (simp add: block_arrays_def mini_block_def header_ok_def header_default_def)

lemma mini_chain: "valid_chain c mini_params [mini_genesis, mini_block]"
  using valid_chain.extend [OF mini_chain_genesis _ mini_block_extends mini_block_arrays] by simp

text \<open>The chain of a node that has just connected its genesis block, without and with a database.\<close>

definition mini_start :: "mini_db option \<Rightarrow> mini_db pchain" where
  "mini_start d = connected mini_ext mini_genesis ((new_chain mini_params)\<lparr>cdb := d\<rparr>)"

lemma chain_ok_new_db [simp]: "chain_ok c ((new_chain p)\<lparr>cdb := d\<rparr>)"
  by simp

lemma mini_accepts_genesis: "accepts mini_ext now ((new_chain mini_params)\<lparr>cdb := d\<rparr>) mini_genesis"
  using mini_genesis_ok by (simp add: accepts_def)

lemma mini_start_ok: "chain_ok mini_cng (mini_start d)"
  using chain_ok_connected [OF _ mini_accepts_genesis mini_genesis_ok(2)] unfolding mini_start_def
  by fastforce

lemma mini_start_fields [simp]:
  "blocks (mini_start d) = [mini_genesis]" "cparams (mini_start d) = mini_params" "persisting (mini_start d)"
  by (simp_all add: mini_start_def chain_simps new_chain_def)

lemma mini_start_accepts: "accepts mini_ext 1753000000 (mini_start d) mini_block"
  using mini_block_extends [of mini_cng]
  by (simp add: accepts_def clock_ok_def mini_block_def header_default_def MAX_TIME_SKEW_S_def)

lemma mini_start_mirrors: "mirrors mini_tbl fst (mini_start (Some (True, [])))"
proof -
  have "mirrors mini_tbl fst ((new_chain mini_params)\<lparr>cdb := Some (True, [])\<rparr>)"
    by (simp add: mirrors_def mini_tbl_def new_chain_def)
  moreover have "rooted mini_params [mini_genesis]"
    by (simp add: rooted_def mini_genesis_def)
  ultimately show ?thesis
    unfolding mini_start_def
    using mirrors_connect [of mini_ext mini_tbl fst "(new_chain mini_params)\<lparr>cdb := Some (True, [])\<rparr>" 0 mini_genesis]
      mini_sql_laws mini_accepts_genesis mini_genesis_ok by simp
qed

text \<open>The chain of both blocks.\<close>

definition mini_two :: "mini_db option \<Rightarrow> mini_db pchain" where
  "mini_two d = connected mini_ext mini_block (mini_start d)"

lemma mini_two_ok: "chain_ok mini_cng (mini_two d)"
  using chain_ok_connected [of mini_ext "mini_start d" 1753000000 mini_block]
  by (simp add: mini_two_def mini_start_ok mini_start_accepts mini_block_arrays)

lemma mini_two_fields [simp]: "blocks (mini_two d) = [mini_genesis, mini_block]" "cparams (mini_two d) = mini_params"
  by (simp_all add: mini_two_def chain_simps)

lemma mini_two_mirrors: "mirrors mini_tbl fst (mini_two (Some (True, [])))"
  unfolding mini_two_def
  by (rule mirrors_connect [OF _ _ mini_start_mirrors mini_start_accepts mini_block_arrays])
    (simp_all add: mini_sql_laws mini_start_ok rooted_def mini_genesis_def)

subsection \<open>A signed transaction\<close>

definition mini_key :: keypair where
  "mini_key = \<lparr>kpub = replicate 64 7, kblob = replicate 104 7\<rparr>"

definition mini_draft :: tx where
  "mini_draft = tx_default\<lparr>tx_type := TX_RECORD, tx_net_id := p_net_id mini_params, tx_from := kpub mini_key, tx_payload := [1, 2, 3]\<rparr>"

definition mini_tx :: tx where
  "mini_tx = mini_draft\<lparr>tx_sig := sign_hash mini_draft @ replicate 32 7\<rparr>"

lemma mini_key_ok: "kp_ok mini_key" "\<not> is_zero (kpub mini_key)"
  by (simp_all add: kp_ok_def kp_valid_def mini_key_def is_zero_def)

lemma mini_tx_signed: "sig_verify mini_cng (tx_from mini_tx) (sign_hash mini_tx) (tx_sig mini_tx)"
  by (simp add: sig_verify_def mini_cng_def drop_pub_blob mini_tx_def mini_draft_def mini_key_def sign_hash_def tx_ser_def)

lemma mini_tx_fields:
  "tx_type mini_tx = TX_RECORD" "tx_net_id mini_tx = p_net_id mini_params" "tx_from mini_tx = kpub mini_key"
  "tx_amount mini_tx = 0" "tx_nonce mini_tx = 0" "tx_payload mini_tx = [1, 2, 3]"
  by (simp_all add: mini_tx_def mini_draft_def tx_default_def)

lemma mini_tx_static: "tx_static_ok mini_cng mini_tx mini_params h False"
  using mini_tx_signed mini_key_ok
  by (simp add: tx_static_ok_def mini_tx_fields txtype_defs MAX_PAYLOAD_def)

end
