(* ===== verification/NodeInv.thy ===== *)
theory NodeInv
  imports Rpc Instances
begin

text \<open>
  The running node.  \<open>node_step\<close> interleaves the threads of \<^verbatim>\<open>node_impl.h\<close>: the network thread (a
  turn of its loop, then the callbacks it queued, in order), the miner (take a candidate,
  search, submit or give up), the housekeeping thread and the RPC threads.  \<open>app_ok\<close> is the
  invariant of \<^verbatim>\<open>App\<close>; every handler preserves it, so it holds in every reachable state.
\<close>

subsection \<open>The invariant of the node state\<close>

definition pool_fresh :: "state \<Rightarrow> mempool \<Rightarrow> bool" where
  "pool_fresh st m \<longleftrightarrow> (\<forall>((a, n), t) \<in> set (pm m). find_nonce a st \<le> n \<and> tx_arrays t)"

text \<open>There is room in 64 bits for the coins of one more block.\<close>

definition mintable :: "'d pchain \<Rightarrow> bool" where
  "mintable ch \<longleftrightarrow> length (blocks ch) * unat (p_reward (cparams ch)) < 2 ^ 64"

definition next_height :: "'d pchain \<Rightarrow> u64" where
  "next_height ch = chain_height ch + 1"

text \<open>A transaction list that, as the content of a block on the current tip, passes every check.\<close>

definition template_ok :: "'k cng \<Rightarrow> 'd pchain \<Rightarrow> tx list \<Rightarrow> bool" where
  "template_ok c ch ts \<longleftrightarrow> ts \<noteq> [] \<and> length ts \<le> 1001 \<and> list_all tx_arrays ts \<and>
     (mintable ch \<longrightarrow> runs c (cparams ch) (next_height ch) 0 (cstate ch) ts)"

definition cache_ok :: "'k cng \<Rightarrow> 'd pchain \<Rightarrow> (h256, tx list) smap \<Rightarrow> bool" where
  "cache_ok c ch m \<longleftrightarrow> smap_ok m \<and> (\<forall>(r, ts) \<in> set m. r = merkle_root (map txid ts) \<and> template_ok c ch ts)"

definition core_ok :: "'k cng \<Rightarrow> 'd app \<Rightarrow> bool" where
  "core_ok c a \<longleftrightarrow> chain_ok c (chain a) \<and> blocks (chain a) \<noteq> [] \<and> cparams (chain a) = params a \<and>
     pool_ok c (params a) (pool a) \<and> pool_fresh (cstate (chain a)) (pool a) \<and>
     length (miner_addr a) = 20 \<and> cache_ok c (chain a) (work_cache a)"

definition sync_ok :: "'d app \<Rightarrow> bool" where
  "sync_ok a \<longleftrightarrow> list_all block_arrays (cand a) \<and> length (cand a) \<le> 500000 \<and>
     sync_mode a \<in> {0, 1, 2} \<and> (sync_mode a = 0 \<longleftrightarrow> sync_peer a = -1) \<and> (sync_mode a \<noteq> 2 \<longrightarrow> cand a = [])"

definition app_ok :: "'k cng \<Rightarrow> 'd app \<Rightarrow> bool" where
  "app_ok c a \<longleftrightarrow> core_ok c a \<and> net_ok (p2p a) \<and> sync_ok a"

lemma core_ok_upd [simp]:
  "core_ok c (a\<lparr>p2p := n\<rparr>) = core_ok c a" "core_ok c (a\<lparr>sync_peer := i\<rparr>) = core_ok c a"
  "core_ok c (a\<lparr>sync_mode := i\<rparr>) = core_ok c a" "core_ok c (a\<lparr>sync_extend_got := g\<rparr>) = core_ok c a"
  "core_ok c (a\<lparr>cand := bs\<rparr>) = core_ok c a" "core_ok c (a\<lparr>sync_last_ms := ms\<rparr>) = core_ok c a"
  by (simp_all add: core_ok_def)

lemma sync_ok_upd [simp]:
  "sync_ok (a\<lparr>p2p := n\<rparr>) = sync_ok a" "sync_ok (a\<lparr>chain := ch\<rparr>) = sync_ok a" "sync_ok (a\<lparr>pool := m\<rparr>) = sync_ok a"
  "sync_ok (a\<lparr>work_cache := w\<rparr>) = sync_ok a" "sync_ok (a\<lparr>sync_last_ms := ms\<rparr>) = sync_ok a"
  "sync_ok (a\<lparr>sync_extend_got := g\<rparr>) = sync_ok a" "sync_ok (post_chain_change a) = sync_ok a"
  by (simp_all add: sync_ok_def post_chain_change_def)

lemma sync_ok_reset [simp]: "sync_ok (reset_sync a)"
  by (simp add: sync_ok_def reset_sync_def)

lemma reset_sync_fields [simp]:
  "core_ok c (reset_sync a) = core_ok c a" "p2p (reset_sync a) = p2p a" "chain (reset_sync a) = chain a"
  by (simp_all add: core_ok_def reset_sync_def)

lemma post_chain_change_fields [simp]:
  "p2p (post_chain_change a) = p2p a" "chain (post_chain_change a) = chain a" "params (post_chain_change a) = params a"
  by (simp_all add: post_chain_change_def)

subsection \<open>Network operations\<close>

lemma net_ok_send: "net_ok n \<Longrightarrow> net_ok (send_to i ty payload n)"
  using sm.keys_put [of "peers n" i]
  by (auto simp: send_to_def net_ok_def smap_ok_put smap_find_mem image_iff split: option.splits
      dest!: set_put_fresh [THEN subsetD, rotated])

lemma net_ok_broadcast: "net_ok n \<Longrightarrow> net_ok (broadcast ty payload except n)"
proof -
  assume n: "net_ok n"
  have keys: "map fst (peers (broadcast ty payload except n)) = map fst (peers n)"
    by (simp add: broadcast_def comp_def case_prod_beta)
  then have "smap_ok (peers (broadcast ty payload except n))"
    using n smap_ok_keys by (fastforce simp: net_ok_def)
  moreover have "fst ` set (peers (broadcast ty payload except n)) = fst ` set (peers n)"
    using arg_cong [OF keys, of set] by simp
  ultimately show ?thesis
    using net_ok_peers [OF n, of "peers (broadcast ty payload except n)"] by (simp add: broadcast_def)
qed

lemma announce_tip_fields [simp]:
  "core_ok c (announce_tip i a) = core_ok c a" "chain (announce_tip i a) = chain a" "sync_ok (announce_tip i a) = sync_ok a"
  "net_ok (p2p a) \<Longrightarrow> net_ok (p2p (announce_tip i a))"
  by (simp_all add: announce_tip_def net_ok_broadcast)

lemma request_blocks_fields [simp]:
  "core_ok c (request_blocks ms i s a) = core_ok c a" "chain (request_blocks ms i s a) = chain a"
  "sync_ok (request_blocks ms i s a) = sync_ok a"
  "net_ok (p2p a) \<Longrightarrow> net_ok (p2p (request_blocks ms i s a))"
  by (simp_all add: request_blocks_def net_ok_send)

lemma peer_tip_pos: "net_ok n \<Longrightarrow> peer_tip n i = Some x \<Longrightarrow> 0 < i"
  by (auto simp: peer_tip_def net_ok_def smap_find_mem split: option.splits)

subsection \<open>Changing the chain\<close>

lemma pool_fresh_purge:
  assumes "pool_ok c p m" "pool_fresh st' m"
  shows "pool_fresh st (purge st m)"
  using assms(2) purge_entries(1) [OF assms(1)] by (auto simp: pool_fresh_def)

lemma cache_ok_Nil [simp]: "cache_ok c ch []"
  by (simp add: cache_ok_def)

lemma pool_fresh_arrays: "pool_fresh st m \<Longrightarrow> e \<in> set (pm m) \<Longrightarrow> tx_arrays (snd e)"
  by (auto simp: pool_fresh_def)

lemma core_ok_change:
  assumes "core_ok c a" "chain_ok c ch" "blocks ch \<noteq> []" "cparams ch = params a"
  shows "core_ok c (post_chain_change (a\<lparr>chain := ch\<rparr>))"
  using assms by (auto simp: core_ok_def post_chain_change_def intro: pool_ok_purge pool_fresh_purge)

lemma connect_all_mono: "connect_all E clk i bs ch = (r, j, ch') \<Longrightarrow> i \<le> j"
  by (induction E clk i bs ch rule: connect_all.induct) (force split: prod.splits option.splits)+

lemma connect_all_still:
  assumes "connect_all E clk i bs ch = (r, i, ch')"
  shows "ch' = ch"
proof (cases bs)
  case Nil
  then show ?thesis using assms by simp
next
  case (Cons b bs')
  show ?thesis
  proof (cases "fst (connect_block E (clk i) b ch)")
    case None
    then show ?thesis
      using assms Cons connect_all_mono [of E clk "Suc i" bs'] by (fastforce split: prod.splits option.splits)
  next
    case (Some e)
    then show ?thesis
      using assms Cons connect_block_err [OF Some] by (auto split: prod.splits option.splits)
  qed
qed

text \<open>What one handler may do to the chain.\<close>

definition grows :: "'k cng \<Rightarrow> 'd pchain \<Rightarrow> 'd pchain \<Rightarrow> bool" where
  "grows c ch ch' \<longleftrightarrow> ch' = ch \<or> chain_ok c ch' \<and> cparams ch' = cparams ch \<and>
     ((\<exists>bs. bs \<noteq> [] \<and> blocks ch' = blocks ch @ bs) \<or> work ch < work ch')"

lemma grows_refl [simp]: "grows c ch ch"
  by (simp add: grows_def)

definition handled :: "'k cng \<Rightarrow> 'd app \<Rightarrow> 'd app \<Rightarrow> bool" where
  "handled c a a' \<longleftrightarrow> app_ok c a' \<and> grows c (chain a) (chain a')"

lemma handled_refl [simp]: "handled c a a = app_ok c a"
  by (simp add: handled_def)

text \<open>Handlers that leave chain, pool and work cache alone.\<close>

lemma handled_quiet:
  assumes "app_ok c a" "chain a' = chain a" "core_ok c a' = core_ok c a" "net_ok (p2p a')" "sync_ok a'"
  shows "handled c a a'"
  using assms by (simp add: handled_def app_ok_def)

text \<open>A block was connected, or the chain was replaced: purge the pool and announce the new tip.\<close>

lemma handled_connect:
  assumes a: "app_ok (ecng E) a" and b: "block_arrays b" and r: "connect_block E now b (chain a) = (None, ch)"
  shows "handled (ecng E) a (post_chain_change (a\<lparr>chain := ch\<rparr>))"
proof -
  have core: "core_ok (ecng E) a" "net_ok (p2p a)" "sync_ok a"
    using a by (simp_all add: app_ok_def)
  have ok: "chain_ok (ecng E) (chain a)" "cparams (chain a) = params a"
    using core(1) by (simp_all add: core_ok_def)
  have "accepts E now (chain a) b"
    using connect_block_ok_iff [OF ok(1), of now b] r by simp
  then have ch: "ch = connected E b (chain a)"
    using connect_block_ok [OF ok(1)] r by simp
  have "chain_ok (ecng E) ch"
    using chain_ok_connect_block [OF ok(1) b, of now] r by simp
  then show ?thesis
    using core ok core_ok_change [OF core(1), of ch] by (auto simp: handled_def app_ok_def grows_def ch chain_simps)
qed

lemma connect_failed:
  assumes "connect_block E now b ch = (Some e, ch')"
  shows "ch' = ch"
  using connect_block_err [of E now b ch e] assms by simp

lemma handled_failed:
  "app_ok c a \<Longrightarrow> connect_block E now b (chain a) = (Some e, ch) \<Longrightarrow> handled c a (a\<lparr>chain := ch\<rparr>)"
  using connect_failed [of E now b "chain a" e ch] by simp

lemma handled_broadcast: "handled c a a' \<Longrightarrow> handled c a (a'\<lparr>p2p := broadcast ty payload i (p2p a')\<rparr>)"
  by (simp add: handled_def app_ok_def net_ok_broadcast)

lemma handled_announce: "handled c a a' \<Longrightarrow> handled c a (announce_tip i a')"
  by (simp add: handled_def app_ok_def)

lemma handled_reset: "handled c a a' \<Longrightarrow> handled c a (reset_sync a')"
  by (simp add: handled_def app_ok_def)

lemma handled_request: "handled c a a' \<Longrightarrow> handled c a (request_blocks ms i s a')"
  by (simp add: handled_def app_ok_def)

lemma sync_ok_start: "i \<noteq> -1 \<Longrightarrow> sync_ok (a\<lparr>sync_peer := i, sync_mode := 1, sync_extend_got := g, cand := []\<rparr>)"
  by (simp add: sync_ok_def)

lemma handled_maybe_sync:
  assumes "app_ok c a"
  shows "handled c a (maybe_sync ms i a)"
  using assms peer_tip_pos [of "p2p a" i] sync_ok_start [of i]
  by (auto simp: maybe_sync_def app_ok_def split: option.splits intro!: handled_quiet)

subsection \<open>Blocks from a peer\<close>

lemma handled_sync_ms: "handled c a (a'\<lparr>sync_last_ms := ms\<rparr>) = handled c a a'"
  "handled c (a\<lparr>sync_last_ms := ms\<rparr>) a' = handled c a a'"
  by (simp_all add: handled_def app_ok_def)

lemma handled_got: "handled c a (a'\<lparr>sync_extend_got := g\<rparr>) = handled c a a'"
  by (simp add: handled_def app_ok_def)

lemma handled_connect_all:
  assumes a: "app_ok (ecng E) a" and v: "list_all block_arrays v"
    and r: "connect_all E clk 0 v (chain a) = (err, okc, ch)"
  shows "handled (ecng E) a (if okc > 0 then post_chain_change (a\<lparr>chain := ch\<rparr>) else a\<lparr>chain := ch\<rparr>)"
proof (cases "okc > 0")
  case False
  then have "ch = chain a"
    using connect_all_still r by fastforce
  then show ?thesis using a False by simp
next
  case True
  have core: "core_ok (ecng E) a" "net_ok (p2p a)" "sync_ok a"
    using a by (simp_all add: app_ok_def)
  have ok: "chain_ok (ecng E) (chain a)" "cparams (chain a) = params a" "blocks (chain a) \<noteq> []"
    using core(1) by (simp_all add: core_ok_def)
  note p = connect_all_prefix [OF ok(1) v r]
  have "take okc v \<noteq> []"
    using p True by (metis diff_zero length_0_conv length_take min.absorb2 not_gr0)
  then show ?thesis
    using core ok p True core_ok_change [OF core(1), of ch] by (auto simp: handled_def app_ok_def grows_def)
qed

lemma sync_ok_download: "sync_ok a \<Longrightarrow> sync_mode a \<noteq> 0 \<Longrightarrow> sync_ok (a\<lparr>sync_mode := 2, cand := []\<rparr>)"
  by (auto simp: sync_ok_def)

lemma handled_download: "handled c a a' \<Longrightarrow> sync_mode a' \<noteq> 0 \<Longrightarrow> handled c a (a'\<lparr>sync_mode := 2, cand := []\<rparr>)"
  by (simp add: handled_def app_ok_def sync_ok_download)

lemma handled_sync_extend:
  assumes a: "app_ok (ecng E) a" and v: "list_all block_arrays v" and m: "sync_mode a = 1"
  shows "handled (ecng E) a (sync_extend E tm i v tip a)"
proof -
  obtain err okc ch where r: "connect_all E (now_s_at tm) 0 v (chain a) = (err, okc, ch)"
    by (cases "connect_all E (now_s_at tm) 0 v (chain a)")
  define a1 where "a1 = (if okc > 0 then post_chain_change (a\<lparr>chain := ch\<rparr>) else a\<lparr>chain := ch\<rparr>)"
  have h: "handled (ecng E) a a1"
    unfolding a1_def by (rule handled_connect_all [OF a v r])
  have "sync_mode a1 = 1"
    using m by (simp add: a1_def post_chain_change_def)
  then show ?thesis
    unfolding sync_extend_def r Let_def prod.case a1_def [symmetric]
    using h by (auto simp: handled_got intro!: handled_request handled_download handled_reset handled_announce)
qed

lemma handled_replace:
  assumes a: "app_ok (ecng E) a" and v: "list_all block_arrays bs"
    and r: "try_replace E clk bs (chain a) = (Inr fork, ch)"
  shows "handled (ecng E) a (post_chain_change (a\<lparr>chain := ch\<rparr>))"
proof -
  have core: "core_ok (ecng E) a" "net_ok (p2p a)" "sync_ok a"
    using a by (simp_all add: app_ok_def)
  have ok: "chain_ok (ecng E) (chain a)" "cparams (chain a) = params a"
    using core(1) by (simp_all add: core_ok_def)
  note p = try_replace_ok [OF ok(1) v r]
  show ?thesis
    using core ok p core_ok_change [OF core(1), of ch] by (auto simp: handled_def app_ok_def grows_def)
qed

lemma handled_cand:
  "handled c a a' \<Longrightarrow> sync_mode a' = 2 \<Longrightarrow> list_all block_arrays bs \<Longrightarrow> length bs \<le> 500000 \<Longrightarrow> handled c a (a'\<lparr>cand := bs\<rparr>)"
  by (auto simp: handled_def app_ok_def sync_ok_def)

lemma handled_sync_download:
  assumes a: "app_ok (ecng E) a" and v: "list_all block_arrays v" and m: "sync_mode a = 2"
  shows "handled (ecng E) a (sync_download E tm i v tip a)"
proof (cases "length (cand a @ v) > 500000")
  case True
  moreover have "handled (ecng E) a (reset_sync (a\<lparr>cand := cand a @ v\<rparr>))"
    using a by (simp add: handled_def app_ok_def)
  ultimately show ?thesis by (simp add: sync_download_def)
next
  case False
  define a1 where "a1 = a\<lparr>cand := cand a @ v\<rparr>"
  have v1: "list_all block_arrays (cand a1)"
    using a v by (simp add: a1_def app_ok_def sync_ok_def)
  have h: "handled (ecng E) a a1"
    unfolding a1_def using a m v1 False by (intro handled_cand) (simp_all add: a1_def)
  have ok1: "app_ok (ecng E) a1" and ch1: "chain a1 = chain a"
    using h by (simp_all add: handled_def a1_def)
  have rep: "handled (ecng E) a (post_chain_change (a1\<lparr>chain := ch\<rparr>))"
    if "try_replace E (now_s_at tm) (cand a1) (chain a1) = (Inr fork, ch)" for fork ch
    using handled_replace [OF ok1 v1 that] by (simp add: handled_def ch1)
  have err: "handled (ecng E) a (a1\<lparr>chain := ch\<rparr>)"
    if "try_replace E (now_s_at tm) (cand a1) (chain a1) = (Inl e, ch)" for e ch
    using try_replace_err [OF that] h by simp
  show ?thesis
    unfolding sync_download_def a1_def [symmetric] Let_def
    using False h rep err
    by (auto split: prod.splits sum.splits intro!: handled_request handled_reset handled_announce)
qed

lemma handled_handle_blocks:
  assumes a: "app_ok (ecng E) a" and v: "list_all block_arrays v"
  shows "handled (ecng E) a (handle_blocks E tm i v a)"
proof -
  have "app_ok (ecng E) (a\<lparr>sync_last_ms := ms\<rparr>)" for ms
    using a by (simp add: app_ok_def)
  from handled_sync_extend [OF this v] handled_sync_download [OF this v] show ?thesis
    using a by (simp add: handle_blocks_def handled_sync_ms Let_def)
qed

subsection \<open>Network callbacks\<close>

lemma block_parse_arrays: "block_parse raw = Some b \<Longrightarrow> block_arrays b"
  by (simp add: block_parse_Some_iff block_ok_arrays)

lemma handled_on_blocks:
  assumes "app_ok (ecng E) a"
  shows "handled (ecng E) a (on_blocks E tm i payload a)"
proof (cases "parse_blocks payload")
  case None
  then show ?thesis using assms by (simp add: on_blocks_def)
next
  case (Some v)
  then have "list_all block_arrays v"
    using parse_blocks_ok [OF Some] by (simp add: list_all_iff block_ok_arrays)
  then show ?thesis
    using handled_handle_blocks [OF assms] Some by (simp add: on_blocks_def)
qed

lemma parse_tx_iff: "parse_tx raw = Inr t \<longleftrightarrow> tx_ok t \<and> raw = tx_serialize t"
  using txc.rd_whole [of raw t] by (auto simp: parse_tx_def split: sum.splits prod.splits)

lemma tx_ok_arrays: "tx_ok t \<Longrightarrow> tx_arrays t"
  by (simp add: tx_ok_def tx_arrays_def)

lemma pool_fresh_add:
  assumes "pool_fresh st m" "tx_arrays t" "smap_ok (pm m)"
  shows "pool_fresh st (snd (pool_add c t st p m))"
proof (cases "fst (pool_add c t st p m) = None")
  case True
  then have "find_nonce (sender t) st \<le> tx_nonce t"
    using pool_add_outcome by blast
  then show ?thesis
    using assms True by (auto simp: pool_add_state pool_fresh_def set_smap_put)
next
  case False
  then have "snd (pool_add c t st p m) = m" by (simp only: pool_add_state if_False)
  then show ?thesis using assms by simp
qed

lemma handled_pool_add:
  assumes a: "app_ok c a" and t: "tx_ok t" and r: "pool_add c t (cstate (chain a)) (params a) (pool a) = (e, m)"
  shows "handled c a (a\<lparr>pool := m\<rparr>)"
proof -
  have core: "core_ok c a" "net_ok (p2p a)" "sync_ok a"
    using a by (simp_all add: app_ok_def)
  have pool: "pool_ok c (params a) (pool a)" "pool_fresh (cstate (chain a)) (pool a)"
    using core(1) by (simp_all add: core_ok_def)
  have "pool_ok c (params a) m"
    using pool_ok_add [OF pool(1), of t "cstate (chain a)"] r by simp
  moreover have "pool_fresh (cstate (chain a)) m"
    using pool_fresh_add [OF pool(2) tx_ok_arrays [OF t], of c "params a"] pool(1) r by (simp add: pool_ok_def)
  ultimately show ?thesis
    using core by (simp add: handled_def app_ok_def core_ok_def)
qed

lemma handled_on_tx:
  assumes "app_ok (ecng E) a"
  shows "handled (ecng E) a (on_tx E i payload a)"
  using assms handled_broadcast [OF handled_pool_add [OF assms]] handled_pool_add [OF assms]
  by (auto simp: on_tx_def parse_tx_iff split: sum.splits prod.splits option.splits)

lemma handled_on_block:
  assumes "app_ok (ecng E) a"
  shows "handled (ecng E) a (on_block E tm i payload a)"
proof (cases "block_parse payload")
  case None
  then show ?thesis using assms by (simp add: on_block_def)
next
  case (Some b)
  note b = block_parse_arrays [OF Some]
  obtain e ch where r: "connect_block E (now_s_at tm 0) b (chain a) = (e, ch)"
    by (cases "connect_block E (now_s_at tm 0) b (chain a)")
  show ?thesis
  proof (cases e)
    case None
    then show ?thesis
      using Some r assms handled_broadcast [OF handled_announce [OF handled_connect [OF assms b]]]
      by (auto simp: on_block_def Let_def)
  next
    case (Some e')
    then have "ch = chain a" using connect_failed r by blast
    then show ?thesis
      using Some \<open>block_parse payload = Some b\<close> r assms handled_maybe_sync [OF assms]
      by (auto simp: on_block_def Let_def)
  qed
qed

lemma handled_on_event:
  assumes "app_ok (ecng E) a"
  shows "handled (ecng E) a (on_event E tm e a)"
proof (cases e)
  case (EvReady i)
  then show ?thesis
    using assms by (simp add: on_ready_def handled_def app_ok_def net_ok_send)
next
  case (EvGone i)
  then show ?thesis
    using assms handled_reset [of "ecng E" a a] by (simp add: on_gone_def)
next
  case (EvMsg i ty payload)
  have "handled (ecng E) a (on_get_blocks i payload a)"
    using assms by (auto simp: on_get_blocks_def handled_def app_ok_def net_ok_send split: sum.splits)
  then show ?thesis
    using EvMsg assms
    by (simp add: on_msg_def handled_maybe_sync handled_on_blocks handled_on_tx handled_on_block)
qed

subsection \<open>Candidates\<close>

lemma st_get_credit_nonce: "smap_ok st \<Longrightarrow> tx_type t = TX_COINBASE \<Longrightarrow> tx_effect t st = st_credit (tx_to t) (tx_amount t) st"
  by (simp add: tx_effect_def)

lemma chain_supply:
  assumes "chain_ok c ch" "mintable ch" "blocks ch \<noteq> []"
  shows "coin_supply (cstate ch) + unat (p_reward (cparams ch)) < 2 ^ 64"
proof -
  let ?r = "unat (p_reward (cparams ch))"
  have len: "length (blocks ch) * ?r = (length (blocks ch) - 1) * ?r + ?r"
    using assms(3) by (cases "blocks ch") simp_all
  have "coin_supply (cstate ch) = (length (blocks ch) - 1) * ?r"
    using valid_chain_supply [of c "cparams ch" "blocks ch"] assms len by (simp add: chain_ok_def mintable_def)
  then show ?thesis using assms(2) len by (simp add: mintable_def)
qed

lemma coinbase_applies:
  "fst (apply_tx c st (coinbase_tx p to height) p height True) = None"
  "tx_effect (coinbase_tx p to height) st = st_credit to (p_reward p) st"
  by (simp_all add: coinbase_tx_def tx_default_def apply_tx_def is_zero_def tx_effect_def)

lemma template_collected:
  assumes ch: "chain_ok c ch" "blocks ch \<noteq> []" and p: "p = cparams ch" and to: "length to = 20"
    and pool: "\<forall>e \<in> set (pm m). tx_arrays (snd e)"
  shows "template_ok c ch (coinbase_tx p to (next_height ch) # collect c m (cstate ch) p (next_height ch) 1000)"
proof -
  define ts where "ts = collect c m (cstate ch) p (next_height ch) 1000"
  have st: "smap_ok (cstate ch)"
    using ch(1) by (simp add: chain_ok_def)
  note spec = collect_spec [OF st ts_def]
  have run: "runs c p (next_height ch) (Suc 0) (st_credit to (p_reward p) (cstate ch)) ts" if "mintable ch"
    using runs_richer [OF richer_credit [OF st] spec(1)] chain_supply [OF ch(1) that ch(2)] by (simp add: p)
  have "list_all tx_arrays ts"
    using spec(2) pool by (auto simp: list_all_iff)
  moreover have "tx_arrays (coinbase_tx p to (next_height ch))"
    using to by (simp add: tx_arrays_def coinbase_tx_def tx_default_def)
  ultimately show ?thesis
    unfolding template_ok_def ts_def [symmetric]
    using spec(3) run by (simp add: p coinbase_applies)
qed

lemma candidate_next_height: "h_height (hdr (candidate payto ts now a)) = next_height (chain a)"
  by (simp add: candidate_def next_height_def Let_def)

text \<open>A header over a valid template, with the fields \<^verbatim>\<open>GET /work\<close> and the miner fill in, is accepted.\<close>

lemma template_accepted:
  assumes ch: "chain_ok (ecng E) ch" "blocks ch \<noteq> []" and ts: "template_ok (ecng E) ch ts" "mintable ch"
    and h: "h_version h = CL_VERSION" "h_net_id h = p_net_id (cparams ch)" "h_height h = next_height ch"
      "h_prev h = tip_hash ch" "h_bits h = p_bits (cparams ch)" "h_merkle h = merkle_root (map txid ts)"
    and pow: "pow_ok (header_hash h) (p_bits (cparams ch))" and clk: "h_time h \<le> now + MAX_TIME_SKEW_S"
  shows "accepts E now ch \<lparr>hdr = h, txs = ts\<rparr>"
  using assms chain_ok_tip [OF ch]
  by (simp add: accepts_def extends_ok_def template_ok_def next_height_def chain_height_def clock_ok_def
      chain_ok_def MAX_BLOCK_TXS_def)

subsection \<open>The miner\<close>

definition with_nonce :: "header \<Rightarrow> u64 \<Rightarrow> header" where
  "with_nonce h nc = h\<lparr>h_nonce := nc\<rparr>"

lemma with_nonce_simps [simp]: "with_nonce (with_nonce h m) n = with_nonce h n" "header_ok (with_nonce h n) = header_ok h"
  by (simp_all add: with_nonce_def header_ok_def)

text \<open>The nonce the miner tries satisfies the target of the header it belongs to.\<close>

definition solves :: "header \<Rightarrow> u32 \<Rightarrow> u64 \<Rightarrow> bool" where
  "solves h bits nc \<longleftrightarrow> pow_ok (header_hash (with_nonce h nc)) bits"

lemma patch_try:
  assumes "header_ok h"
  shows "patch_nonce (header_serialize h) nc = header_serialize (with_nonce h nc)"
    "pow_ok (sha256d (header_serialize (with_nonce h nc))) bits \<longleftrightarrow> solves h bits nc"
  using assms by (simp_all add: patch_nonce_serialize with_nonce_def solves_def header_hash_eq)

lemma solves_with_nonce [simp]: "solves (with_nonce h m) bits = solves h bits"
  by (simp add: solves_def fun_eq_iff)

lemma mine_batch_Suc:
  assumes "header_ok h"
  shows "mine_batch (Suc n) bits (header_serialize h) nc =
    (if solves h bits nc then (True, header_serialize (with_nonce h nc), nc)
     else mine_batch n bits (header_serialize (with_nonce h nc)) (nc + 1))"
  using assms by (simp add: patch_try)

lemma mine_batch_miss:
  assumes "header_ok h" "\<forall>k < n. \<not> solves h bits (nc + of_nat k)"
  shows "\<exists>m. mine_batch n bits (header_serialize h) nc = (False, header_serialize (with_nonce h m), nc + of_nat n)"
  using assms
proof (induction n arbitrary: nc h)
  case 0
  have "with_nonce h (h_nonce h) = h" by (simp add: with_nonce_def)
  then show ?case by (intro exI [of _ "h_nonce h"]) simp
next
  case (Suc n)
  have "\<not> solves h bits nc"
    using spec [OF Suc.prems(2), of 0] by simp
  moreover have "\<not> solves h bits (nc + 1 + of_nat k)" if "k < n" for k
    using spec [OF Suc.prems(2), of "Suc k"] that by (simp add: add.assoc)
  ultimately show ?case
    using Suc.IH [of "with_nonce h nc" "nc + 1"] Suc.prems(1) by (simp add: mine_batch_Suc add.assoc del: mine_batch.simps)
qed

lemma mine_batch_hit:
  assumes "header_ok h" "k < n" "solves h bits (nc + of_nat k)" "\<forall>j < k. \<not> solves h bits (nc + of_nat j)"
  shows "mine_batch n bits (header_serialize h) nc = (True, header_serialize (with_nonce h (nc + of_nat k)), nc + of_nat k)"
  using assms
proof (induction n arbitrary: nc h k)
  case (Suc n)
  show ?case
  proof (cases k)
    case 0
    then show ?thesis using Suc.prems by (simp add: mine_batch_Suc del: mine_batch.simps)
  next
    case (Suc k')
    then have "\<not> solves h bits nc"
      using spec [OF Suc.prems(4), of 0] by simp
    moreover have "\<not> solves h bits (nc + 1 + of_nat j)" if "j < k'" for j
      using spec [OF Suc.prems(4), of "Suc j"] that Suc by (simp add: add.assoc)
    ultimately show ?thesis
      using Suc.IH [of "with_nonce h nc" k' "nc + 1"] Suc.prems Suc
      by (simp add: mine_batch_Suc add.assoc del: mine_batch.simps)
  qed
qed simp

lemma mine_batch_cases:
  assumes "header_ok h"
  obtains (miss) m where "mine_batch n bits (header_serialize h) nc = (False, header_serialize (with_nonce h m), nc + of_nat n)"
      "\<forall>k < n. \<not> solves h bits (nc + of_nat k)"
    | (hit) k where "mine_batch n bits (header_serialize h) nc = (True, header_serialize (with_nonce h (nc + of_nat k)), nc + of_nat k)"
      "k < n" "solves h bits (nc + of_nat k)"
proof (cases "\<exists>k < n. solves h bits (nc + of_nat k)")
  case False
  then show ?thesis using miss mine_batch_miss [OF assms] by blast
next
  case True
  define k where "k = (LEAST k. k < n \<and> solves h bits (nc + of_nat k))"
  have k: "k < n \<and> solves h bits (nc + of_nat k)"
    unfolding k_def using True by (rule LeastI_ex)
  have "\<forall>j < k. \<not> solves h bits (nc + of_nat j)"
    using not_less_Least [of _ "\<lambda>k. k < n \<and> solves h bits (nc + of_nat k)"] k unfolding k_def by fastforce
  then show ?thesis using hit mine_batch_hit [OF assms, of k n] k by blast
qed

lemma mine_loop_sound:
  assumes "header_ok h" "mine_loop go k bits (header_serialize h) nc tried = (True, m)"
  shows "solves h bits m"
  using assms
proof (induction "2 ^ 40 - tried" arbitrary: h k nc tried rule: less_induct)
  case less
  from less.prems(1) show ?case
  proof (cases rule: mine_batch_cases [where n = 100000 and bits = bits and nc = nc])
    case (miss m')
    then have go: "\<not> tried + 100000 > 2 ^ 40"
      and r: "mine_loop go (Suc k) bits (header_serialize (with_nonce h m')) (nc + 100000) (tried + 100000) = (True, m)"
      using less.prems(2) by (simp_all add: mine_loop.simps [of go k] split: if_splits)
    from go have "2 ^ 40 - (tried + 100000) < 2 ^ 40 - tried" by simp
    from less.hyps [OF this _ r] show ?thesis using less.prems(1) by simp
  next
    case (hit i)
    then show ?thesis
      using less.prems(2) by (auto simp: mine_loop.simps [of go k] split: if_splits)
  qed
qed

lemma mine_loop_complete:
  assumes "header_ok h" "\<forall>k. go k" "j < 2 ^ 40 - tried" "solves h bits (nc + of_nat j)"
  shows "fst (mine_loop go k bits (header_serialize h) nc tried)"
  using assms
proof (induction "2 ^ 40 - tried" arbitrary: h k nc tried j rule: less_induct)
  case less
  from less.prems(1) show ?case
  proof (cases rule: mine_batch_cases [where n = 100000 and bits = bits and nc = nc])
    case (miss m)
    then have j: "100000 \<le> j"
      using less.prems(4) by (meson not_less)
    then have "\<not> tried + 100000 > 2 ^ 40" and dec: "2 ^ 40 - (tried + 100000) < 2 ^ 40 - tried"
      using less.prems(3) by simp_all
    then have "mine_loop go k bits (header_serialize h) nc tried =
        mine_loop go (Suc k) bits (header_serialize (with_nonce h m)) (nc + 100000) (tried + 100000)"
      using miss(1) less.prems(2) by (subst mine_loop.simps) simp
    moreover have "nc + 100000 + of_nat (j - 100000) = nc + of_nat j"
      using j by (simp add: of_nat_diff)
    ultimately show ?thesis
      using less.hyps [OF dec, of "with_nonce h m" "j - 100000" "nc + 100000" "Suc k"] less.prems j by simp
  next
    case (hit i)
    then show ?thesis
      using less.prems(2) by (subst mine_loop.simps) simp
  qed
qed

lemma length_merkle_root: "length (merkle_root (map txid ts)) = 32"
proof (cases "ts = []")
  case True
  then show ?thesis by (simp add: merkle_root_def)
next
  case False
  then obtain k where "tree_node (map txid ts) k (merkle_root (map txid ts))"
    using root_is_node by (metis map_is_Nil_conv)
  then show ?thesis
    using length_lvl_elems [of "map txid ts" k] by (simp add: tree_node_def)
qed

lemma candidate_fields:
  assumes "ts' = coinbase_tx (params a) payto (next_height (chain a)) # ts"
  shows "candidate payto ts now a = \<lparr>hdr = \<lparr>h_version = CL_VERSION, h_net_id = p_net_id (params a), h_prev = tip_hash (chain a),
    h_merkle = merkle_root (map txid ts'), h_height = next_height (chain a), h_time = now,
    h_bits = p_bits (params a), h_nonce = 0\<rparr>, txs = ts'\<rparr>"
  by (simp add: candidate_def Let_def next_height_def header_default_def assms)

lemma candidate_arrays:
  assumes "core_ok c a" "template_ok c (chain a) (coinbase_tx (params a) payto (next_height (chain a)) # ts)"
  shows "block_arrays (candidate payto ts now a)"
  using assms chain_ok_tip [of c "chain a"] length_merkle_root
  by (simp add: candidate_fields block_arrays_def header_ok_def template_ok_def core_ok_def del: list.map)

lemma core_template:
  assumes "core_ok c a" "length payto = 20"
  shows "template_ok c (chain a) (coinbase_tx (params a) payto (next_height (chain a)) #
    collect c (pool a) (cstate (chain a)) (params a) (next_height (chain a)) 1000)"
proof -
  have "\<forall>e \<in> set (pm (pool a)). tx_arrays (snd e)"
    using assms(1) pool_fresh_arrays by (auto simp: core_ok_def)
  then show ?thesis
    using assms template_collected [of c "chain a" "params a" payto "pool a"] by (simp add: core_ok_def)
qed

lemma miner_prepare_Some:
  assumes "core_ok (ecng E) a" "miner_prepare E tm a = Some (seq, b)"
  obtains ts where "template_ok (ecng E) (chain a) (coinbase_tx (params a) (miner_addr a) (next_height (chain a)) # ts)"
    "b = candidate (miner_addr a) ts (now_s_at tm 1) a" "seq = tip_seq a" "block_arrays b"
  using assms core_template [OF assms(1), of "miner_addr a"] candidate_arrays [OF assms(1)]
  by (auto simp: miner_prepare_def Let_def core_ok_def next_height_def split: if_splits)

lemma handled_mined:
  assumes a: "app_ok (ecng E) a" and b: "block_arrays b" and r: "connect_block E now b (chain a) = (None, ch)"
  shows "handled (ecng E) a ((announce_tip (-1) (post_chain_change (a\<lparr>chain := ch\<rparr>)))
    \<lparr>p2p := broadcast M_BLOCK raw (-1) (p2p (announce_tip (-1) (post_chain_change (a\<lparr>chain := ch\<rparr>))))\<rparr>)"
  by (rule handled_broadcast [OF handled_announce [OF handled_connect [OF a b r]]])

lemma handled_miner_submit:
  assumes "app_ok (ecng E) a" "block_arrays b"
  shows "handled (ecng E) a (miner_submit E tm seq b nc a)"
proof -
  have b: "block_arrays (b\<lparr>hdr := (hdr b)\<lparr>h_nonce := nc\<rparr>\<rparr>)"
    using assms(2) by (simp add: block_arrays_def header_ok_def)
  show ?thesis
    using assms(1) handled_mined [OF assms(1) b] handled_failed [OF assms(1)]
    by (auto simp: miner_submit_def Let_def split: prod.splits option.splits)
qed

lemma handled_periodic:
  assumes "app_ok c a"
  shows "handled c a (periodic_tick tm k a)"
  using assms handled_announce [of c a a] handled_reset by (auto simp: periodic_tick_def Let_def)

subsection \<open>RPC\<close>

lemma cache_ok_put:
  assumes "cache_ok c ch m" "template_ok c ch ts" "r = merkle_root (map txid ts)"
  shows "cache_ok c ch (smap_put r ts m)"
  using assms set_smap_put [of m r ts] by (auto simp: cache_ok_def smap_ok_put)

lemma unhex_n_length: "unhex_n n s = Some b \<Longrightarrow> length b = n"
  by (auto simp: unhex_n_def split: option.splits if_splits)

lemma handled_cache:
  assumes a: "app_ok (ecng E) a" and to: "length payto = 20" and m: "m = [] \<or> m = work_cache a"
    and b: "b = candidate payto (collect (ecng E) (pool a) (cstate (chain a)) (params a) (chain_height (chain a) + 1) 1000) now a"
  shows "handled (ecng E) a (a\<lparr>work_cache := smap_put (h_merkle (hdr b)) (txs b) m\<rparr>)"
proof -
  have core: "core_ok (ecng E) a" using a by (simp add: app_ok_def)
  then have "cache_ok (ecng E) (chain a) m"
    using m by (auto simp: core_ok_def)
  from cache_ok_put [OF this core_template [OF core to] refl]
  have "core_ok (ecng E) (a\<lparr>work_cache := smap_put (h_merkle (hdr b)) (txs b) m\<rparr>)"
    using core by (simp add: core_ok_def b candidate_fields next_height_def)
  then show ?thesis
    using a by (simp add: handled_def app_ok_def)
qed

lemma handled_rpc_work:
  assumes a: "app_ok (ecng E) a"
  shows "handled (ecng E) a (snd (rpc_work E tm r a))"
proof (cases "case smap_find (req_query r) ''addr'' of None \<Rightarrow> Some (miner_addr a) | Some v \<Rightarrow> unhex_n 20 v")
  case None
  then show ?thesis using a by (simp add: rpc_work_def)
next
  case (Some payto)
  then have "length payto = 20"
    using a by (auto simp: app_ok_def core_ok_def dest: unhex_n_length split: option.splits)
  from handled_cache [OF a this _ refl] Some show ?thesis
    by (simp add: rpc_work_def Let_def)
qed

lemma handled_rpc_submitwork:
  assumes a: "app_ok (ecng E) a"
  shows "handled (ecng E) a (snd (rpc_submitwork E tm r a))"
proof -
  have cache: "block_arrays \<lparr>hdr = h, txs = ts\<rparr>"
    if "smap_find (work_cache a) root = Some ts" "header_parse (mk_reader raw) = Inr (h, r')" for root ts h raw r'
  proof -
    have "header_ok h"
      using that(2) by (auto simp: mk_reader_rat elim: hdrc.rdE)
    then show ?thesis
      using that(1) a by (auto simp: app_ok_def core_ok_def cache_ok_def smap_find_mem template_ok_def block_arrays_def)
  qed
  show ?thesis
    using a handled_mined [OF a cache] handled_failed [OF a]
    by (auto simp: rpc_submitwork_def Let_def split: option.splits sum.splits prod.splits)
qed

lemma handled_rpc_submit:
  assumes "app_ok (ecng E) a"
  shows "handled (ecng E) a (snd (rpc_submit E r a))"
  using assms handled_broadcast [OF handled_pool_add [OF assms]] handled_pool_add [OF assms]
  by (auto simp: rpc_submit_def parse_tx_iff split: sum.splits prod.splits option.splits)

lemma handled_rpc:
  assumes "app_ok (ecng E) a"
  shows "handled (ecng E) a (snd (handle_rpc E tm read_file viewer_html r a))"
  using assms by (simp add: handle_rpc_def Let_def handled_rpc_work handled_rpc_submitwork handled_rpc_submit)

subsection \<open>The threads of a node\<close>

text \<open>
  \<open>nevs\<close> are the events of the last network turn still to be delivered, \<open>nmine\<close> the candidate
  the miner thread is searching a nonce for.
\<close>

record 'd node =
  napp :: "'d app"
  nevs :: "ev list"
  nmine :: "(u64 \<times> block) option"

inductive node_step :: "('k, 'd) ext \<Rightarrow> 'd node \<Rightarrow> 'd node \<Rightarrow> bool" for E where
  net: "nevs s = [] \<Longrightarrow> net_turn io (p2p (napp s)) = (n, evs) \<Longrightarrow>
     node_step E s (s\<lparr>napp := (napp s)\<lparr>p2p := n\<rparr>, nevs := evs\<rparr>)"
| deliver: "nevs s = e # es \<Longrightarrow> node_step E s (s\<lparr>napp := on_event E tm e (napp s), nevs := es\<rparr>)"
| prepare: "nmine s = None \<Longrightarrow> miner_prepare E tm (napp s) = Some job \<Longrightarrow> node_step E s (s\<lparr>nmine := Some job\<rparr>)"
| found: "nmine s = Some (seq, b) \<Longrightarrow>
     mine_loop go 0 (h_bits (hdr b)) (header_serialize (hdr b)) nc0 0 = (True, nc) \<Longrightarrow>
     node_step E s (s\<lparr>napp := miner_submit E tm seq b nc (napp s), nmine := None\<rparr>)"
| give_up: "nmine s = Some (seq, b) \<Longrightarrow>
     mine_loop go 0 (h_bits (hdr b)) (header_serialize (hdr b)) nc0 0 = (False, nc) \<Longrightarrow>
     node_step E s (s\<lparr>nmine := None\<rparr>)"
| tick: "node_step E s (s\<lparr>napp := periodic_tick tm k (napp s)\<rparr>)"
| rpc: "node_step E s (s\<lparr>napp := snd (handle_rpc E tm read_file viewer_html r (napp s))\<rparr>)"

definition node_ok :: "'k cng \<Rightarrow> 'd node \<Rightarrow> bool" where
  "node_ok c s \<longleftrightarrow> app_ok c (napp s) \<and> (\<forall>seq b. nmine s = Some (seq, b) \<longrightarrow> block_arrays b)"

definition node_start :: "'k cng \<Rightarrow> 'd node \<Rightarrow> bool" where
  "node_start c s \<longleftrightarrow> app_ok c (napp s) \<and> nevs s = [] \<and> nmine s = None"

lemma node_step_handled:
  assumes "node_step E s s'" "node_ok (ecng E) s"
  shows "handled (ecng E) (napp s) (napp s') \<and> node_ok (ecng E) s'"
proof -
  have a: "app_ok (ecng E) (napp s)"
    using assms(2) by (simp add: node_ok_def)
  from assms show ?thesis
  proof cases
    case (net io n evs)
    then have "net_ok n"
      using a net_ok_turn [of "p2p (napp s)" io] by (simp add: app_ok_def)
    then show ?thesis
      using net assms(2) a by (simp add: handled_def app_ok_def node_ok_def)
  next
    case (deliver e es tm)
    then show ?thesis
      using assms(2) handled_on_event [OF a] by (auto simp: node_ok_def handled_def)
  next
    case (prepare tm job)
    then show ?thesis
      using assms(2) a by (cases job) (auto simp: node_ok_def handled_def app_ok_def elim: miner_prepare_Some)
  next
    case (found seq b go nc0 nc tm)
    then show ?thesis
      using assms(2) handled_miner_submit [OF a] by (auto simp: node_ok_def handled_def)
  next
    case (give_up seq b go nc0 nc)
    then show ?thesis
      using assms(2) a by (simp add: node_ok_def handled_def)
  next
    case (tick tm k)
    then show ?thesis
      using assms(2) handled_periodic [OF a] by (auto simp: node_ok_def handled_def)
  next
    case (rpc tm read_file viewer_html r)
    then show ?thesis
      using assms(2) handled_rpc [OF a] by (auto simp: node_ok_def handled_def)
  qed
qed

interpretation nd: step_system "node_step E" "node_start (ecng E)" "node_ok (ecng E)" for E :: "('k, 'd) ext"
proof
  show "node_ok (ecng E) s" if "node_start (ecng E) s" for s
    using that by (simp add: node_start_def node_ok_def)
  show "node_ok (ecng E) s'" if "node_ok (ecng E) s" "node_step E s s'" for s s'
    using node_step_handled [OF that(2,1)] by simp
qed

subsection \<open>Most work means longest chain\<close>

text \<open>The work of a chain as a number that does not wrap.\<close>

definition total_work :: "params \<Rightarrow> nat \<Rightarrow> nat" where
  "total_work p n = (if n = 0 then 0 else 1 + (n - 1) * unat (work_of (p_bits p)))"

lemma valid_chain_work:
  "valid_chain c p bs \<Longrightarrow> total_work p (length bs) < 2 ^ 64 \<Longrightarrow> unat (chain_work bs) = total_work p (length bs)"
proof (induction rule: valid_chain.induct)
  case empty
  then show ?case by (simp add: chain_work_def total_work_def)
next
  case (genesis b)
  then show ?case by (simp add: chain_work_def total_work_def)
next
  case (extend bs b)
  let ?w = "unat (work_of (p_bits p))"
  have w: "block_work b = work_of (p_bits p)"
    using extend.hyps by (simp add: block_work_def extends_ok_def)
  have step: "total_work p (length (bs @ [b])) = total_work p (length bs) + ?w"
    using extend.hyps(2) by (cases bs) (simp_all add: total_work_def)
  then have "unat (chain_work bs) = total_work p (length bs)"
    using extend.IH extend.prems by linarith
  then show ?case
    using extend step w unat_plus_no_wrap [of "chain_work bs" "block_work b"] by (simp add: chain_work_snoc)
qed

lemma work_of_pos: "0 < unat (work_of bits)"
proof (cases "63 \<le> bits")
  case False
  then have "unat bits < 63" by (simp add: word_le_nat_alt)
  moreover have "work_of bits = 2 ^ unat bits" using False by (simp add: work_of_def push_bit_eq_mult)
  ultimately have "work_of bits \<noteq> 0" by simp
  then show ?thesis by (simp add: unat_gt_0)
qed (simp add: work_of_def unat_gt_0)

lemma total_work_less: "total_work p m < total_work p n \<longleftrightarrow> m < n"
proof -
  have "strict_mono (total_work p)"
    using work_of_pos [of "p_bits p"] by (intro strict_mono_Suc_iff [THEN iffD2]) (simp add: total_work_def)
  then show ?thesis by (rule strict_mono_less)
qed

lemma most_work_longest:
  assumes "chain_ok c ch" "chain_ok c ch'" "cparams ch' = cparams ch"
    and "total_work (cparams ch) (length (blocks ch)) < 2 ^ 64" "total_work (cparams ch) (length (blocks ch')) < 2 ^ 64"
  shows "work ch < work ch' \<longleftrightarrow> length (blocks ch) < length (blocks ch')"
  using assms valid_chain_work [of c "cparams ch" "blocks ch"] valid_chain_work [of c "cparams ch" "blocks ch'"]
  by (simp add: chain_ok_def word_less_nat_alt total_work_less)

subsection \<open>Synchronisation\<close>

text \<open>A peer's chain that this node would accept block by block.\<close>

definition acceptable :: "('k, 'd) ext \<Rightarrow> times \<Rightarrow> params \<Rightarrow> block list \<Rightarrow> bool" where
  "acceptable E tm p bs \<longleftrightarrow> valid_chain (ecng E) p bs \<and> (\<forall>b \<in> set bs. \<forall>k. clock_ok (now_s_at tm k) b)"

lemma acceptable_blocks_ok: "acceptable E tm p bs \<Longrightarrow> set cs \<subseteq> set bs \<Longrightarrow> list_all block_ok cs"
  by (auto simp: acceptable_def list_all_iff intro: valid_chain_block_ok)

lemma on_blocks_payload:
  assumes "list_all block_ok v" "length v \<le> 500"
  shows "on_blocks E tm i (blocks_payload v) a = handle_blocks E tm i v a"
  using parse_blocks_payload [OF assms] by (simp add: on_blocks_def)

lemma extend_with_peer:
  assumes ch: "chain_ok (ecng E) ch" "blocks ch = take n bs" "cparams ch = p" and bs: "acceptable E tm p bs" and n: "0 < n"
    and r: "connect_all E (now_s_at tm) 0 v ch = (err, okc, ch')" and v: "v = take k (drop n bs)"
  shows "err = None \<and> okc = length v \<and> blocks ch' = take n bs @ v \<and> chain_ok (ecng E) ch'"
proof -
  have arr: "list_all block_arrays v"
    using acceptable_blocks_ok [OF bs, of v] block_ok_arrays set_take_subset [of k] set_drop_subset [of n]
    by (auto simp: v list_all_iff dest: in_set_takeD in_set_dropD)
  have eq: "take n bs @ v = take (n + k) bs"
    by (simp add: v take_add)
  have clk: "\<forall>j < length v. clock_ok (now_s_at tm (0 + j)) (v ! j)"
    using bs by (auto simp: acceptable_def v dest!: nth_mem dest: in_set_takeD in_set_dropD)
  have "accepts_all (ecng E) p (now_s_at tm) 0 (take n bs) v"
    using accepts_all_iff [OF _ arr, of "ecng E" p "take n bs" "now_s_at tm" 0] bs clk
    by (auto simp: eq acceptable_def intro: valid_chain_take)
  then have "err = None"
    using connect_all_None_iff [OF ch(1) arr, of "now_s_at tm" 0] ch r by simp
  then show ?thesis
    using connect_all_prefix [OF ch(1) arr r] ch(2) by simp
qed

lemma sync_extend_chain:
  assumes "connect_all E (now_s_at tm) 0 v (chain a) = (err, okc, ch)"
  shows "chain (sync_extend E tm i v tip a) = ch"
  using assms by (simp add: sync_extend_def Let_def)

lemma sync_follows:
  assumes a: "app_ok (ecng E) a" "sync_peer a = i" "sync_mode a = 1"
    and bs: "acceptable E tm (params a) bs" "blocks (chain a) = take n bs"
    and v: "v = take k (drop n bs)" "length v \<le> 500"
  shows "blocks (chain (on_blocks E tm i (blocks_payload v) a)) = take (n + k) bs"
proof -
  have core: "chain_ok (ecng E) (chain a)" "cparams (chain a) = params a" "take n bs \<noteq> []"
    using a(1) bs(2) by (simp_all add: app_ok_def core_ok_def)
  have "list_all block_ok v"
    using acceptable_blocks_ok [OF bs(1)] by (auto simp: v dest: in_set_takeD in_set_dropD)
  note step = on_blocks_payload [OF this v(2)]
  obtain err okc ch where r: "connect_all E (now_s_at tm) 0 v (chain a) = (err, okc, ch)"
    by (cases "connect_all E (now_s_at tm) 0 v (chain a)")
  have "0 < n" using core(3) by (cases n) simp_all
  from extend_with_peer [OF core(1) bs(2) core(2) bs(1) this r v(1)]
  have "blocks ch = take (n + k) bs" by (simp add: v(1) take_add)
  then show ?thesis
    unfolding step handle_blocks_def using a r sync_extend_chain [of E tm v "a\<lparr>sync_last_ms := now_ms_at tm 0\<rparr>"]
    by (simp add: Let_def)
qed

lemma sync_adopts:
  assumes a: "app_ok (ecng E) a" "sync_peer a = i" "sync_mode a = 2"
    and bs: "acceptable E tm (params a) bs" "cand a = take n bs" "n \<le> length bs" "length bs \<le> 500000" "bs \<noteq> []"
    and more: "work (chain a) < chain_work bs"
    and v: "v = drop n bs" "length v \<le> 500"
    and tip: "v = [] \<or> (\<exists>ph pw hsh. peer_tip (p2p a) i = Some (ph, pw, hsh) \<and> ph \<le> h_height (hdr (last bs)))"
  shows "blocks (chain (on_blocks E tm i (blocks_payload v) a)) = bs \<and> sync_peer (on_blocks E tm i (blocks_payload v) a) = -1"
proof -
  have ok: "list_all block_ok bs" "list_all block_ok v"
    using acceptable_blocks_ok [OF bs(1)] by (auto simp: v dest: in_set_dropD)
  then have arr: "list_all block_arrays bs"
    by (simp add: list_all_iff block_ok_arrays)
  have ch: "chain_ok (ecng E) (chain a)" "cparams (chain a) = params a"
    using a(1) by (simp_all add: app_ok_def core_ok_def)
  define a1 where "a1 = a\<lparr>sync_last_ms := now_ms_at tm 0\<rparr>"
  have full: "cand a1 @ v = bs" by (simp add: a1_def bs(2) v(1))
  have fin: "v = [] \<or> (\<exists>ph pw hsh. peer_tip (p2p a1) i = Some (ph, pw, hsh) \<and> ph \<le> h_height (hdr (last bs)))"
    using tip by (simp add: a1_def)
  obtain fork where fork: "fst (try_replace E (now_s_at tm) bs (chain a)) = Inr fork"
    using try_replace_iff [OF ch(1) arr, of "now_s_at tm"] bs(1,5) more ch(2) by (auto simp: acceptable_def)
  then obtain ch' where r: "try_replace E (now_s_at tm) bs (chain a) = (Inr fork, ch')"
    by (metis prod.collapse)
  have "blocks ch' = bs" by (rule try_replace_ok(2) [OF ch(1) arr r])
  moreover have "sync_download E tm i v (peer_tip (p2p a1) i) a1 =
      reset_sync (announce_tip (-1) (post_chain_change (a1\<lparr>cand := bs, chain := ch'\<rparr>)))"
    using fin bs(4,5) r full by (auto simp: sync_download_def Let_def a1_def)
  ultimately show ?thesis
    unfolding on_blocks_payload [OF ok(2) v(2)] handle_blocks_def Let_def
    using a(2,3) by (simp add: a1_def [symmetric]) (simp add: reset_sync_def a1_def)
qed

subsection \<open>The miner's block is accepted\<close>

lemma mined_block_connects:
  assumes a: "app_ok (ecng E) a" "mintable (chain a)"
    and b: "miner_prepare E tm a = Some (seq, b)"
    and m: "mine_loop go 0 (h_bits (hdr b)) (header_serialize (hdr b)) nc0 0 = (True, nc)"
    and same: "chain a' = chain a" "params a' = params a" "tip_seq a' = tip_seq a"
    and clk: "now_s_at tm 1 \<le> now_s_at tm' 0 + MAX_TIME_SKEW_S"
  shows "blocks (chain (miner_submit E tm' seq b nc a')) = blocks (chain a) @ [b\<lparr>hdr := (hdr b)\<lparr>h_nonce := nc\<rparr>\<rparr>]"
proof -
  have core: "core_ok (ecng E) a" using a(1) by (simp add: app_ok_def)
  obtain ts where ts: "template_ok (ecng E) (chain a) (coinbase_tx (params a) (miner_addr a) (next_height (chain a)) # ts)"
      "b = candidate (miner_addr a) ts (now_s_at tm 1) a" "seq = tip_seq a" "block_arrays b"
    by (rule miner_prepare_Some [OF core b])
  have ch: "chain_ok (ecng E) (chain a)" "blocks (chain a) \<noteq> []" "cparams (chain a) = params a"
    using core by (simp_all add: core_ok_def)
  have "solves (hdr b) (h_bits (hdr b)) nc"
    using mine_loop_sound [OF _ m] ts(4) by (simp add: block_arrays_def)
  then have pow: "pow_ok (header_hash ((hdr b)\<lparr>h_nonce := nc\<rparr>)) (p_bits (params a))"
    by (simp add: solves_def with_nonce_def ts(2) candidate_fields [OF refl])
  have eq: "b\<lparr>hdr := (hdr b)\<lparr>h_nonce := nc\<rparr>\<rparr> = \<lparr>hdr = (hdr b)\<lparr>h_nonce := nc\<rparr>, txs = txs b\<rparr>"
    by simp
  have acc: "accepts E (now_s_at tm' 0) (chain a) (b\<lparr>hdr := (hdr b)\<lparr>h_nonce := nc\<rparr>\<rparr>)"
    unfolding eq using pow clk ts(1) a(2) ch by (intro template_accepted) (simp_all add: ts(2) candidate_fields [OF refl])
  show ?thesis
    using connect_block_ok [OF ch(1) acc] by (simp add: miner_submit_def same ts(3) Let_def chain_simps)
qed

subsection \<open>A small node\<close>

definition mini_app :: "mini_db option \<Rightarrow> mini_db app" where
  "mini_app d = \<lparr>params = mini_params, chain = mini_start d, pool = mempool0,
     p2p = \<lparr>net_id = p_net_id mini_params, listen_port = 7501, targets = [], peers = [], next_id = 1, last_reconnect = 0\<rparr>,
     miner_addr = replicate 20 0, mine_on = True, heartbeat_s = 1, webroot = [], rpc_peers = [], rpc_port = 8501, tip_seq = 0,
     sync_peer = -1, sync_mode = 0, sync_extend_got = 0, cand = [], sync_last_ms = 0, work_cache = []\<rparr>"

definition mini_times :: times where
  "mini_times = \<lparr>now_s_at = (\<lambda>_. 1753000100), now_ms_at = (\<lambda>_. 0)\<rparr>"

definition mini_node :: "mini_db node" where
  "mini_node = \<lparr>napp = mini_app None, nevs = [], nmine = None\<rparr>"

lemma mini_app_ok: "app_ok mini_cng (mini_app d)"
  using mini_start_ok [of d] pool_ok_empty [of mini_cng mini_params]
  by (simp add: app_ok_def core_ok_def sync_ok_def net_ok_def mini_app_def pool_fresh_def mempool0_def)

lemma mini_node_start: "node_start (ecng mini_ext) mini_node"
  by (simp add: node_start_def mini_node_def mini_app_ok)

lemma mini_mintable: "mintable (mini_start d)"
  by (simp add: mintable_def)

lemma mini_acceptable: "acceptable mini_ext mini_times mini_params [mini_genesis, mini_block]"
  using mini_chain [of mini_cng]
  by (simp add: acceptable_def clock_ok_def mini_times_def mini_block_def mini_genesis_def make_genesis_def mini_params_def
      default_params_def MAX_TIME_SKEW_S_def)

end
