(* ===== verification/HttpClient.thy ===== *)
theory HttpClient
  imports NodeInv
begin

text \<open>
  \<^verbatim>\<open>src/http_client.h\<close>: the blocking HTTP client of \<^verbatim>\<open>clctl\<close>, the GPU miner and the launcher.
  The sockets are an argument: given host, port and the request text, either the connection
  fails or the pieces \<^verbatim>\<open>recv\<close> returns are known.

  Lemmas: whatever pieces a request arrives in, the server of \<^verbatim>\<open>rpc.h\<close> reads the method, target
  and body the client wrote, and the client reads the status and body the server rendered;
  so a call of the client is a call of \<^verbatim>\<open>handle_rpc\<close>.
\<close>

type_synonym wire_fun = "string \<Rightarrow> u16 \<Rightarrow> string \<Rightarrow> string list option"

definition http_request :: "string \<Rightarrow> u16 \<Rightarrow> string \<Rightarrow> string \<Rightarrow> string \<Rightarrow> string" where
  "http_request host port m path body =
     strf (m @ '' '' @ path @ '' HTTP/1.1'' @ crlf @ ''Host: '' @ host @ '':'' @ dec (unat port) @ crlf @
       ''Content-Length: '' @ dec (length body) @ crlf @ ''Connection: close'' @ crlf @ crlf) @ body"

fun client_recv :: "string list \<Rightarrow> string \<Rightarrow> string" where
  "client_recv [] resp = resp"
| "client_recv (piece # rest) resp =
     (if length (resp @ piece) > 64 * 1024 * 1024 then resp @ piece else client_recv rest (resp @ piece))"

definition http_response :: "string \<Rightarrow> int \<times> string" where
  "http_response resp =
     (case cut_at (crlf @ crlf) resp of None \<Rightarrow> (-1, [])
      | Some (_, body) \<Rightarrow>
          (case cut_at '' '' resp of None \<Rightarrow> -1
           | Some (pre, s) \<Rightarrow> if length pre + 4 \<le> length resp then atoi s else -1, body))"

definition http_call :: "wire_fun \<Rightarrow> string \<Rightarrow> u16 \<Rightarrow> string \<Rightarrow> string \<Rightarrow> string \<Rightarrow> int \<times> string" where
  "http_call wire host port m path body =
     (case wire host port (http_request host port m path body) of None \<Rightarrow> (-1, [])
      | Some pieces \<Rightarrow> http_response (client_recv pieces []))"

subsection \<open>The server reads what the client wrote\<close>

text \<open>Hosts are dotted addresses, methods are words, and a target has no blank, line end or colon.\<close>

definition plain_host :: "string \<Rightarrow> bool" where
  "plain_host h \<longleftrightarrow> (\<forall>c \<in> set h. is_digit c \<or> c = CHR ''.'')"

definition plain_target :: "string \<Rightarrow> bool" where
  "plain_target p \<longleftrightarrow> (\<forall>c \<in> set p. c \<noteq> CHR '' '' \<and> c \<noteq> CHR 0x0D \<and> c \<noteq> CHR '':'')"

definition request_line :: "string \<Rightarrow> string \<Rightarrow> string" where
  "request_line m path = m @ '' '' @ path @ '' HTTP/1.1''"

definition request_head :: "string \<Rightarrow> u16 \<Rightarrow> string \<Rightarrow> string \<Rightarrow> nat \<Rightarrow> string" where
  "request_head host port m path n = request_line m path @ crlf @ ''Host: '' @ host @ '':'' @ dec (unat port) @ crlf @
     ''Content-Length: '' @ dec n @ crlf @ ''Connection: close''"

text \<open>The path and the query of a target, as \<^verbatim>\<open>rpc.h\<close> splits it.\<close>

definition target_path :: "string \<Rightarrow> string" where
  "target_path t = (case cut_at ''?'' t of None \<Rightarrow> t | Some (p, q) \<Rightarrow> p)"

definition target_query :: "string \<Rightarrow> (string, string) smap" where
  "target_query t = (case cut_at ''?'' t of None \<Rightarrow> [] | Some (p, q) \<Rightarrow> fold add_query (split_on CHR ''&'' q) [])"

lemma length_dec_u16: "length (dec (unat (v :: u16))) \<le> 5"
proof -
  have "unat v < 10 ^ Suc 4" using unat_bound [of v] by simp
  then show ?thesis using length_dec [of _ 4] by fastforce
qed

lemma http_request_head:
  assumes "length m + length path + length host \<le> 3900" "length body < 10 ^ 20"
  shows "http_request host port m path body = request_head host port m path (length body) @ crlf @ crlf @ body"
proof -
  have "length (dec (length body)) \<le> 20" using assms(2) length_dec [of "length body" 19] by simp
  then show ?thesis
    using assms(1) length_dec_u16 [of port]
    by (simp add: http_request_def request_head_def request_line_def strf_short crlf_def)
qed

lemma no_cr:
  "CHR 0x0D \<notin> set (dec n)" "plain_target p \<Longrightarrow> CHR 0x0D \<notin> set p" "plain_host h \<Longrightarrow> CHR 0x0D \<notin> set h"
  using dec_no_char [of "CHR 0x0D"] by (auto simp: plain_target_def plain_host_def is_digit_def less_eq_char_def)

text \<open>Lines without a carriage return, up to the blank one.\<close>

lemma cut_blank_line:
  assumes "CHR 0x0D \<notin> set l"
  shows "cut_at (crlf @ crlf) (l @ crlf @ crlf @ s) = Some (l, s)"
    "c \<noteq> CHR 0x0D \<Longrightarrow> cut_at (crlf @ crlf) (l @ crlf @ c # s) =
       map_option (\<lambda>(a, b). (l @ crlf @ a, b)) (cut_at (crlf @ crlf) (c # s))"
proof -
  show "cut_at (crlf @ crlf) (l @ crlf @ crlf @ s) = Some (l, s)"
    using cut_at_first [of "crlf @ crlf" l s] assms by (simp add: crlf_def)
  show "cut_at (crlf @ crlf) (l @ crlf @ c # s) =
       map_option (\<lambda>(a, b). (l @ crlf @ a, b)) (cut_at (crlf @ crlf) (c # s))" if "c \<noteq> CHR 0x0D"
    using that assms
    by (cases "cut_at (crlf @ crlf) (c # s)")
      (auto simp: cut_at_skip crlf_def starts_with_def simp del: cut_at.simps, auto simp: starts_with_def crlf_def)
qed

lemma cut_request:
  assumes "plain_target m" "plain_target path" "plain_host host"
  shows "cut_at (crlf @ crlf) (request_head host port m path n @ crlf @ crlf @ body) =
    Some (request_head host port m path n, body)"
proof -
  have cr: "CHR 0x0D \<notin> set (request_line m path)" "CHR 0x0D \<notin> set (''Host: '' @ host @ '':'' @ dec (unat port))"
      "CHR 0x0D \<notin> set (''Content-Length: '' @ dec n)" "CHR 0x0D \<notin> set ''Connection: close''"
    using assms no_cr by (auto simp: request_line_def)
  have 1: "cut_at (crlf @ crlf) (''Connection: close'' @ crlf @ crlf @ body) = Some (''Connection: close'', body)"
    by (rule cut_blank_line(1) [OF cr(4)])
  have 2: "cut_at (crlf @ crlf) (''Content-Length: '' @ dec n @ crlf @ ''Connection: close'' @ crlf @ crlf @ body) =
      Some (''Content-Length: '' @ dec n @ crlf @ ''Connection: close'', body)"
    using cut_blank_line(2) [OF cr(3), of "CHR ''C''"] 1 by simp
  have 3: "cut_at (crlf @ crlf) (''Host: '' @ host @ '':'' @ dec (unat port) @ crlf @
      ''Content-Length: '' @ dec n @ crlf @ ''Connection: close'' @ crlf @ crlf @ body) =
      Some (''Host: '' @ host @ '':'' @ dec (unat port) @ crlf @ ''Content-Length: '' @ dec n @ crlf @ ''Connection: close'', body)"
    using cut_blank_line(2) [OF cr(2), of "CHR ''C''"] 2 by simp
  show ?thesis
    using cut_blank_line(2) [OF cr(1), of "CHR ''H''"] 3 by (simp add: request_head_def)
qed

lemma cut_last_space_append: "CHR '' '' \<notin> set s \<Longrightarrow> cut_last_space (p @ '' '' @ s) = Some (p, s)"
  using takeWhile_neq [of "CHR '' ''" "rev s" "rev p"] by (simp add: cut_last_space_def)

lemma parse_request_head:
  assumes "plain_target m" "plain_target path"
  shows "parse_head (request_head host port m path n) =
    Some \<lparr>req_method = m, req_path = target_path path, req_query = target_query path, req_body = []\<rparr>"
proof -
  have "CHR 0x0D \<notin> set (request_line m path)" using assms no_cr by (auto simp: request_line_def)
  then have line: "cut_at crlf (request_head host port m path n) = Some (request_line m path,
      ''Host: '' @ host @ '':'' @ dec (unat port) @ crlf @ ''Content-Length: '' @ dec n @ crlf @ ''Connection: close'')"
    using cut_at_first [of crlf "request_line m path"] by (simp add: request_head_def crlf_def)
  have first: "cut_at '' '' (request_line m path) = Some (m, path @ '' HTTP/1.1'')"
    using cut_at_first [of "'' ''" m "path @ '' HTTP/1.1''"] assms(1) by (auto simp: plain_target_def request_line_def)
  have last: "cut_last_space (request_line m path) = Some (m @ '' '' @ path, ''HTTP/1.1'')"
    using cut_last_space_append [of "''HTTP/1.1''" "m @ '' '' @ path"] by (simp add: request_line_def)
  show ?thesis
    unfolding parse_head_def line option.case prod.case Let_def first last
    by (simp add: target_path_def target_query_def split_on.simps [of _ "[]"] split: option.splits)
qed

lemma tolower_colon: "tolower_char c = CHR '':'' \<longleftrightarrow> c = CHR '':''"
proof (cases "CHR ''A'' \<le> c \<and> c \<le> CHR ''Z''")
  case True
  then have n: "65 \<le> (of_char c :: nat)" "(of_char c :: nat) \<le> 90" by (simp_all add: less_eq_char_def)
  have "char_of ((of_char c :: nat) + 32) \<noteq> CHR '':''"
  proof
    assume "char_of ((of_char c :: nat) + 32) = CHR '':''"
    then have "(of_char (char_of ((of_char c :: nat) + 32)) :: nat) = of_char CHR '':''" by simp
    then show False using n by (simp add: of_char_of)
  qed
  then show ?thesis using True n by (auto simp: tolower_char_def)
qed (auto simp: tolower_char_def)

definition lower :: "string \<Rightarrow> string" where
  "lower s = map tolower_char s"

lemma lower_simps [simp]: "lower (s @ t) = lower s @ lower t" "lower [] = []" "lower (c # s) = tolower_char c # lower s"
  by (simp_all add: lower_def)

lemma colon_lower: "CHR '':'' \<notin> set (lower s) \<longleftrightarrow> CHR '':'' \<notin> set s"
proof -
  have "CHR '':'' = tolower_char c \<longleftrightarrow> c = CHR '':''" for c
    by (subst eq_commute) (rule tolower_colon)
  then show ?thesis by (auto simp: lower_def image_iff)
qed

lemma lower_digits: "\<forall>c \<in> set s. is_digit c \<or> c = CHR ''.'' \<Longrightarrow> lower s = s"
  by (induction s) (auto simp: tolower_char_def is_digit_def less_eq_char_def)

lemma atoll_dec: "int n < 2 ^ 63 \<Longrightarrow> s = [] \<or> \<not> is_digit (hd s) \<Longrightarrow> atoll ('' '' @ dec n @ s) = int n"
proof -
  assume n: "int n < 2 ^ 63" and s: "s = [] \<or> \<not> is_digit (hd s)"
  have "scan_int ('' '' @ dec n @ s) = scan_int (dec n @ s)"
    by (simp add: scan_int_def is_space_def)
  then show ?thesis using n scan_int_dec [OF s, of n] by (simp add: atoll_def)
qed

lemma content_length_head:
  assumes "plain_target m" "plain_target path" "plain_host host" "int n < 2 ^ 63"
  shows "content_length (request_head host port m path n) = n"
proof -
  let ?q = "''content-length''" and ?x = "CHR '':''"
  let ?tail = "'' '' @ dec n @ lower crlf @ lower ''Connection: close''"
  define w1 where "w1 = lower (request_line m path @ crlf @ ''Host'')"
  define w2 where "w2 = '' '' @ host"
  define w3 where "w3 = dec (unat port) @ crlf @ ?q"
  have low: "lower host = host" "lower (dec k) = dec k" "lower crlf = crlf" for k
    using assms(3) dec_digits by (simp_all add: lower_digits plain_host_def crlf_def tolower_char_def less_eq_char_def)
  have shape: "map tolower_char (request_head host port m path n) = w1 @ ?x # w2 @ ?x # w3 @ ?x # ?tail"
    unfolding lower_def [symmetric] w1_def w2_def w3_def request_head_def
    by (simp add: low, simp add: tolower_char_def less_eq_char_def char_of_def bit_iff_odd)
  have dec: "?x \<notin> set (dec k)" for k
    by (rule dec_no_char) (simp add: is_digit_def less_eq_char_def)
  have c1: "?x \<notin> set w1"
    unfolding w1_def colon_lower using assms(1,2) by (auto simp: request_line_def plain_target_def crlf_def)
  have c2: "?x \<notin> set w2"
    using assms(3) by (auto simp: w2_def plain_host_def is_digit_def less_eq_char_def)
  have c3: "?x \<notin> set w3"
    using dec by (simp add: w3_def crlf_def)
  note colon = c1 c2 c3
  have no1: "\<not> (\<exists>u. w1 = u @ ?q)"
  proof
    assume "\<exists>u. w1 = u @ ?q"
    then have "last w1 = CHR ''h''" by auto
    moreover have "last w1 = CHR ''t''" by (simp add: w1_def tolower_char_def less_eq_char_def)
    ultimately show False by simp
  qed
  have no2: "\<not> (\<exists>u. w2 = u @ ?q)"
  proof
    assume "\<exists>u. w2 = u @ ?q"
    then have "CHR ''h'' \<in> set w2" by auto
    then show False using assms(3) by (auto simp: w2_def plain_host_def is_digit_def less_eq_char_def)
  qed
  have "cut_at (?q @ [?x]) (w3 @ ?x # ?tail) = Some (dec (unat port) @ crlf, ?tail)"
    using cut_at_last [OF _ colon(3), of ?q ?tail] by (auto simp: w3_def)
  then have "cut_at (?q @ [?x]) (w1 @ ?x # w2 @ ?x # w3 @ ?x # ?tail) =
      Some (w1 @ ?x # w2 @ ?x # dec (unat port) @ crlf, ?tail)"
    using cut_at_last [OF _ colon(1), of ?q] cut_at_last [OF _ colon(2), of ?q] no1 no2 by simp
  moreover have "atoll ?tail = int n"
    using atoll_dec [OF assms(4), of "lower crlf @ lower ''Connection: close''"]
    by (simp add: crlf_def tolower_char_def is_digit_def less_eq_char_def)
  ultimately show ?thesis
    using assms(4) unfolding content_length_def shape by (simp add: unat_of_nat take_bit_nat_eq_self)
qed

text \<open>Reading in pieces: the head ends in the first piece that completes the blank line.\<close>

lemma cut_at_covers:
  "cut_at pat (x @ y) = Some (a, b) \<Longrightarrow> length a + length pat \<le> length x \<Longrightarrow> \<exists>b'. cut_at pat x = Some (a, b')"
proof (induction x arbitrary: a)
  case Nil
  then show ?case by simp
next
  case (Cons c x)
  show ?case
  proof (cases "starts_with pat (c # x @ y)")
    case True
    then have "a = []" using Cons.prems(1) by simp
    then have "starts_with pat (c # x)" using True Cons.prems(2) by (auto simp: starts_with_def take_Cons')
    then show ?thesis using \<open>a = []\<close> by simp
  next
    case False
    then obtain a' where a': "cut_at pat (x @ y) = Some (a', b)" "a = c # a'" using Cons.prems(1) by auto
    have "\<not> starts_with pat (c # x)" using False by (metis append.assoc append_Cons starts_with_iff)
    then show ?thesis using Cons.IH [OF a'(1)] Cons.prems(2) a'(2) by auto
  qed
qed

lemma recv_head_pieces:
  assumes "cut_at (crlf @ crlf) (req @ concat pieces) = Some (head, body)" "cut_at (crlf @ crlf) req = None" "length head \<le> 5000"
  shows "\<exists>bp rest. recv_head pieces req = Some (head, bp, rest) \<and> bp @ concat rest = body"
  using assms(1,2)
proof (induction pieces arbitrary: req)
  case Nil
  then show ?case by simp
next
  case (Cons piece pieces)
  have "length req < length head + 4"
    using cut_at_covers [OF Cons.prems(1)] Cons.prems(2) by (fastforce simp: crlf_def)
  then have small: "\<not> length req \<ge> 1024 * 1024" using assms(3) by simp
  show ?case
  proof (cases "cut_at (crlf @ crlf) (req @ piece)")
    case None
    then show ?thesis using Cons.IH [of "req @ piece"] Cons.prems(1) small by simp
  next
    case (Some hb)
    then obtain h b where hb: "cut_at (crlf @ crlf) (req @ piece) = Some (h, b)" by (cases hb) simp
    then have "h = head \<and> b @ concat pieces = body"
      using cut_at_append [OF hb, of "concat pieces"] Cons.prems(1) by simp
    then show ?thesis using hb small by auto
  qed
qed

lemma recv_body_all:
  assumes "length (body @ concat pieces) = n" "\<forall>p \<in> set pieces. p \<noteq> []"
  shows "recv_body n pieces body = body @ concat pieces"
  using assms
proof (induction pieces arbitrary: body)
  case (Cons piece pieces)
  then have "length body < n" by (cases piece) auto
  then show ?case using Cons by simp
qed simp

lemma recv_head_rest: "recv_head pieces req = Some (h, b, rest) \<Longrightarrow> set rest \<subseteq> set pieces"
  by (induction pieces arbitrary: req) (auto split: if_splits option.splits)

lemma length_request_head:
  "length (request_head host port m path n) \<le> 200 + length m + length path + length host" if "n < 10 ^ 20"
proof -
  have "length (dec n) \<le> 20" using that length_dec [of n 19] by simp
  then show ?thesis
    using length_dec_u16 [of port] by (simp add: request_head_def request_line_def crlf_def)
qed

lemma server_reads_request:
  assumes "plain_target m" "plain_target path" "plain_host host" "length m + length path + length host \<le> 3900"
    and "length body \<le> 4 * 1024 * 1024"
    and "concat pieces = http_request host port m path body" "\<forall>p \<in> set pieces. p \<noteq> []"
  shows "parse_request pieces = Some \<lparr>req_method = m, req_path = target_path path, req_query = target_query path, req_body = body\<rparr>"
proof -
  let ?head = "request_head host port m path (length body)"
  have shape: "concat pieces = ?head @ crlf @ crlf @ body"
    unfolding assms(6) by (rule http_request_head) (use assms(4,5) in simp_all)
  have "length ?head \<le> 5000"
    using length_request_head [of "length body" host port m path] assms(4,5) by simp
  then obtain bp rest where r: "recv_head pieces [] = Some (?head, bp, rest)" "bp @ concat rest = body"
    using recv_head_pieces [of "[]" pieces ?head body] cut_request [OF assms(1-3)] shape by (auto simp: crlf_def)
  have "content_length ?head = length body"
    using assms(5) by (intro content_length_head [OF assms(1-3)]) simp
  moreover have "recv_body (length body) rest bp = body"
    using recv_body_all [of bp rest "length body"] r recv_head_rest [OF r(1)] assms(7) by auto
  ultimately show ?thesis
    using assms(5) r(1) by (simp add: parse_request_def parse_request_head [OF assms(1,2)])
qed

subsection \<open>The client reads what the server wrote\<close>

definition response_ok :: "http_resp \<Rightarrow> bool" where
  "response_ok r \<longleftrightarrow> resp_code r \<in> {200, 400, 404, 500} \<and> CHR 0x0D \<notin> set (resp_ctype r) \<and> length (resp_ctype r) \<le> 100 \<and>
     length (resp_body r) \<le> 60 * 1024 * 1024"

lemma client_recv_all:
  "length (resp @ concat pieces) \<le> 64 * 1024 * 1024 \<Longrightarrow> client_recv pieces resp = resp @ concat pieces"
  by (induction pieces arbitrary: resp) auto

lemma client_reads_response:
  assumes "response_ok r" "concat pieces = render_response r"
  shows "http_response (client_recv pieces []) = (resp_code r, resp_body r)"
proof -
  let ?st = "http_status (resp_code r)" and ?len = "dec (length (resp_body r))"
  have len: "length ?len \<le> 20"
    using assms(1) length_dec [of "length (resp_body r)" 19] by (simp add: response_ok_def)
  have st: "length ?st \<le> 30" "CHR 0x0D \<notin> set ?st"
    by (simp_all add: http_status_def)
  let ?l1 = "''HTTP/1.1 '' @ ?st" and ?l2 = "''Content-Type: '' @ resp_ctype r" and ?l3 = "''Content-Length: '' @ ?len"
  let ?l4 = "''Access-Control-Allow-Origin: *''" and ?l5 = "''Connection: close''"
  have shape: "render_response r = ?l1 @ crlf @ ?l2 @ crlf @ ?l3 @ crlf @ ?l4 @ crlf @ ?l5 @ crlf @ crlf @ resp_body r"
    using assms(1) len st(1) by (simp add: render_response_def strf_short response_ok_def crlf_def)
  have "length (render_response r) \<le> 64 * 1024 * 1024"
    unfolding shape using assms(1) len st(1) by (simp add: response_ok_def crlf_def)
  then have all: "client_recv pieces [] = render_response r"
    using client_recv_all [of "[]" pieces] assms(2) by simp
  have cr: "CHR 0x0D \<notin> set ?l1" "CHR 0x0D \<notin> set ?l2" "CHR 0x0D \<notin> set ?l3" "CHR 0x0D \<notin> set ?l4" "CHR 0x0D \<notin> set ?l5"
    using st(2) assms(1) no_cr(1) by (simp_all add: response_ok_def)
  have 1: "cut_at (crlf @ crlf) (?l5 @ crlf @ crlf @ resp_body r) = Some (?l5, resp_body r)"
    by (rule cut_blank_line(1) [OF cr(5)])
  have 2: "\<exists>h. cut_at (crlf @ crlf) (?l4 @ crlf @ ?l5 @ crlf @ crlf @ resp_body r) = Some (h, resp_body r)"
    using cut_blank_line(2) [OF cr(4), of "CHR ''C''"] 1 by simp
  have 3: "\<exists>h. cut_at (crlf @ crlf) (?l3 @ crlf @ ?l4 @ crlf @ ?l5 @ crlf @ crlf @ resp_body r) = Some (h, resp_body r)"
    using cut_blank_line(2) [OF cr(3), of "CHR ''A''"] 2 by auto
  have 4: "\<exists>h. cut_at (crlf @ crlf) (?l2 @ crlf @ ?l3 @ crlf @ ?l4 @ crlf @ ?l5 @ crlf @ crlf @ resp_body r) = Some (h, resp_body r)"
    using cut_blank_line(2) [OF cr(2), of "CHR ''C''"] 3 by auto
  have 5: "\<exists>h. cut_at (crlf @ crlf) (render_response r) = Some (h, resp_body r)"
    unfolding shape using cut_blank_line(2) [OF cr(1), of "CHR ''C''"] 4 by auto
  have sp: "cut_at '' '' (''HTTP/1.1 '' @ z) = Some (''HTTP/1.1'', z)" for z
    using cut_at_first [of "'' ''" "''HTTP/1.1''" z] by simp
  have code: "atoi (?st @ z) = resp_code r" for z
    using assms(1) by (auto simp: response_ok_def http_status_def atoi_def scan_int_def is_space_def is_digit_def
        dec_value_def digit_val_def less_eq_char_def)
  obtain h where h: "cut_at (crlf @ crlf) (render_response r) = Some (h, resp_body r)" using 5 by blast
  obtain z where z: "render_response r = ''HTTP/1.1 '' @ ?st @ z" unfolding shape by simp
  have "cut_at '' '' (render_response r) = Some (''HTTP/1.1'', ?st @ z)" unfolding z by (rule sp)
  moreover have "8 + 4 \<le> length (render_response r)" unfolding z by (simp add: http_status_def)
  ultimately show ?thesis
    unfolding all http_response_def h by (simp add: code)
qed

subsection \<open>A call of the client is a call of the handler\<close>

definition std_resp :: "http_resp \<Rightarrow> bool" where
  "std_resp r \<longleftrightarrow> resp_code r \<in> {200, 400, 404} \<and>
     resp_ctype r \<in> {''application/json'', ''text/plain'', ''text/html; charset=utf-8''}"

lemma std_resp_simps [simp]: "std_resp (err400 e)" "std_resp (err404 e)" "std_resp (json200 b)" "std_resp (text200 b)"
  by (simp_all add: std_resp_def err400_def err404_def json200_def text200_def)

lemma std_resp_read:
  "std_resp (rpc_viewer read_file viewer_html a)" "std_resp rpc_help" "std_resp (rpc_nodes a)" "std_resp (rpc_status a)"
  "std_resp (rpc_balance r a)" "std_resp (rpc_block r a)" "std_resp (rpc_tx r a)" "std_resp (rpc_mempool a)"
  "std_resp (rpc_records r a)" "std_resp (rpc_tail r a)" "std_resp (rpc_prove r a)"
  by (simp_all add: rpc_viewer_def rpc_help_def rpc_nodes_def rpc_status_def rpc_balance_def rpc_block_def rpc_tx_def
      rpc_mempool_def rpc_records_def rpc_tail_def rpc_prove_def Let_def split: option.split prod.split)
    (simp_all add: std_resp_def)

lemma std_resp_write:
  "std_resp (fst (rpc_submit E r a))" "std_resp (fst (rpc_work E tm r a))" "std_resp (fst (rpc_submitwork E tm r a))"
  by (simp_all add: rpc_submit_def rpc_work_def rpc_submitwork_def Let_def split: option.split sum.split prod.split)

lemma std_resp_rpc: "std_resp (fst (handle_rpc E tm read_file viewer_html r a))"
  by (simp add: handle_rpc_def Let_def std_resp_read std_resp_write)

lemma std_resp_ok: "std_resp r \<Longrightarrow> length (resp_body r) \<le> 60 * 1024 * 1024 \<Longrightarrow> response_ok r"
  by (auto simp: std_resp_def response_ok_def)

text \<open>The network splits the two byte streams in any way that keeps them.\<close>

definition splits :: "(string \<Rightarrow> string list) \<Rightarrow> bool" where
  "splits f \<longleftrightarrow> (\<forall>s. concat (f s) = s \<and> [] \<notin> set (f s))"

definition node_wire :: "('k, 'd) ext \<Rightarrow> times \<Rightarrow> (string \<Rightarrow> string) \<Rightarrow> string \<Rightarrow> (string \<Rightarrow> string list) \<Rightarrow> (string \<Rightarrow> string list)
    \<Rightarrow> 'd app \<Rightarrow> wire_fun" where
  "node_wire E tm read_file viewer_html up down a host port req =
     (case parse_request (up req) of None \<Rightarrow> Some []
      | Some r \<Rightarrow> Some (down (render_response (fst (handle_rpc E tm read_file viewer_html r a)))))"

definition call_req :: "string \<Rightarrow> string \<Rightarrow> string \<Rightarrow> http_req" where
  "call_req m path body = \<lparr>req_method = m, req_path = target_path path, req_query = target_query path, req_body = body\<rparr>"

lemma client_call:
  assumes "plain_target m" "plain_target path" "plain_host host" "length m + length path + length host \<le> 3900"
    and "length body \<le> 4 * 1024 * 1024" "splits up" "splits down"
    and resp: "resp = fst (handle_rpc E tm read_file viewer_html (call_req m path body) a)" "length (resp_body resp) \<le> 60 * 1024 * 1024"
  shows "http_call (node_wire E tm read_file viewer_html up down a) host port m path body = (resp_code resp, resp_body resp)"
proof -
  have "parse_request (up (http_request host port m path body)) = Some (call_req m path body)"
    unfolding call_req_def using assms(6) by (intro server_reads_request [OF assms(1-5)]) (auto simp: splits_def)
  moreover have "response_ok resp"
    using std_resp_ok std_resp_rpc resp by blast
  then have "http_response (client_recv (down (render_response resp)) []) = (resp_code resp, resp_body resp)"
    using assms(7) by (intro client_reads_response) (auto simp: splits_def)
  ultimately show ?thesis
    by (simp add: http_call_def node_wire_def resp(1))
qed

definition one_piece :: "string \<Rightarrow> string list" where
  "one_piece s = (if s = [] then [] else [s])"

lemma one_piece_splits: "splits one_piece"
  by (simp add: splits_def one_piece_def)

end
