(* ===== verification/Cli.thy ===== *)
theory Cli
  imports HttpClient
begin

text \<open>
  \<^verbatim>\<open>src/clctl.cpp\<close>: the wallet and query tool, all commands.

  \<^verbatim>\<open>http_req\<close> is an argument \<open>http host port method path body\<close> (status code, -1 when the
  node cannot be reached, and response body); \<^verbatim>\<open>http_call\<close> is the instance that talks to a node.
  A run yields the exit code, the answer of the node a query command prints, and the files.
  Lemmas: a proof written by \<^verbatim>\<open>GET /prove\<close> verifies, and what a verified proof implies.
\<close>

type_synonym http_fun = "string \<Rightarrow> u16 \<Rightarrow> string \<Rightarrow> string \<Rightarrow> string \<Rightarrow> int \<times> string"

text \<open>\<^verbatim>\<open>rfind(':')\<close>: a port alone, or host and port.\<close>

definition parse_hostport :: "string \<Rightarrow> string \<Rightarrow> string \<times> u16" where
  "parse_hostport def spec =
     (if CHR '':'' \<in> set spec
      then (rev (drop 1 (dropWhile (\<lambda>c. c \<noteq> CHR '':'') (rev spec))), of_int (atoi (rev (takeWhile (\<lambda>c. c \<noteq> CHR '':'') (rev spec)))))
      else (def, of_int (atoi spec)))"

definition set_rpc :: "string \<Rightarrow> string \<times> u16 \<Rightarrow> string \<times> u16" where
  "set_rpc spec g = (if spec = [] then g else parse_hostport (fst g) spec)"

subsection \<open>Building a transaction\<close>

datatype cli_error = NodeUnreachable | BalanceQueryFailed | SigningFailed

definition build_tx :: "'k cng \<Rightarrow> nat \<Rightarrow> keypair \<Rightarrow> u8 \<Rightarrow> addr20 \<Rightarrow> u64 \<Rightarrow> bytes \<Rightarrow> u32 \<Rightarrow> u64 \<Rightarrow> tx option" where
  "build_tx c rnd kp ty to amount payload nid n =
     (let t = tx_default\<lparr>tx_type := ty, tx_net_id := nid, tx_from := kpub kp, tx_to := to, tx_amount := amount,
                tx_nonce := n, tx_payload := payload\<rparr>
      in case kp_sign c rnd kp (sign_hash t) of None \<Rightarrow> None | Some sig \<Rightarrow> Some (t\<lparr>tx_sig := sig\<rparr>))"

definition build_and_submit :: "'k cng \<Rightarrow> http_fun \<Rightarrow> string \<times> u16 \<Rightarrow> nat \<Rightarrow> keypair \<Rightarrow> u8 \<Rightarrow> addr20 \<Rightarrow> u64 \<Rightarrow> bytes
    \<Rightarrow> cli_error + bool \<times> string \<times> tx" where
  "build_and_submit c http g rnd kp ty to amount payload =
     (case http (fst g) (snd g) ''GET'' ''/status'' [] of (code, st) \<Rightarrow>
      if code \<noteq> 200 then Inl NodeUnreachable
      else case http (fst g) (snd g) ''GET'' (''/balance?addr='' @ hexs (addr_of (kpub kp))) [] of (code, bal) \<Rightarrow>
      if code \<noteq> 200 then Inl BalanceQueryFailed
      else case build_tx c rnd kp ty to amount payload (of_int (extract_json_int st ''net_id'' 0))
                  (of_int (extract_json_int bal ''nonce'' 0)) of
        None \<Rightarrow> Inl SigningFailed
      | Some t \<Rightarrow> (case http (fst g) (snd g) ''POST'' ''/submit'' (hexs (tx_serialize t)) of (code, resp) \<Rightarrow>
          Inr (code = 200, resp, t)))"

subsection \<open>Verifying a proof file\<close>

record proof_file =
  pf_txid :: "h256 option"
  pf_blockhash :: "h256 option"
  pf_height :: u64
  pf_header :: "bytes option"
  pf_steps :: "h256 merkle_step list"

definition proof_file0 :: proof_file where
  "proof_file0 = \<lparr>pf_txid = None, pf_blockhash = None, pf_height = -1, pf_header = None, pf_steps = []\<rparr>"

definition trim_line :: "string \<Rightarrow> string" where
  "trim_line s = rev (dropWhile (\<lambda>c. c = CHR 0x0D \<or> c = CHR '' '') (rev s))"

text \<open>A field that does not parse leaves what was read before in place.\<close>

definition proof_line :: "string \<Rightarrow> proof_file \<Rightarrow> proof_file" where
  "proof_line raw pf =
     (let line = trim_line raw in
      if starts_with ''txid '' line then
        (case unhex_n 32 (drop 5 line) of None \<Rightarrow> pf | Some v \<Rightarrow> pf\<lparr>pf_txid := Some v\<rparr>)
      else if starts_with ''height '' line then pf\<lparr>pf_height := strtoull (drop 7 line)\<rparr>
      else if starts_with ''blockhash '' line then
        (case unhex_n 32 (drop 10 line) of None \<Rightarrow> pf | Some v \<Rightarrow> pf\<lparr>pf_blockhash := Some v\<rparr>)
      else if starts_with ''header '' line then
        (case unhex (drop 7 line) of None \<Rightarrow> pf
         | Some v \<Rightarrow> if length v = HEADER_SIZE then pf\<lparr>pf_header := Some v\<rparr> else pf)
      else if starts_with ''sibling '' line \<and> length line > 10 then
        (case unhex_n 32 (drop 10 line) of None \<Rightarrow> pf
         | Some v \<Rightarrow> pf\<lparr>pf_steps := pf_steps pf @ [\<lparr>ms_h = v, ms_left = (line ! 8 = CHR ''L'')\<rparr>]\<rparr>)
      else pf)"

definition read_proof :: "string \<Rightarrow> proof_file" where
  "read_proof content = fold proof_line (split_on CHR 0x0A content) proof_file0"

text \<open>The checks on the file alone: \<open>None\<close> if it is malformed, otherwise whether it passes.\<close>

definition check_proof :: "string \<Rightarrow> bool option" where
  "check_proof content =
     (let pf = read_proof content in
      case (pf_txid pf, pf_blockhash pf, pf_header pf) of
        (Some i, Some bh, Some raw) \<Rightarrow>
          if pf_height pf = -1 then None
          else (case header_parse (mk_reader raw) of Inl _ \<Rightarrow> None
           | Inr (h, _) \<Rightarrow>
               Some (sha256d raw = bh \<and> h_height h = pf_height pf \<and>
                 merkle_apply i (pf_steps pf) = h_merkle h \<and> \<not> (pf_height pf > 0 \<and> \<not> pow_ok bh (h_bits h))))
      | _ \<Rightarrow> None)"

text \<open>The cross-check: every node that can be reached must have the block at that height.\<close>

definition cross_check :: "http_fun \<Rightarrow> string \<Rightarrow> u64 \<Rightarrow> h256 \<Rightarrow> bool \<Rightarrow> bool" where
  "cross_check http nodes height bh pass =
     fold (\<lambda>spec pass.
        if spec = [] then pass
        else case parse_hostport ''127.0.0.1'' spec of (host, port) \<Rightarrow>
          case http host port ''GET'' (strf (''/block?height='' @ dec (unat height))) [] of (code, body) \<Rightarrow>
            if code \<noteq> 200 then pass
            else pass \<and> extract_json_str body ''hash'' = hexs bh)
       (split_on CHR '','' nodes) pass"

text \<open>The exit code of \<^verbatim>\<open>clctl verify\<close> on the contents of the proof file.\<close>

definition cmd_verify :: "http_fun \<Rightarrow> string \<Rightarrow> string \<Rightarrow> int" where
  "cmd_verify http nodes content =
     (case check_proof content of None \<Rightarrow> 1
      | Some pass \<Rightarrow>
          let pf = read_proof content;
              pass = (if nodes = [] then pass else cross_check http nodes (pf_height pf) (the (pf_blockhash pf)) pass)
          in if pass then 0 else 1)"

subsection \<open>The commands\<close>

record cli_res =
  cr_code :: int
  cr_answer :: string
  cr_files :: files

definition need_key :: "args \<Rightarrow> files \<Rightarrow> keypair option" where
  "need_key a fs = kp_load (args_get a ''key'' ''wallet.key'') fs"

definition cli_fail :: "files \<Rightarrow> cli_res" where
  "cli_fail fs = \<lparr>cr_code = 1, cr_answer = [], cr_files = fs\<rparr>"

text \<open>\<^verbatim>\<open>if (rpc_get(path, out) < 0) return 1; printf(out)\<close>\<close>

definition cli_query :: "http_fun \<Rightarrow> string \<times> u16 \<Rightarrow> string \<Rightarrow> files \<Rightarrow> cli_res" where
  "cli_query http g path fs =
     (case http (fst g) (snd g) ''GET'' path [] of (code, out) \<Rightarrow>
        if code < 0 then cli_fail fs else \<lparr>cr_code = 0, cr_answer = out, cr_files = fs\<rparr>)"

definition cli_submit :: "cli_error + bool \<times> string \<times> tx \<Rightarrow> files \<Rightarrow> cli_res" where
  "cli_submit r fs = (case r of Inl _ \<Rightarrow> cli_fail fs
     | Inr (ok, resp, t) \<Rightarrow> \<lparr>cr_code = (if ok then 0 else 1), cr_answer = resp, cr_files = fs\<rparr>)"

definition cmd_keygen :: "'k cng \<Rightarrow> nat \<Rightarrow> (string \<Rightarrow> bool) \<Rightarrow> args \<Rightarrow> files \<Rightarrow> cli_res" where
  "cmd_keygen c rnd can_write a fs =
     (case kp_generate c rnd of None \<Rightarrow> cli_fail fs
      | Some kp \<Rightarrow> (case kp_save can_write kp (args_get a ''out'' ''wallet.key'') fs of None \<Rightarrow> cli_fail fs
        | Some fs' \<Rightarrow> \<lparr>cr_code = 0, cr_answer = hexs (addr_of (kpub kp)), cr_files = fs'\<rparr>))"

definition cmd_balance :: "http_fun \<Rightarrow> string \<times> u16 \<Rightarrow> args \<Rightarrow> files \<Rightarrow> cli_res" where
  "cmd_balance http g a fs =
     (let ad = args_get a ''addr'' [] in
      if ad = [] then
        (case need_key a fs of None \<Rightarrow> cli_fail fs
         | Some kp \<Rightarrow> cli_query http g (''/balance?addr='' @ hexs (addr_of (kpub kp))) fs)
      else cli_query http g (''/balance?addr='' @ ad) fs)"

definition cmd_send :: "'k cng \<Rightarrow> http_fun \<Rightarrow> string \<times> u16 \<Rightarrow> nat \<Rightarrow> args \<Rightarrow> files \<Rightarrow> cli_res" where
  "cmd_send c http g rnd a fs =
     (case need_key a fs of None \<Rightarrow> cli_fail fs
      | Some kp \<Rightarrow> (case unhex_n 20 (args_get a ''to'' []) of None \<Rightarrow> cli_fail fs
        | Some to \<Rightarrow>
            let amount = strtoull (args_get a ''amount'' ''0'') in
            if amount = 0 then cli_fail fs
            else cli_submit (build_and_submit c http g rnd kp TX_TRANSFER to amount []) fs))"

definition str_bytes :: "string \<Rightarrow> bytes" where
  "str_bytes s = map of_char s"

text \<open>The payload of a record; \<open>None\<close> where the command stops with an error.\<close>

definition record_payload :: "args \<Rightarrow> files \<Rightarrow> bytes option" where
  "record_payload a fs =
     (if args_has a ''text'' then Some (str_bytes (args_get a ''text'' []))
      else if args_has a ''file'' then
        (case fs (args_get a ''file'' []) of None \<Rightarrow> None
         | Some content \<Rightarrow>
             if args_has a ''hash-only'' then Some (sha256 (str_bytes content))
             else if length content \<le> MAX_PAYLOAD then Some (str_bytes content) else None)
      else None)"

definition cmd_record :: "'k cng \<Rightarrow> http_fun \<Rightarrow> string \<times> u16 \<Rightarrow> nat \<Rightarrow> args \<Rightarrow> files \<Rightarrow> cli_res" where
  "cmd_record c http g rnd a fs =
     (case need_key a fs of None \<Rightarrow> cli_fail fs
      | Some kp \<Rightarrow> (case record_payload a fs of None \<Rightarrow> cli_fail fs
        | Some payload \<Rightarrow>
            if payload = [] then cli_fail fs
            else cli_submit (build_and_submit c http g rnd kp TX_RECORD (replicate 20 0) 0 payload) fs))"

definition cmd_prove :: "http_fun \<Rightarrow> string \<times> u16 \<Rightarrow> (string \<Rightarrow> bool) \<Rightarrow> args \<Rightarrow> files \<Rightarrow> cli_res" where
  "cmd_prove http g can_write a fs =
     (let i = args_get a ''txid'' [] in
      if i = [] then cli_fail fs
      else case http (fst g) (snd g) ''GET'' (''/prove?txid='' @ i) [] of (code, out) \<Rightarrow>
        if code \<noteq> 200 then cli_fail fs
        else if args_has a ''out'' then
          (if can_write (args_get a ''out'' []) then \<lparr>cr_code = 0, cr_answer = [], cr_files = fs(args_get a ''out'' [] \<mapsto> out)\<rparr>
           else cli_fail fs)
        else \<lparr>cr_code = 0, cr_answer = out, cr_files = fs\<rparr>)"

definition cmd_verify_file :: "http_fun \<Rightarrow> args \<Rightarrow> files \<Rightarrow> cli_res" where
  "cmd_verify_file http a fs =
     (case fs (args_get a ''proof'' ''proof.txt'') of None \<Rightarrow> cli_fail fs
      | Some content \<Rightarrow> \<lparr>cr_code = cmd_verify http (args_get a ''rpc-all'' []) content, cr_answer = [], cr_files = fs\<rparr>)"

definition clctl :: "'k cng \<Rightarrow> http_fun \<Rightarrow> nat \<Rightarrow> (string \<Rightarrow> bool) \<Rightarrow> string list \<Rightarrow> files \<Rightarrow> cli_res" where
  "clctl c http rnd can_write argv fs =
     (let a = args_parse argv;
          g = set_rpc (args_get a ''rpc'' []) (''127.0.0.1'', 8501);
          cmd = (if pos a = [] then ''help'' else hd (pos a))
      in if cmd = ''keygen'' then cmd_keygen c rnd can_write a fs
         else if cmd = ''addr'' then
           (case need_key a fs of None \<Rightarrow> cli_fail fs
            | Some kp \<Rightarrow> \<lparr>cr_code = 0, cr_answer = hexs (addr_of (kpub kp)), cr_files = fs\<rparr>)
         else if cmd = ''status'' \<or> cmd = ''mempool'' then cli_query http g (''/'' @ cmd) fs
         else if cmd = ''tail'' then cli_query http g (''/tail?n='' @ args_get a ''n'' ''10'') fs
         else if cmd = ''balance'' then cmd_balance http g a fs
         else if cmd = ''block'' then
           cli_query http g (''/block?'' @ (if args_has a ''height'' then ''height='' @ args_get a ''height'' [] else ''hash='' @ args_get a ''hash'' [])) fs
         else if cmd = ''tx'' then cli_query http g (''/tx?id='' @ args_get a ''id'' []) fs
         else if cmd = ''send'' then cmd_send c http g rnd a fs
         else if cmd = ''record'' then cmd_record c http g rnd a fs
         else if cmd = ''prove'' then cmd_prove http g can_write a fs
         else if cmd = ''verify'' then cmd_verify_file http a fs
         else \<lparr>cr_code = (if cmd = ''help'' then 0 else 1), cr_answer = [], cr_files = fs\<rparr>)"

subsection \<open>A proof written by the node\<close>

lemma trim_line_id: "s \<noteq> [] \<Longrightarrow> last s \<noteq> CHR 0x0D \<Longrightarrow> last s \<noteq> CHR '' '' \<Longrightarrow> trim_line s = s"
  by (cases s rule: rev_cases) (simp_all add: trim_line_def)

lemma last_hexs: "x \<noteq> [] \<Longrightarrow> last (pre @ hexs x) \<noteq> CHR 0x0D \<and> last (pre @ hexs x) \<noteq> CHR '' ''"
proof -
  assume "x \<noteq> []"
  then have "hexs x \<noteq> []" by (metis length_0_conv length_hexs mult_is_0 zero_neq_numeral)
  then have "last (pre @ hexs x) \<in> set (hexs x)" by simp
  from hexs_no_trail [OF this] show ?thesis by (simp add: is_trail_def)
qed

lemma trim_hex_line: "x \<noteq> [] \<Longrightarrow> trim_line (pre @ hexs x) = pre @ hexs x"
  using last_hexs [of x pre] by (intro trim_line_id) (auto simp: hexs_concat hexpair_def neq_Nil_conv)

lemma trim_dec_line: "trim_line (pre @ dec n) = pre @ dec n"
proof (rule trim_line_id)
  have "last (pre @ dec n) \<in> set (dec n)" by simp
  then have "is_digit (last (pre @ dec n))" using dec_digits by blast
  then show "last (pre @ dec n) \<noteq> CHR 0x0D" "last (pre @ dec n) \<noteq> CHR '' ''"
    by (auto simp: is_digit_def less_eq_char_def)
qed simp

lemma trim_hash_line:
  "length x = 32 \<Longrightarrow> trim_line (pre @ hexs x) = pre @ hexs x" "length x = HEADER_SIZE \<Longrightarrow> trim_line (pre @ hexs x) = pre @ hexs x"
  by (rule trim_hex_line, force simp: HEADER_SIZE_def)+

lemma proof_line_txid: "length i = 32 \<Longrightarrow> proof_line (''txid '' @ hexs i) pf = pf\<lparr>pf_txid := Some i\<rparr>"
  using trim_hash_line(1) [of i "''txid ''"] by (simp add: proof_line_def starts_with_def unhex_n_hexs)

lemma proof_line_height: "proof_line (''height '' @ dec (unat h)) pf = pf\<lparr>pf_height := h\<rparr>"
  using trim_dec_line [of "''height ''" "unat h"] strtoull_dec [of "[]" h] by (simp add: proof_line_def starts_with_def)

lemma proof_line_index: "proof_line (''index '' @ dec n) pf = pf"
  using trim_dec_line [of "''index ''" n] by (simp add: proof_line_def starts_with_def)

lemma proof_line_blockhash: "length h = 32 \<Longrightarrow> proof_line (''blockhash '' @ hexs h) pf = pf\<lparr>pf_blockhash := Some h\<rparr>"
  using trim_hash_line(1) [of h "''blockhash ''"] by (simp add: proof_line_def starts_with_def unhex_n_hexs)

lemma proof_line_header: "length raw = HEADER_SIZE \<Longrightarrow> proof_line (''header '' @ hexs raw) pf = pf\<lparr>pf_header := Some raw\<rparr>"
  using trim_hash_line(2) [of raw "''header ''"] by (simp add: proof_line_def starts_with_def)

lemma proof_line_fixed: "proof_line ''CHAINLITE-PROOF v1'' pf = pf" "proof_line ''end'' pf = pf"
  by (simp_all add: proof_line_def trim_line_def starts_with_def)

definition sibling_line :: "h256 merkle_step \<Rightarrow> string" where
  "sibling_line s = ''sibling '' @ (if ms_left s then ''L'' else ''R'') @ '' '' @ hexs (ms_h s)"

lemma proof_line_sibling:
  assumes "length (ms_h s) = 32"
  shows "proof_line (sibling_line s) pf = pf\<lparr>pf_steps := pf_steps pf @ [s]\<rparr>"
proof -
  have "trim_line (sibling_line s) = sibling_line s"
    using trim_hash_line(1) [of "ms_h s" "''sibling '' @ (if ms_left s then ''L'' else ''R'') @ '' ''"] assms
    by (auto simp: sibling_line_def)
  then show ?thesis
    using assms by (simp add: proof_line_def sibling_line_def starts_with_def unhex_n_hexs)
qed

definition proof_lines :: "h256 \<Rightarrow> block \<Rightarrow> u32 \<Rightarrow> string list" where
  "proof_lines i b idx = [''CHAINLITE-PROOF v1'', ''txid '' @ hexs i, ''height '' @ dec (unat (h_height (hdr b))),
     ''index '' @ dec (unat idx), ''blockhash '' @ hexs (header_hash (hdr b)), ''header '' @ hexs (header_serialize (hdr b))] @
     map sibling_line (merkle_proof (map txid (txs b)) (unat idx)) @ [''end'']"

lemma proof_text_lines: "proof_text i b idx = concat (map (\<lambda>l. l @ [CHR 0x0A]) (proof_lines i b idx))"
  using length_dec_u64 [of "h_height (hdr b)"] length_dec_u32 [of idx]
  by (simp add: proof_text_def proof_lines_def Let_def strf_short sibling_line_def comp_def)

lemma proof_lines_no_nl: "list_all (\<lambda>l. CHR 0x0A \<notin> set l) (proof_lines i b idx)"
proof -
  have "CHR 0x0A \<notin> set (hexs x)" for x using hexs_no_trail [of "CHR 0x0A" x] by (auto simp: is_trail_def)
  moreover have "CHR 0x0A \<notin> set (dec n)" for n by (rule dec_no_char) (simp add: is_digit_def less_eq_char_def)
  ultimately show ?thesis by (auto simp: proof_lines_def sibling_line_def list_all_iff)
qed

lemma fold_sibling_lines:
  "list_all (\<lambda>s. length (ms_h s) = 32) steps \<Longrightarrow>
     fold proof_line (map sibling_line steps) pf = pf\<lparr>pf_steps := pf_steps pf @ steps\<rparr>"
  by (induction steps arbitrary: pf) (simp_all add: proof_line_sibling)

lemmas proof_line_simps = proof_line_txid [simplified] proof_line_height [simplified] proof_line_index [simplified]
  proof_line_blockhash [simplified] proof_line_header [simplified] proof_line_fixed [simplified]

lemma read_proof_text:
  assumes "length i = 32" "header_ok (hdr b)" "list_all (\<lambda>s. length (ms_h s) = 32) (merkle_proof (map txid (txs b)) (unat idx))"
  shows "read_proof (proof_text i b idx) = \<lparr>pf_txid = Some i, pf_blockhash = Some (header_hash (hdr b)),
    pf_height = h_height (hdr b), pf_header = Some (header_serialize (hdr b)),
    pf_steps = merkle_proof (map txid (txs b)) (unat idx)\<rparr>"
  unfolding read_proof_def proof_text_lines split_on_join [OF proof_lines_no_nl]
  unfolding proof_lines_def
  using assms by (simp add: proof_line_simps fold_sibling_lines length_header_serialize proof_file0_def)

lemma check_proof_text:
  assumes v: "valid_chain c p bs" and k: "Suc k < length bs" "b = bs ! Suc k" "unat idx < length (txs b)"
    and i: "i = txid (txs b ! unat idx)" and h: "h_height (hdr b) \<noteq> -1"
  shows "check_proof (proof_text i b idx) = Some True"
proof -
  have ext: "extends_ok c p (take (Suc k) bs) b" "block_arrays b"
    using valid_chain_nth [OF v k(1)] k(2) by simp_all
  have hd: "header_ok (hdr b)" using ext(2) by (simp add: block_arrays_def)
  have root: "merkle_apply i (merkle_proof (map txid (txs b)) (unat idx)) = h_merkle (hdr b)"
    using merkle_proof_complete [of "unat idx" "map txid (txs b)"] k(3) ext(1) by (simp add: i extends_ok_def)
  have "read_proof (proof_text i b idx) = \<lparr>pf_txid = Some i, pf_blockhash = Some (header_hash (hdr b)),
      pf_height = h_height (hdr b), pf_header = Some (header_serialize (hdr b)),
      pf_steps = merkle_proof (map txid (txs b)) (unat idx)\<rparr>"
    using hd merkle_proof_siblings [OF k(3)] by (intro read_proof_text) (simp_all add: i)
  then show ?thesis
    using root h ext(1) hdrc.rd_enc_end [OF hd, of "[]"]
    by (simp add: check_proof_def Let_def mk_reader_rat header_hash_eq extends_ok_def)
qed

lemma length_proof_text:
  assumes "block_ok b" "unat idx < length (txs b)" "length i = 32"
  shows "length (proof_text i b idx) \<le> 60 * 1024 * 1024"
proof -
  let ?steps = "merkle_proof (map txid (txs b)) (unat idx)"
  have sib: "length (sibling_line s) + 1 \<le> 75" if "s \<in> set ?steps" for s
    using merkle_proof_siblings [OF assms(2)] that by (auto simp: list_all_iff sibling_line_def)
  have "(\<Sum>s\<leftarrow>?steps. length (sibling_line s) + 1) \<le> (\<Sum>s\<leftarrow>?steps. 75)"
    by (rule sum_list_map_le) (rule sib)
  also have "\<dots> \<le> 75 * 5000"
    using length_merkle_proof [of "map txid (txs b)" "unat idx"] assms(1,2)
    by (cases "txs b = []") (simp_all add: sum_list_triv block_ok_def MAX_BLOCK_TXS_def)
  finally have "(\<Sum>s\<leftarrow>?steps. length (sibling_line s) + 1) \<le> 375000" by simp
  then show ?thesis
    using assms length_dec_u64 [of "h_height (hdr b)"] length_dec_u32 [of idx] length_header_serialize [of "hdr b"]
    by (simp add: proof_text_lines proof_lines_def length_concat comp_def block_ok_def HEADER_SIZE_def)
qed

lemma prove_verifies:
  assumes ch: "chain_ok c (chain a)" "length (blocks (chain a)) \<le> 2 ^ 32" "length (all_txs (blocks (chain a))) \<le> 2 ^ 64"
    and inj: "inj_on sha256d (insert (genesis_msg (cparams (chain a))) (chain_msgs (blocks (chain a))))"
    and q: "unhex_n 32 (query_or_empty r ''txid'') = Some i" "smap_find (txidx (chain a)) i = Some loc"
  shows "\<exists>body. rpc_prove r a = text200 body \<and> length body \<le> 60 * 1024 * 1024 \<and> cmd_verify http [] body = 0"
proof -
  let ?bs = "blocks (chain a)"
  have v: "valid_chain c (cparams (chain a)) ?bs" using ch(1) by (simp add: chain_ok_def)
  have at: "chain_at ?bs loc i"
    using q(2) ch chain_index_at [OF v ch(2,3) inj] by (simp add: chain_ok_def)
  define b where "b = ?bs ! unat (fst loc)"
  have "unat (fst loc) \<noteq> 0"
  proof
    assume "unat (fst loc) = 0"
    then have "?bs \<noteq> []" "txs (?bs ! 0) \<noteq> []" using at by (auto simp: chain_at_def simp del: unat_eq_zero)
    then show False using genesis_no_txs [OF v] by simp
  qed
  then obtain k where k: "unat (fst loc) = Suc k" by (cases "unat (fst loc)") simp_all
  have len: "Suc k < length ?bs" "unat (snd loc) < length (txs b)" "i = txid (txs b ! unat (snd loc))"
    using at k by (simp_all add: chain_at_def b_def)
  have "h_height (hdr b) = of_nat (Suc k)"
    using valid_chain_heights [OF v inj len(1)] by (simp add: b_def k)
  moreover have "(of_nat (Suc k) :: u64) \<noteq> -1"
  proof
    assume "(of_nat (Suc k) :: u64) = -1"
    then have "(of_nat (Suc (Suc k)) :: u64) = of_nat 0" by simp
    then show False using of_nat_u64_inj [of "Suc (Suc k)" 0] len(1) ch(2) by simp
  qed
  ultimately have "check_proof (proof_text i b (snd loc)) = Some True"
    using check_proof_text [OF v len(1) _ len(2,3)] by (simp add: b_def k)
  moreover have "length (proof_text i b (snd loc)) \<le> 60 * 1024 * 1024"
    using valid_chain_block_ok [OF v, of b] len by (intro length_proof_text) (auto simp: b_def k)
  ultimately show ?thesis
    using q by (auto simp: rpc_prove_def cmd_verify_def b_def Let_def split: prod.splits)
qed

subsection \<open>What a verified proof shows\<close>

definition pf_ok :: "proof_file \<Rightarrow> bool" where
  "pf_ok pf \<longleftrightarrow> list_all (\<lambda>s. length (ms_h s) = 32) (pf_steps pf) \<and>
     (\<forall>raw. pf_header pf = Some raw \<longrightarrow> length raw = HEADER_SIZE)"

lemma pf_ok_upd:
  assumes "pf_ok pf"
  shows "pf_ok (pf\<lparr>pf_txid := x\<rparr>)" "pf_ok (pf\<lparr>pf_blockhash := x\<rparr>)" "pf_ok (pf\<lparr>pf_height := h\<rparr>)"
    "length raw = HEADER_SIZE \<Longrightarrow> pf_ok (pf\<lparr>pf_header := Some raw\<rparr>)"
    "length v = 32 \<Longrightarrow> pf_ok (pf\<lparr>pf_steps := pf_steps pf @ [\<lparr>ms_h = v, ms_left = l\<rparr>]\<rparr>)"
  using assms by (simp_all add: pf_ok_def)

lemma pf_ok_line:
  assumes "pf_ok pf"
  shows "pf_ok (proof_line raw pf)"
proof -
  have "pf_ok (case unhex_n 32 s of None \<Rightarrow> pf | Some v \<Rightarrow> f v)" if "\<And>v. length v = 32 \<Longrightarrow> pf_ok (f v)" for s f
    using that assms by (cases "unhex_n 32 s") (simp_all add: unhex_n_length)
  moreover have "pf_ok (case unhex s of None \<Rightarrow> pf | Some v \<Rightarrow> if length v = HEADER_SIZE then pf\<lparr>pf_header := Some v\<rparr> else pf)" for s
    using assms pf_ok_upd by (cases "unhex s") simp_all
  ultimately show ?thesis
    unfolding proof_line_def Let_def using assms by (simp add: pf_ok_upd)
qed

lemma pf_ok_read: "pf_ok (read_proof content)"
proof -
  have "pf_ok pf \<Longrightarrow> pf_ok (fold proof_line ls pf)" for ls pf
    by (induction ls arbitrary: pf) (simp_all add: pf_ok_line)
  moreover have "pf_ok proof_file0" by (simp add: proof_file0_def pf_ok_def)
  ultimately show ?thesis unfolding read_proof_def by blast
qed

lemma check_proof_True:
  assumes "check_proof content = Some True"
  obtains i raw h where "pf_txid (read_proof content) = Some i" "pf_blockhash (read_proof content) = Some (sha256d raw)"
    "pf_header (read_proof content) = Some raw" "raw = header_serialize h" "header_ok h" "h_height h = pf_height (read_proof content)"
    "merkle_apply i (pf_steps (read_proof content)) = h_merkle h"
proof -
  let ?pf = "read_proof content"
  obtain i bh raw h r where f: "pf_txid ?pf = Some i" "pf_blockhash ?pf = Some bh" "pf_header ?pf = Some raw"
      "header_parse (mk_reader raw) = Inr (h, r)" "sha256d raw = bh" "h_height h = pf_height ?pf"
      "merkle_apply i (pf_steps ?pf) = h_merkle h"
    using assms by (auto simp: check_proof_def Let_def split: option.splits sum.splits if_splits)
  have "length raw = HEADER_SIZE"
    using pf_ok_read [of content] f(3) by (simp add: pf_ok_def)
  moreover from f(4) obtain suf where "header_ok h" "raw = header_serialize h @ suf"
    by (auto simp: mk_reader_rat elim: hdrc.rdE)
  ultimately show ?thesis
    using f that [of i raw h] length_header_serialize [of h] by simp
qed

text \<open>The messages hashed when a proof file is checked.\<close>

definition proof_msgs :: "string \<Rightarrow> bytes set" where
  "proof_msgs content =
     (case pf_header (read_proof content) of None \<Rightarrow> {} | Some raw \<Rightarrow> {raw}) \<union>
     (case pf_txid (read_proof content) of None \<Rightarrow> {} | Some i \<Rightarrow> path_msgs i (pf_steps (read_proof content)))"

lemma verified_in_block:
  assumes ok: "check_proof content = Some True" and t: "tx_ok t" "pf_txid (read_proof content) = Some (txid t)"
    and v: "valid_chain c p bs" "Suc k < length bs" "pf_blockhash (read_proof content) = Some (header_hash (hdr (bs ! Suc k)))"
    and inj: "inj_on sha256d (insert (tx_serialize t) (chain_msgs bs \<union> proof_msgs content))"
  shows "t \<in> set (txs (bs ! Suc k)) \<and> pf_height (read_proof content) = h_height (hdr (bs ! Suc k))"
proof -
  let ?b = "bs ! Suc k" and ?pf = "read_proof content"
  let ?M = "insert (tx_serialize t) (chain_msgs bs \<union> proof_msgs content)"
  obtain raw h where f: "pf_blockhash ?pf = Some (sha256d raw)" "raw = header_serialize h" "header_ok h"
      "h_height h = pf_height ?pf" "merkle_apply (txid t) (pf_steps ?pf) = h_merkle h" "pf_header ?pf = Some raw"
    using check_proof_True [OF ok] t(2) by (metis option.inject)
  have ext: "extends_ok c p (take (Suc k) bs) ?b" "block_arrays ?b"
    using valid_chain_nth [OF v(1,2)] by simp_all
  have b: "block_ok ?b" "?b \<in> set bs"
    using valid_chain_block_ok [OF v(1)] v(2) by simp_all
  have "h = hdr ?b"
    using b f v(3) inj by (intro header_hash_inj [OF inj]) (auto simp: chain_msgs_def proof_msgs_def header_hash_eq block_ok_def)
  moreover have "t \<in> set (txs ?b)"
  proof (rule merkle_path_sound)
    show "inj_on sha256d (insert (tx_serialize t) (block_msgs (txs ?b) \<union> path_msgs (txid t) (pf_steps ?pf)))"
      using b(2) t(2) by (intro inj_on_subset [OF inj]) (auto simp: chain_msgs_def proof_msgs_def)
    show "merkle_apply (txid t) (pf_steps ?pf) = merkle_root (map txid (txs ?b))"
      using f(5) ext(1) \<open>h = hdr ?b\<close> by (simp add: extends_ok_def)
    show "list_all (\<lambda>s. length (ms_h s) = 32) (pf_steps ?pf)"
      using pf_ok_read [of content] by (simp add: pf_ok_def)
  qed (use b ext t in \<open>simp_all add: block_ok_def extends_ok_def\<close>)
  ultimately show ?thesis using f(4) by simp
qed

subsection \<open>From \<^verbatim>\<open>clctl prove\<close> to \<^verbatim>\<open>clctl verify\<close>\<close>

lemma hexs_chars: "c \<in> set (hexs x) \<Longrightarrow> c \<in> set hexdigits"
proof -
  have "hexdigits ! k \<in> set hexdigits" if "k < 16" for k using that by (intro nth_mem) (simp add: hexdigits_def)
  then have "set (hexpair b) \<subseteq> set hexdigits" for b using unat_nibbles_less by (simp add: hexpair_def)
  then show "c \<in> set (hexs x) \<Longrightarrow> c \<in> set hexdigits" by (auto simp: hexs_concat)
qed

lemma hexs_plain:
  assumes "c \<in> set (hexs x)"
  shows "c \<noteq> CHR ''%'' \<and> c \<noteq> CHR ''+'' \<and> c \<noteq> CHR ''-'' \<and> c \<noteq> CHR ''&'' \<and> c \<noteq> CHR ''='' \<and> c \<noteq> CHR ''?'' \<and>
    c \<noteq> CHR '' '' \<and> c \<noteq> CHR '':'' \<and> c \<noteq> CHR 0x0D"
  using hexs_chars [OF assms] by (auto simp: hexdigits_def)

lemma url_decode_char: "c \<noteq> CHR ''%'' \<Longrightarrow> c \<noteq> CHR ''+'' \<Longrightarrow> url_decode (c # s) = c # url_decode s"
proof (cases s)
  case (Cons a r)
  then show "c \<noteq> CHR ''%'' \<Longrightarrow> c \<noteq> CHR ''+'' \<Longrightarrow> ?thesis"
    by (cases r) (simp_all only: url_decode.simps prod.case list.case if_False HOL.simp_thms)
qed simp

lemma url_decode_plain: "CHR ''%'' \<notin> set s \<Longrightarrow> CHR ''+'' \<notin> set s \<Longrightarrow> url_decode s = s"
  by (induction s) (auto simp: url_decode_char simp del: url_decode.simps(2))

lemma is_opt_hexs: "\<not> is_opt (hexs x)"
proof (cases "hexs x")
  case (Cons c s)
  then have "c \<noteq> CHR ''-''" using hexs_plain [of c x] by simp
  then show ?thesis using Cons by (cases s) (simp_all add: is_opt_def)
qed (simp add: is_opt_def)

lemma split_on_single: "s \<noteq> [] \<Longrightarrow> sep \<notin> set s \<Longrightarrow> split_on sep s = [s]"
proof -
  assume s: "s \<noteq> []" "sep \<notin> set s"
  then have whole: "takeWhile (\<lambda>c. c \<noteq> sep) s = s" "dropWhile (\<lambda>c. c \<noteq> sep) s = []"
    by (auto simp: takeWhile_eq_all_conv dropWhile_eq_Nil_conv)
  show ?thesis
    unfolding split_on.simps [of sep s] whole using s(1) split_on.simps [of sep "[]"] by simp
qed

lemma query_target:
  assumes "CHR ''?'' \<notin> set p" "\<forall>c \<in> set k. c \<notin> {CHR ''='', CHR ''&'', CHR ''%'', CHR ''+''}"
  shows "target_path (p @ ''?'' @ k @ ''='' @ hexs x) = p"
    "target_query (p @ ''?'' @ k @ ''='' @ hexs x) = [(k, hexs x)]"
proof -
  have cut: "cut_at ''?'' (p @ ''?'' @ k @ ''='' @ hexs x) = Some (p, k @ ''='' @ hexs x)"
    using cut_at_first [of "''?''" p] assms(1) by simp
  have "CHR ''&'' \<notin> set (k @ ''='' @ hexs x)"
    using assms(2) hexs_plain by auto
  then have "split_on CHR ''&'' (k @ ''='' @ hexs x) = [k @ ''='' @ hexs x]"
    by (intro split_on_single) simp_all
  moreover have "cut_at ''='' (k @ ''='' @ hexs x) = Some (k, hexs x)"
    using cut_at_first [of "''=''" k "hexs x"] assms(2) by auto
  moreover have "url_decode k = k" "url_decode (hexs x) = hexs x"
    using assms(2) hexs_plain by (auto intro!: url_decode_plain)
  ultimately show "target_path (p @ ''?'' @ k @ ''='' @ hexs x) = p"
    "target_query (p @ ''?'' @ k @ ''='' @ hexs x) = [(k, hexs x)]"
    unfolding target_path_def target_query_def cut by (simp_all add: add_query_def smap_put_def)
qed

lemma args_get_put:
  "smap_ok (kv s) \<Longrightarrow> args_get (s\<lparr>kv := smap_put k v (kv s)\<rparr>) k' d = (if k' = k then v else args_get s k' d)"
  "smap_ok (kv s) \<Longrightarrow> args_has (s\<lparr>kv := smap_put k v (kv s)\<rparr>) k' \<longleftrightarrow> k' = k \<or> args_has s k'"
  by (simp_all add: args_get_def args_has_def smap_find_put)

text \<open>The arguments of \<^verbatim>\<open>clctl prove --txid ID --out FILE\<close> and of \<^verbatim>\<open>clctl verify --proof FILE\<close>.\<close>

definition prove_argv :: "h256 \<Rightarrow> string \<Rightarrow> string list" where
  "prove_argv i f = [''clctl'', ''prove'', ''--txid'', hexs i, ''--out'', f]"

definition verify_argv :: "string \<Rightarrow> string list" where
  "verify_argv f = [''clctl'', ''verify'', ''--proof'', f]"

lemma parse_prove_argv:
  assumes "\<not> is_opt f"
  shows "pos (args_parse (prove_argv i f)) = [''prove'']" "args_get (args_parse (prove_argv i f)) ''txid'' [] = hexs i"
    "args_get (args_parse (prove_argv i f)) ''out'' [] = f" "args_has (args_parse (prove_argv i f)) ''out''"
    "args_get (args_parse (prove_argv i f)) ''rpc'' [] = []"
proof -
  have opt: "is_opt ''--txid''" "is_opt ''--out''" "\<not> is_opt ''prove''" by (simp_all add: is_opt_def)
  have "args_parse (prove_argv i f) = \<lparr>kv = smap_put ''out'' f (smap_put ''txid'' (hexs i) []), pos = [''prove'']\<rparr>"
    by (simp add: args_parse_def prove_argv_def opt is_opt_hexs assms)
  then show "pos (args_parse (prove_argv i f)) = [''prove'']" "args_get (args_parse (prove_argv i f)) ''txid'' [] = hexs i"
    "args_get (args_parse (prove_argv i f)) ''out'' [] = f" "args_has (args_parse (prove_argv i f)) ''out''"
    "args_get (args_parse (prove_argv i f)) ''rpc'' [] = []"
    by (simp_all add: args_get_def args_has_def smap_find_put smap_ok_put)
qed

lemma parse_verify_argv:
  assumes "\<not> is_opt f"
  shows "pos (args_parse (verify_argv f)) = [''verify'']" "args_get (args_parse (verify_argv f)) ''proof'' ''proof.txt'' = f"
    "args_get (args_parse (verify_argv f)) ''rpc-all'' [] = []"
proof -
  have opt: "is_opt ''--proof''" "\<not> is_opt ''verify''" by (simp_all add: is_opt_def)
  have "args_parse (verify_argv f) = \<lparr>kv = smap_put ''proof'' f [], pos = [''verify'']\<rparr>"
    by (simp add: args_parse_def verify_argv_def opt assms)
  then show "pos (args_parse (verify_argv f)) = [''verify'']" "args_get (args_parse (verify_argv f)) ''proof'' ''proof.txt'' = f"
    "args_get (args_parse (verify_argv f)) ''rpc-all'' [] = []"
    by (simp_all add: args_get_def smap_find_put)
qed

lemma clctl_verify:
  assumes "\<not> is_opt f" "fs f = Some content"
  shows "cr_code (clctl c http rnd can_write (verify_argv f) fs) = cmd_verify http [] content"
  using assms parse_verify_argv [OF assms(1)] by (simp add: clctl_def Let_def cmd_verify_file_def)

lemma clctl_prove:
  assumes "\<not> is_opt f" "can_write f" "length i = 32"
    and "http ''127.0.0.1'' 8501 ''GET'' (''/prove?txid='' @ hexs i) [] = (200, body)"
  shows "clctl c http rnd can_write (prove_argv i f) fs = \<lparr>cr_code = 0, cr_answer = [], cr_files = fs(f \<mapsto> body)\<rparr>"
proof -
  have "length (hexs i) \<noteq> 0" using assms(3) by simp
  then have "hexs i \<noteq> []" by (metis list.size(3))
  then show ?thesis
    using assms parse_prove_argv [OF assms(1), of i] by (simp add: clctl_def Let_def cmd_prove_def set_rpc_def)
qed

lemma cli_prove_verify:
  assumes ch: "chain_ok c (chain a)" "length (blocks (chain a)) \<le> 2 ^ 32" "length (all_txs (blocks (chain a))) \<le> 2 ^ 64"
    and inj: "inj_on sha256d (insert (genesis_msg (cparams (chain a))) (chain_msgs (blocks (chain a))))"
    and i: "length i = 32" "smap_find (txidx (chain a)) i = Some loc"
    and f: "\<not> is_opt f" "can_write f" and net: "splits up" "splits down"
    and http: "http = http_call (node_wire E tm read_file viewer_html up down a)"
    and res: "res = clctl cg http rnd can_write (prove_argv i f) fs"
  shows "cr_code res = 0 \<and> cr_code (clctl cg' http' rnd' can_write' (verify_argv f) (cr_files res)) = 0"
proof -
  let ?path = "''/prove?txid='' @ hexs i" and ?req = "call_req ''GET'' (''/prove?txid='' @ hexs i) []"
  have t: "target_path ?path = ''/prove''" "target_query ?path = [(''txid'', hexs i)]"
    using query_target [of "''/prove''" "''txid''" i] by simp_all
  have q: "unhex_n 32 (query_or_empty ?req ''txid'') = Some i"
    using i(1) t by (simp add: call_req_def query_or_empty_def smap_find_def unhex_n_hexs)
  obtain body where b: "rpc_prove ?req a = text200 body" "length body \<le> 60 * 1024 * 1024" "cmd_verify http' [] body = 0"
    using prove_verifies [OF ch inj q i(2)] by blast
  have resp: "fst (handle_rpc E tm read_file viewer_html ?req a) = text200 body"
    using b(1) t by (simp add: handle_rpc_def call_req_def)
  have plain: "plain_target ?path" "plain_target ''GET''" "plain_host ''127.0.0.1''"
    using hexs_plain by (auto simp: plain_target_def plain_host_def is_digit_def less_eq_char_def)
  have "http ''127.0.0.1'' 8501 ''GET'' ?path [] = (200, body)"
    unfolding http using client_call [OF plain(2,1,3) _ _ net resp [symmetric]] i(1) b(2) by (simp add: text200_def)
  from clctl_prove [where f = f and i = i and http = http and can_write = can_write and c = cg, OF f i(1) this]
  have "res = \<lparr>cr_code = 0, cr_answer = [], cr_files = fs(f \<mapsto> body)\<rparr>" by (simp add: res)
  then show ?thesis
    using clctl_verify [where f = f and fs = "fs(f \<mapsto> body)" and content = body and c = cg', OF f(1)] b(3) by simp
qed

subsection \<open>Transactions built by the wallet\<close>

lemma sign_hash_sig: "sign_hash (t\<lparr>tx_sig := s\<rparr>) = sign_hash t"
  by (simp add: sign_hash_def tx_ser_def)

text \<open>What \<^verbatim>\<open>kp_sign\<close> yields verifies under the public key of the pair.\<close>

lemma kp_sign_verifies:
  assumes "cng_laws c" "kp_ok kp" "kp_sign c rnd kp digest = Some sig"
  shows "sig_verify c (kpub kp) digest sig" "length sig = 64"
proof -
  obtain k where k: "cng_open c" "cng_import_private c (kblob kp) = Some k" "cng_sign c rnd k digest = Some sig" "length sig = 64"
    using assms(3) by (auto simp: kp_sign_def split: if_splits option.splits)
  have "length (kblob kp) = 104" "kpub kp = take 64 (drop 8 (kblob kp))"
    using assms(2) by (simp_all add: kp_ok_def kp_valid_def)
  then obtain k' where "cng_import_public c (pub_blob (kpub kp)) = Some k'" "cng_verify c k' digest sig"
    using assms(1) k(2,3) unfolding cng_laws_def by metis
  then show "sig_verify c (kpub kp) digest sig" "length sig = 64" using k(1,4) by (simp_all add: sig_verify_def)
qed

lemma build_tx_Some:
  assumes "cng_laws c" "kp_ok kp" "build_tx c rnd kp ty to amount payload nid n = Some t"
  shows "sig_verify c (tx_from t) (sign_hash t) (tx_sig t)" "tx_type t = ty" "tx_net_id t = nid" "tx_from t = kpub kp"
    "tx_to t = to" "tx_amount t = amount" "tx_nonce t = n" "tx_payload t = payload" "length (tx_sig t) = 64"
proof -
  define t0 where "t0 = tx_default\<lparr>tx_type := ty, tx_net_id := nid, tx_from := kpub kp, tx_to := to, tx_amount := amount,
      tx_nonce := n, tx_payload := payload\<rparr>"
  obtain sig where s: "kp_sign c rnd kp (sign_hash t0) = Some sig" "t = t0\<lparr>tx_sig := sig\<rparr>"
    using assms(3) by (auto simp: build_tx_def t0_def [symmetric] Let_def split: option.splits)
  note v = kp_sign_verifies [OF assms(1,2) s(1)]
  then show "sig_verify c (tx_from t) (sign_hash t) (tx_sig t)"
    by (simp add: s(2) sign_hash_sig) (simp add: t0_def)
  show "tx_type t = ty" "tx_net_id t = nid" "tx_from t = kpub kp" "tx_to t = to" "tx_amount t = amount" "tx_nonce t = n"
    "tx_payload t = payload" "length (tx_sig t) = 64"
    using v(2) by (simp_all add: s(2) t0_def)
qed

lemma wallet_tx_accepted:
  assumes c: "cng_laws c" "kp_ok kp" "\<not> is_zero (kpub kp)"
    and t: "build_tx c rnd kp ty to amount payload (p_net_id p) (find_nonce (addr_of (kpub kp)) st) = Some t"
    and ty: "ty = TX_TRANSFER \<and> payload = [] \<and> amount \<le> find_balance (addr_of (kpub kp)) st \<or>
       ty = TX_RECORD \<and> amount = 0 \<and> payload \<noteq> [] \<and> length payload \<le> MAX_PAYLOAD"
    and pool: "length (pm m) < 10000" "txid t \<notin> pids m" "smap_find (pm m) (addr_of (kpub kp), tx_nonce t) = None"
    and room: "find_nonce (addr_of (kpub kp)) st \<le> find_nonce (addr_of (kpub kp)) st + 16"
  shows "fst (pool_add c t st p m) = None"
proof -
  note b = build_tx_Some [OF c(1,2) t]
  show ?thesis
    unfolding pool_add_outcome using b c(3) ty pool room
    by (auto simp: tx_static_ok_def sender_def txtype_defs)
qed

end
