(* ===== verification/NodeRun.thy ===== *)
theory NodeRun
  imports NodeInv
begin

text \<open>
  \<^verbatim>\<open>node_run\<close> of \<^verbatim>\<open>src/node_impl.h\<close> (what \<^verbatim>\<open>clnode.cpp\<close> calls): options, key, database and chain of a
  starting node, up to the point where its threads run.  What the operating system decides
  (does \<^verbatim>\<open>winsqlite3.dll\<close> load, can a file be opened, is a port free) is a field of \<open>boot\<close>.

  Lemmas: a node that starts satisfies the node invariant, whatever its database held.
\<close>

record 'd boot =
  bt_exe :: string
  bt_dll :: "(string \<Rightarrow> bool) option"
  bt_open :: "string \<Rightarrow> int \<Rightarrow> 'd option"
  bt_rnd :: nat
  bt_can_write :: "string \<Rightarrow> bool"
  bt_files :: files
  bt_listen :: "u16 \<Rightarrow> bool"

datatype fatal = NoSqlite | NoDatabase | NoKey | ChainInit init_error | P2pPortTaken | RpcPortTaken

definition is_slash :: "char \<Rightarrow> bool" where
  "is_slash c \<longleftrightarrow> c = CHR 0x5C \<or> c = CHR ''/''"

text \<open>What precedes the last separator; \<^verbatim>\<open>"."\<close> if there is none.\<close>

definition dir_of :: "string \<Rightarrow> string" where
  "dir_of p = (if \<exists>c \<in> set p. is_slash c then rev (drop 1 (dropWhile (\<lambda>c. \<not> is_slash c) (rev p))) else ''.'')"

definition node_params :: "args \<Rightarrow> params" where
  "node_params a = (let p = default_params\<lparr>p_bits := strtoul (args_get a ''bits'' ''20'')\<rparr>
     in if args_has a ''netid'' then p\<lparr>p_net_id := strtoul (args_get a ''netid'' [])\<rparr> else p)"

definition node_peers :: "string \<Rightarrow> string list" where
  "node_peers ps = filter (\<lambda>t. t \<noteq> [] \<and> t \<noteq> ''none'') (split_on CHR '','' ps)"

definition backslash :: string where
  "backslash = [CHR 0x5C]"

definition p2p_start :: "u16 \<Rightarrow> string list \<Rightarrow> u32 \<Rightarrow> p2p" where
  "p2p_start port ts nid = \<lparr>net_id = nid, listen_port = port, targets = ts, peers = [], next_id = 1, last_reconnect = 0\<rparr>"

definition p2p_stop :: "p2p \<Rightarrow> p2p" where
  "p2p_stop n = n\<lparr>peers := []\<rparr>"

definition node_app :: "args \<Rightarrow> string \<Rightarrow> addr20 \<Rightarrow> 'd pchain \<Rightarrow> 'd app" where
  "node_app a exe ad ch =
     \<lparr>params = node_params a, chain = ch, pool = mempool0,
      p2p = p2p_start (of_int (atoi (args_get a ''p2p-port'' ''7501''))) (node_peers (args_get a ''peers'' [])) (p_net_id (node_params a)),
      miner_addr = ad, mine_on = (args_get a ''mine'' ''on'' \<noteq> ''off''),
      heartbeat_s = strtoull (args_get a ''heartbeat'' ''0''),
      webroot = args_get a ''webroot'' (dir_of exe @ backslash @ ''..'' @ backslash @ ''web''),
      rpc_peers = args_get a ''rpc-peers'' [], rpc_port = of_int (atoi (args_get a ''rpc-port'' ''8501'')),
      tip_seq = 0, sync_peer = -1, sync_mode = 0, sync_extend_got = 0, cand = [], sync_last_ms = 0, work_cache = []\<rparr>"

definition node_run :: "('k, 'd) ext \<Rightarrow> (nat \<Rightarrow> u64) \<Rightarrow> u64 \<Rightarrow> 'd boot \<Rightarrow> args \<Rightarrow> (fatal + 'd app) \<times> files" where
  "node_run E clk now bt a =
     (let datadir = args_get a ''datadir'' (''data'' @ backslash @ ''node1'') in
      if \<not> sq_load (bt_dll bt) then (Inl NoSqlite, bt_files bt)
      else case db_open (bt_dll bt) (bt_open bt) (datadir @ backslash @ ''chain.db'') of None \<Rightarrow> (Inl NoDatabase, bt_files bt)
      | Some d \<Rightarrow>
      (case kp_load_or_create (ecng E) (bt_rnd bt) (bt_can_write bt) (datadir @ backslash @ ''node.key'') (bt_files bt) of
         (None, fs) \<Rightarrow> (Inl NoKey, fs)
       | (Some kp, fs) \<Rightarrow>
           (case chain_init E clk now (Some d) (new_chain (node_params a)) of
              (Some e, ch) \<Rightarrow> (Inl (ChainInit e), fs)
            | (None, ch) \<Rightarrow>
                (let ap = node_app a (bt_exe bt) (addr_of (kpub kp)) ch in
                 if \<not> bt_listen bt (listen_port (p2p ap)) then (Inl P2pPortTaken, fs)
                 else if \<not> bt_listen bt (rpc_port ap) then (Inl RpcPortTaken, fs)
                 else (Inr ap, fs)))))"

subsection \<open>A node that starts is in order\<close>

lemma init_load_ok:
  assumes "init_load E clk d (new_chain p) = (None, ch)"
  shows "chain_ok (ecng E) ch \<and> cparams ch = p"
proof -
  obtain d' where d': "exec_all (esq E) init_schema d = (True, d')"
    using assms by (auto simp: init_load_def split: prod.splits bool.splits)
  define ch0 where "ch0 = (new_chain p)\<lparr>cdb := Some d', persisting := False\<rparr>"
  let ?raws = "map col_blob (sq_blobs (esq E) sql_select_raw d')"
  obtain good ch1 where l: "load_rows E clk 0 ?raws ch0 = (good, ch1)"
    by (cases "load_rows E clk 0 ?raws ch0")
  have "chain_ok (ecng E) ch1 \<and> cparams ch1 = p"
    using load_rows_spec [OF _ _ l] by (auto simp: ch0_def)
  moreover have "\<exists>x. ch = ch1\<lparr>persisting := True\<rparr> \<or> ch = ch1\<lparr>persisting := True, cdb := x\<rparr>"
    using assms d' l by (auto simp: init_load_def Let_def ch0_def split: if_splits)
  ultimately show ?thesis by auto
qed

lemma chain_init_ok:
  assumes "chain_init E clk now db (new_chain p) = (None, ch)"
  shows "chain_ok (ecng E) ch \<and> blocks ch \<noteq> [] \<and> cparams ch = p"
proof -
  obtain ch0 where l: "(case db of Some d \<Rightarrow> init_load E clk d (new_chain p) | None \<Rightarrow> (None, (new_chain p)\<lparr>cdb := None\<rparr>)) = (None, ch0)"
    using assms by (auto simp: chain_init_def split: prod.splits option.splits)
  have ok: "chain_ok (ecng E) ch0 \<and> cparams ch0 = p"
    using l by (auto dest: init_load_ok split: option.splits)
  show ?thesis
  proof (cases "blocks ch0 = []")
    case False
    then show ?thesis using assms l ok by (simp add: chain_init_def)
  next
    case True
    then have r: "connect_block E now (make_genesis p) ch0 = (None, ch)"
      using assms l ok by (auto simp: chain_init_def split: prod.splits option.splits)
    have "accepts E now ch0 (make_genesis p)"
      using True ok genesis_arrays by (simp add: accepts_def genesis_ok_def)
    then have "ch = connected E (make_genesis p) ch0"
      using connect_block_ok r ok by fastforce
    then show ?thesis
      using chain_ok_connect_block [of E ch0 "make_genesis p" now] ok r genesis_arrays by (simp add: chain_simps)
  qed
qed

lemma node_run_ok:
  assumes "fst (node_run E clk now bt a) = Inr ap"
  shows "app_ok (ecng E) ap"
proof -
  obtain d ch and kp :: keypair where r: "chain_init E clk now (Some d) (new_chain (node_params a)) = (None, ch)"
      "ap = node_app a (bt_exe bt) (addr_of (kpub kp)) ch"
    using assms by (auto simp: node_run_def Let_def split: if_splits option.splits prod.splits)
  show ?thesis
    using chain_init_ok [OF r(1)] unfolding r(2)
    by (simp add: app_ok_def core_ok_def sync_ok_def net_ok_def node_app_def p2p_start_def pool_fresh_def mempool0_def
        pool_ok_empty [unfolded mempool0_def])
qed

text \<open>A machine on which a node starts with an empty database.\<close>

definition mini_boot :: "mini_db boot" where
  "mini_boot = \<lparr>bt_exe = ''clnode.exe'', bt_dll = Some (\<lambda>_. True), bt_open = (\<lambda>_ _. Some (False, [])), bt_rnd = 0,
     bt_can_write = (\<lambda>_. True), bt_files = Map.empty, bt_listen = (\<lambda>_. True)\<rparr>"

lemma mini_init: "\<exists>ch. chain_init mini_ext clk now (Some (False, [])) (new_chain p) = (None, ch) \<and> length (blocks ch) = 1"
  using init_recovers [of mini_ext mini_tbl fst "(False, [])" "[]" clk now p] mini_sql_laws
  by (auto simp: numbered_def mini_tbl_def)

lemma mini_boot_node:
  "\<exists>ap. fst (node_run mini_ext clk now mini_boot a) = Inr ap \<and> length (blocks (chain ap)) = 1 \<and> params ap = node_params a"
proof -
  obtain ch where "chain_init mini_ext clk now (Some (False, [])) (new_chain (node_params a)) = (None, ch)" "length (blocks ch) = 1"
    using mini_init by blast
  then show ?thesis
    by (simp add: node_run_def mini_boot_def Let_def sq_load_def db_open_def sq_required_def kp_load_or_create_def kp_load_def kp_generate_def kp_save_def
      mini_cng_def kp_valid_def node_app_def)
qed

lemma mini_boot_starts: "\<exists>ap. fst (node_run mini_ext clk now mini_boot a) = Inr ap"
  using mini_boot_node by blast

end
