(* ===== verification/Process.thy ===== *)
theory Process
  imports Text
begin

text \<open>
  The processes the launcher (\<^verbatim>\<open>src/chainlite_app.cpp\<close>) starts and stops: \<^verbatim>\<open>spawn_node\<close>, the job object, and
  the end of \<^verbatim>\<open>supervise\<close>.

  Windows is a parameter, the record \<open>'o win\<close>: the calls the launcher makes, as functions on a state \<open>'o\<close> of
  the operating system, and observations of that state.  Processes and jobs are named by
  the handles the calls return.  \<open>win_laws\<close> states what the documentation says of the calls.  \<^verbatim>\<open>TerminateProcess\<close> and the closing of a job only
  set the end of a process in motion: the process may be alive when the call returns (\<open>win_live\<close>), but its end has begun (\<open>win_dying\<close>).
  A process may also end by itself at any time, so the laws bound the processes that go on running from above.

  Lemmas: what runs after spawning nodes is in the job (if jobs work) and in the list of children, and stopping
  them leaves none of them running and no handle open.
\<close>

record 'o win =
  win_create_file :: "string \<Rightarrow> 'o \<Rightarrow> nat option \<times> 'o"
  win_create_process :: "string \<Rightarrow> string \<Rightarrow> nat option \<Rightarrow> 'o \<Rightarrow> (nat \<times> nat) option \<times> 'o"
  win_create_job :: "'o \<Rightarrow> nat option \<times> 'o"
  win_limit_job :: "nat \<Rightarrow> 'o \<Rightarrow> 'o"
  win_assign :: "nat option \<Rightarrow> nat \<Rightarrow> 'o \<Rightarrow> 'o"
  win_resume :: "nat \<Rightarrow> 'o \<Rightarrow> 'o"
  win_wait :: "nat \<Rightarrow> 'o \<Rightarrow> 'o"
  win_terminate :: "nat \<Rightarrow> 'o \<Rightarrow> 'o"
  win_close :: "nat \<Rightarrow> 'o \<Rightarrow> 'o"
  win_live :: "'o \<Rightarrow> nat set"
  win_dying :: "'o \<Rightarrow> nat set"
  win_handles :: "'o \<Rightarrow> nat set"
  win_members :: "'o \<Rightarrow> nat \<Rightarrow> nat set"
  win_kill :: "'o \<Rightarrow> nat set"

section \<open>The code\<close>

record child =
  kid_process :: nat
  kid_thread :: nat
  kid_log :: "nat option"
  kid_rpc :: u16

definition close_opt :: "'o win \<Rightarrow> nat option \<Rightarrow> 'o \<Rightarrow> 'o" where
  "close_opt W h os = (case h of None \<Rightarrow> os | Some h \<Rightarrow> win_close W h os)"

definition spawn_node :: "'o win \<Rightarrow> string \<Rightarrow> string \<Rightarrow> string \<Rightarrow> nat option \<Rightarrow> u16 \<Rightarrow> 'o \<Rightarrow> child option \<times> 'o" where
  "spawn_node W exe cmdline logpath job rpc os =
     (let (h, os) = win_create_file W logpath os; (r, os) = win_create_process W exe cmdline h os
      in case r of None \<Rightarrow> (None, close_opt W h os)
         | Some (p, t) \<Rightarrow>
             (Some \<lparr>kid_process = p, kid_thread = t, kid_log = h, kid_rpc = rpc\<rparr>, win_resume W t (win_assign W job p os)))"

text \<open>\<^verbatim>\<open>CreateJobObjectA\<close> and the limit \<^verbatim>\<open>JOB_OBJECT_LIMIT_KILL_ON_JOB_CLOSE\<close>.\<close>

definition open_job :: "'o win \<Rightarrow> 'o \<Rightarrow> nat option \<times> 'o" where
  "open_job W os = (let (job, os) = win_create_job W os in (job, case job of None \<Rightarrow> os | Some j \<Rightarrow> win_limit_job W j os))"

definition stop_child :: "'o win \<Rightarrow> child \<Rightarrow> 'o \<Rightarrow> 'o" where
  "stop_child W k os =
     close_opt W (kid_log k) (win_close W (kid_process k) (win_close W (kid_thread k)
       (win_terminate W (kid_process k) (win_wait W (kid_process k) os))))"

definition stop_nodes :: "'o win \<Rightarrow> nat option \<Rightarrow> child list \<Rightarrow> 'o \<Rightarrow> 'o" where
  "stop_nodes W job kids os = fold (stop_child W) kids (close_opt W job os)"

section \<open>What Windows promises\<close>

text \<open>The processes that run and whose end has not been set in motion.\<close>

definition win_running :: "'o win \<Rightarrow> 'o \<Rightarrow> nat set" where
  "win_running W os = win_live W os - win_dying W os"

text \<open>A call that starts no process, takes nothing out of a job and opens no handle.\<close>

definition win_keeps :: "'o win \<Rightarrow> 'o \<Rightarrow> 'o \<Rightarrow> bool" where
  "win_keeps W os os' \<longleftrightarrow> win_running W os' \<subseteq> win_running W os \<and> win_kill W os \<subseteq> win_kill W os' \<and>
     (\<forall>j. win_members W os j \<subseteq> win_members W os' j)"

text \<open>
  \<^verbatim>\<open>CreateProcess\<close> starts one process; closing the handle of a job with the kill-on-close limit begins the end of the processes in it;
  \<^verbatim>\<open>TerminateProcess\<close> begins the end of the process.  Nothing else starts one, and a new handle is not the handle of an open job.
  A call opens only the handles it returns, and \<^verbatim>\<open>CloseHandle\<close> closes one.
\<close>

definition win_laws :: "'o win \<Rightarrow> bool" where
  "win_laws W \<longleftrightarrow>
     (\<forall>path os h os'. win_create_file W path os = (h, os') \<longrightarrow> win_keeps W os os' \<and> (\<forall>j \<in> win_kill W os. h \<noteq> Some j) \<and>
        win_handles W os' \<subseteq> win_handles W os \<union> set_option h) \<and>
     (\<forall>os j os'. win_create_job W os = (j, os') \<longrightarrow> win_keeps W os os' \<and> win_handles W os' \<subseteq> win_handles W os \<union> set_option j) \<and>
     (\<forall>j p os. \<forall>os' \<in> {win_limit_job W p os, win_assign W j p os, win_resume W p os, win_wait W p os, win_terminate W p os}.
        win_keeps W os os' \<and> win_handles W os' \<subseteq> win_handles W os) \<and>
     (\<forall>p os. p \<in> win_live W (win_terminate W p os) \<longrightarrow> p \<in> win_dying W (win_terminate W p os)) \<and>
     (\<forall>exe cmd h os os'. win_create_process W exe cmd h os = (None, os') \<longrightarrow> win_keeps W os os' \<and> win_handles W os' \<subseteq> win_handles W os) \<and>
     (\<forall>exe cmd h os p t os'. win_create_process W exe cmd h os = (Some (p, t), os') \<longrightarrow>
        win_running W os' \<subseteq> insert p (win_running W os) \<and> win_kill W os \<subseteq> win_kill W os' \<and>
        (\<forall>j. win_members W os j \<subseteq> win_members W os' j) \<and> win_handles W os' \<subseteq> win_handles W os \<union> {p, t}) \<and>
     (\<forall>h os. win_running W (win_close W h os) \<subseteq> win_running W os \<and> win_kill W os - {h} \<subseteq> win_kill W (win_close W h os) \<and>
        (\<forall>j. j \<noteq> h \<longrightarrow> win_members W os j \<subseteq> win_members W (win_close W h os) j) \<and> win_handles W (win_close W h os) \<subseteq> win_handles W os - {h} \<and>
        (h \<in> win_kill W os \<longrightarrow> win_live W (win_close W h os) \<inter> win_members W os h \<subseteq> win_dying W (win_close W h os)))"

text \<open>
  What the launcher takes for granted of jobs: it ignores the results of \<^verbatim>\<open>SetInformationJobObject\<close> and
  \<^verbatim>\<open>AssignProcessToJobObject\<close>, and goes on without a job when it cannot create one.
\<close>

definition win_jobs_work :: "'o win \<Rightarrow> bool" where
  "win_jobs_work W \<longleftrightarrow> (\<forall>os. fst (win_create_job W os) \<noteq> None) \<and> (\<forall>j os. j \<in> win_kill W (win_limit_job W j os)) \<and>
     (\<forall>j p os. p \<in> win_members W (win_assign W (Some j) p os) j)"

section \<open>Starting and stopping\<close>

lemma win_lawsD:
  assumes "win_laws W"
  shows "win_create_file W path os = (h, os') \<Longrightarrow> win_keeps W os os' \<and> (\<forall>j \<in> win_kill W os. h \<noteq> Some j)"
    "win_create_job W os = (j, os') \<Longrightarrow> win_keeps W os os'" "win_keeps W os (win_limit_job W i os)" "win_keeps W os (win_assign W j p os)"
    "win_keeps W os (win_resume W t os)" "win_keeps W os (win_wait W p os)" "win_keeps W os (win_terminate W p os)"
    "p \<notin> win_running W (win_terminate W p os)" "win_create_process W exe cmd h os = (None, os') \<Longrightarrow> win_keeps W os os'"
    "win_create_process W exe cmd h os = (Some (p, t), os') \<Longrightarrow>
        win_running W os' \<subseteq> insert p (win_running W os) \<and> win_kill W os \<subseteq> win_kill W os' \<and> (\<forall>j. win_members W os j \<subseteq> win_members W os' j)"
    "win_running W (win_close W i os) \<subseteq> win_running W os" "win_kill W os - {i} \<subseteq> win_kill W (win_close W i os)"
    "k \<noteq> i \<Longrightarrow> win_members W os k \<subseteq> win_members W (win_close W i os) k"
    "i \<in> win_kill W os \<Longrightarrow> win_running W (win_close W i os) \<inter> win_members W os i = {}"
proof -
  note L = assms [unfolded win_laws_def]
  show "win_keeps W os (win_limit_job W i os)" "win_keeps W os (win_assign W j p os)" "win_keeps W os (win_resume W t os)"
    "win_keeps W os (win_wait W p os)" "win_keeps W os (win_terminate W p os)" using L by simp_all
  show "p \<notin> win_running W (win_terminate W p os)" using L by (simp add: win_running_def)
  have "win_live W (win_close W i os) \<inter> win_members W os i \<subseteq> win_dying W (win_close W i os)" if "i \<in> win_kill W os"
    using assms that unfolding win_laws_def by (elim conjE) meson
  then show "i \<in> win_kill W os \<Longrightarrow> win_running W (win_close W i os) \<inter> win_members W os i = {}" unfolding win_running_def by blast
qed (use assms in \<open>unfold win_laws_def, elim conjE, meson\<close>)+

lemma win_handlesD:
  assumes "win_laws W"
  shows "win_create_file W path os = (h, os') \<Longrightarrow> win_handles W os' \<subseteq> win_handles W os \<union> set_option h"
    "win_create_job W os = (j, os') \<Longrightarrow> win_handles W os' \<subseteq> win_handles W os \<union> set_option j"
    "win_handles W (win_limit_job W i os) \<subseteq> win_handles W os" "win_handles W (win_assign W j p os) \<subseteq> win_handles W os"
    "win_handles W (win_resume W t os) \<subseteq> win_handles W os" "win_handles W (win_wait W p os) \<subseteq> win_handles W os"
    "win_handles W (win_terminate W p os) \<subseteq> win_handles W os"
    "win_create_process W exe cmd h os = (None, os') \<Longrightarrow> win_handles W os' \<subseteq> win_handles W os"
    "win_create_process W exe cmd h os = (Some (p, t), os') \<Longrightarrow> win_handles W os' \<subseteq> win_handles W os \<union> {p, t}"
    "win_handles W (win_close W i os) \<subseteq> win_handles W os - {i}"
proof -
  note L = assms [unfolded win_laws_def]
  show "win_handles W (win_limit_job W i os) \<subseteq> win_handles W os" "win_handles W (win_assign W j p os) \<subseteq> win_handles W os"
    "win_handles W (win_resume W t os) \<subseteq> win_handles W os" "win_handles W (win_wait W p os) \<subseteq> win_handles W os"
    "win_handles W (win_terminate W p os) \<subseteq> win_handles W os" using L by simp_all
qed (use assms in \<open>unfold win_laws_def, elim conjE, meson\<close>)+

lemma close_opt_live: "win_laws W \<Longrightarrow> win_running W (close_opt W h os) \<subseteq> win_running W os"
  by (cases h) (simp_all add: close_opt_def win_lawsD(11))

text \<open>What may be alive: processes of \<open>L\<close>, and processes in the job \<open>j\<close>, which is killed when closed.\<close>

definition job_covers :: "'o win \<Rightarrow> nat \<Rightarrow> nat set \<Rightarrow> 'o \<Rightarrow> bool" where
  "job_covers W j L os \<longleftrightarrow> j \<in> win_kill W os \<and> win_running W os \<subseteq> L \<union> win_members W os j"

lemma job_covers_keeps: "job_covers W j L os \<Longrightarrow> win_keeps W os os' \<Longrightarrow> job_covers W j L os'"
  unfolding job_covers_def win_keeps_def by blast

lemma job_covers_close: "win_laws W \<Longrightarrow> job_covers W j L os \<Longrightarrow> win_running W (win_close W j os) \<subseteq> L"
  using win_lawsD(11) [of W j os] win_lawsD(14) [where W = W and i = j and os = os] unfolding job_covers_def by blast

lemma job_covers_close_opt:
  assumes W: "win_laws W" and c: "job_covers W j L os" "h \<noteq> Some j"
  shows "job_covers W j L (close_opt W h os)"
proof (cases h)
  case (Some i)
  then show ?thesis
    using c win_lawsD(11) [OF W, where i = i and os = os] win_lawsD(12) [OF W, where i = i and os = os]
      win_lawsD(13) [OF W, where k = j and i = i and os = os] unfolding job_covers_def close_opt_def by auto
qed (use c in \<open>simp add: close_opt_def\<close>)

lemma open_job_covers:
  assumes W: "win_laws W" "win_jobs_work W"
  obtains j os' where "open_job W os = (Some j, os')" "job_covers W j (win_running W os) os'"
proof -
  obtain j os1 where j: "win_create_job W os = (Some j, os1)"
    using W(2) unfolding win_jobs_work_def by (metis prod.collapse option.exhaust)
  have "j \<in> win_kill W (win_limit_job W j os1)" using W(2) by (simp add: win_jobs_work_def)
  then have "job_covers W j (win_running W os) (win_limit_job W j os1)"
    using win_lawsD(2) [OF W(1) j] win_lawsD(3) [OF W(1), of os1 j] unfolding job_covers_def win_keeps_def by blast
  with that j show ?thesis by (simp add: open_job_def)
qed

lemma open_job_live:
  assumes W: "win_laws W" and r: "open_job W os = (job, os')"
  shows "win_running W os' \<subseteq> win_running W os"
proof -
  obtain os1 where j: "win_create_job W os = (job, os1)" "os' = (case job of None \<Rightarrow> os1 | Some j \<Rightarrow> win_limit_job W j os1)"
    using r by (auto simp: open_job_def split: prod.splits)
  have "win_running W (win_limit_job W i os1) \<subseteq> win_running W os1" for i using win_lawsD(3) [OF W] by (simp add: win_keeps_def)
  moreover have "win_running W os1 \<subseteq> win_running W os" using win_lawsD(2) [OF W j(1)] by (simp add: win_keeps_def)
  ultimately show ?thesis unfolding j(2) by (cases job) auto
qed

text \<open>Spawning a node: the new process is the child's, and it is in the job if there is one.\<close>

lemma spawn_node_live:
  assumes W: "win_laws W" and r: "spawn_node W exe cmd logpath job rpc os = (r, os')"
  shows "win_running W os' \<subseteq> win_running W os \<union> (case r of None \<Rightarrow> {} | Some k \<Rightarrow> {kid_process k})"
    "job = Some j \<Longrightarrow> win_jobs_work W \<Longrightarrow> job_covers W j L os \<Longrightarrow> job_covers W j L os'"
    "r = Some k \<Longrightarrow> kid_rpc k = rpc \<and> (\<exists>h os1. fst (win_create_process W exe cmd h os1) \<noteq> None)"
proof -
  obtain h os0 q os1 where f: "win_create_file W logpath os = (h, os0)" and p: "win_create_process W exe cmd h os0 = (q, os1)" by fastforce
  have k0: "win_keeps W os os0" "\<forall>j \<in> win_kill W os. h \<noteq> Some j" using win_lawsD(1) [OF W f] by auto
  have all: "win_running W os' \<subseteq> win_running W os \<union> (case r of None \<Rightarrow> {} | Some k \<Rightarrow> {kid_process k}) \<and>
      (job = Some j \<longrightarrow> win_jobs_work W \<longrightarrow> job_covers W j L os \<longrightarrow> job_covers W j L os') \<and> (r = Some k \<longrightarrow> kid_rpc k = rpc \<and> q \<noteq> None)"
  proof (cases q)
    case None
    then have e: "r = None" "os' = close_opt W h os1" using r f p by (simp_all add: spawn_node_def)
    have k1: "win_keeps W os0 os1" using win_lawsD(9) [OF W] p None by simp
    have "win_running W os' \<subseteq> win_running W os" using close_opt_live [OF W, of h os1] k0(1) k1 unfolding e win_keeps_def by blast
    moreover have "job_covers W j L os'" if c: "job_covers W j L os"
      using job_covers_close_opt [OF W job_covers_keeps [OF job_covers_keeps [OF c k0(1)] k1]] k0(2) c
      by (simp add: e job_covers_def)
    ultimately show ?thesis using e by simp
  next
    case (Some pt)
    obtain pr t where pt: "pt = (pr, t)" by fastforce
    have e: "r = Some \<lparr>kid_process = pr, kid_thread = t, kid_log = h, kid_rpc = rpc\<rparr>" "os' = win_resume W t (win_assign W job pr os1)"
      using r f p Some pt by (simp_all add: spawn_node_def)
    note c = win_lawsD(10) [OF W p [unfolded Some pt]]
    note a = win_lawsD(4) [OF W, of os1 job pr] and rs = win_lawsD(5) [OF W, of "win_assign W job pr os1" t]
    have "win_running W os' \<subseteq> insert pr (win_running W os)" using c a rs k0(1) unfolding e win_keeps_def by blast
    moreover have "job_covers W j L os'" if "job = Some j" "win_jobs_work W" and cv: "job_covers W j L os"
    proof -
      have "pr \<in> win_members W (win_assign W job pr os1) j" using that by (simp add: win_jobs_work_def)
      then have "job_covers W j L (win_assign W job pr os1)"
        using job_covers_keeps [OF cv k0(1)] c a unfolding job_covers_def win_keeps_def by blast
      then show ?thesis using job_covers_keeps rs e by simp
    qed
    ultimately show ?thesis using e Some by auto
  qed
  then show "win_running W os' \<subseteq> win_running W os \<union> (case r of None \<Rightarrow> {} | Some k \<Rightarrow> {kid_process k})"
    "job = Some j \<Longrightarrow> win_jobs_work W \<Longrightarrow> job_covers W j L os \<Longrightarrow> job_covers W j L os'" by blast+
  show "r = Some k \<Longrightarrow> kid_rpc k = rpc \<and> (\<exists>h os1. fst (win_create_process W exe cmd h os1) \<noteq> None)"
    using all p by (metis fst_conv)
qed

lemma stop_child_live:
  assumes W: "win_laws W"
  shows "win_running W (stop_child W k os) \<subseteq> win_running W os - {kid_process k}"
proof -
  define os1 where "os1 = win_terminate W (kid_process k) (win_wait W (kid_process k) os)"
  have "win_running W os1 \<subseteq> win_running W os - {kid_process k}"
    using win_lawsD(7,8) [OF W] win_lawsD(6) [OF W, of os "kid_process k"] unfolding os1_def win_keeps_def by blast
  moreover have "win_running W (stop_child W k os) \<subseteq> win_running W os1"
    unfolding stop_child_def os1_def [symmetric] using close_opt_live [OF W] win_lawsD(11) [OF W] by (meson subset_trans)
  ultimately show ?thesis by blast
qed

lemma stop_nodes_live:
  assumes "win_laws W"
  shows "win_running W (stop_nodes W job kids os) \<subseteq> win_running W os - kid_process ` set kids"
proof -
  have "win_running W (fold (stop_child W) kids os) \<subseteq> win_running W os - kid_process ` set kids" for os
  proof (induction kids arbitrary: os)
    case (Cons k kids)
    show ?case using Cons.IH [of "stop_child W k os"] stop_child_live [OF assms, of k os] by auto
  qed simp
  then show ?thesis using close_opt_live [OF assms] unfolding stop_nodes_def by blast
qed

text \<open>The handles of a child, and which handles the steps leave open.\<close>

definition kid_handles :: "child \<Rightarrow> nat set" where
  "kid_handles k = {kid_process k, kid_thread k} \<union> set_option (kid_log k)"

lemma close_opt_handles: "win_laws W \<Longrightarrow> win_handles W (close_opt W h os) \<subseteq> win_handles W os - set_option h"
  using win_handlesD(10) [of W] by (cases h) (auto simp: close_opt_def)

lemma open_job_handles:
  assumes W: "win_laws W" and r: "open_job W os = (job, os')"
  shows "win_handles W os' \<subseteq> win_handles W os \<union> set_option job"
proof -
  obtain os1 where j: "win_create_job W os = (job, os1)" "os' = (case job of None \<Rightarrow> os1 | Some j \<Rightarrow> win_limit_job W j os1)"
    using r by (auto simp: open_job_def split: prod.splits)
  have "win_handles W os' \<subseteq> win_handles W os1" unfolding j(2) using win_handlesD(3) [OF W] by (simp split: option.split)
  then show ?thesis using win_handlesD(2) [OF W j(1)] by blast
qed

lemma spawn_node_handles:
  assumes W: "win_laws W" and r: "spawn_node W exe cmd logpath job rpc os = (Some k, os')"
  shows "win_handles W os' \<subseteq> win_handles W os \<union> kid_handles k"
proof -
  obtain h os0 p t os1 where s: "win_create_file W logpath os = (h, os0)" "win_create_process W exe cmd h os0 = (Some (p, t), os1)"
      "k = \<lparr>kid_process = p, kid_thread = t, kid_log = h, kid_rpc = rpc\<rparr>" "os' = win_resume W t (win_assign W job p os1)"
    using r by (auto simp: spawn_node_def split: prod.splits option.splits)
  show ?thesis
    using win_handlesD(1) [OF W s(1)] win_handlesD(9) [OF W s(2)] win_handlesD(4) [OF W, of job p os1]
      win_handlesD(5) [OF W, of t "win_assign W job p os1"] unfolding s(3,4) kid_handles_def by auto
qed

lemma stop_child_handles:
  assumes W: "win_laws W"
  shows "win_handles W (stop_child W k os) \<subseteq> win_handles W os - kid_handles k"
proof -
  define os1 where "os1 = win_terminate W (kid_process k) (win_wait W (kid_process k) os)"
  have "win_handles W os1 \<subseteq> win_handles W os"
    unfolding os1_def using win_handlesD(6,7) [OF W] by (meson subset_trans)
  moreover have "win_handles W (win_close W (kid_process k) (win_close W (kid_thread k) os1)) \<subseteq> win_handles W os1 - {kid_process k, kid_thread k}"
    using win_handlesD(10) [OF W, of "kid_process k" "win_close W (kid_thread k) os1"] win_handlesD(10) [OF W, of "kid_thread k" os1] by auto
  moreover have "win_handles W (stop_child W k os) \<subseteq>
      win_handles W (win_close W (kid_process k) (win_close W (kid_thread k) os1)) - set_option (kid_log k)"
    unfolding stop_child_def os1_def [symmetric] by (rule close_opt_handles [OF W])
  ultimately show ?thesis unfolding kid_handles_def by blast
qed

lemma stop_nodes_handles:
  assumes "win_laws W"
  shows "win_handles W (stop_nodes W job kids os) \<subseteq> win_handles W os - set_option job - (\<Union>k \<in> set kids. kid_handles k)"
proof -
  have "win_handles W (fold (stop_child W) kids os) \<subseteq> win_handles W os - (\<Union>k \<in> set kids. kid_handles k)" for os
  proof (induction kids arbitrary: os)
    case (Cons k kids)
    show ?case using Cons.IH [of "stop_child W k os"] stop_child_handles [OF assms, of k os] by auto
  qed simp
  then show ?thesis using close_opt_handles [OF assms] unfolding stop_nodes_def by blast
qed

section \<open>A small Windows\<close>

text \<open>
  An instance of the laws: handles are numbers in order, files cannot be created, a process starts while the next handle is below
  \<open>room\<close>, and job objects exist if \<open>jobs\<close> says so.  Processes end when waited for after their end has begun.
\<close>

record mini_os =
  mo_next :: nat
  mo_live :: "nat set"
  mo_dying :: "nat set"
  mo_handles :: "nat set"
  mo_members :: "nat \<Rightarrow> nat set"
  mo_kill :: "nat set"

definition mini_os0 :: mini_os where
  "mini_os0 = \<lparr>mo_next = 0, mo_live = {}, mo_dying = {}, mo_handles = {}, mo_members = (\<lambda>_. {}), mo_kill = {}\<rparr>"

definition mini_win :: "bool \<Rightarrow> nat \<Rightarrow> mini_os win" where
  "mini_win jobs room = \<lparr>
     win_create_file = (\<lambda>_ os. (None, os)),
     win_create_process = (\<lambda>_ _ _ os. if mo_next os < room
       then (Some (mo_next os, mo_next os + 1), os\<lparr>mo_next := mo_next os + 2, mo_live := insert (mo_next os) (mo_live os),
         mo_handles := mo_handles os \<union> {mo_next os, mo_next os + 1}\<rparr>) else (None, os)),
     win_create_job = (\<lambda>os. if jobs then (Some (mo_next os), os\<lparr>mo_next := mo_next os + 1, mo_handles := insert (mo_next os) (mo_handles os)\<rparr>)
       else (None, os)),
     win_limit_job = (\<lambda>j os. os\<lparr>mo_kill := insert j (mo_kill os)\<rparr>),
     win_assign = (\<lambda>j p os. case j of None \<Rightarrow> os | Some j \<Rightarrow> os\<lparr>mo_members := (mo_members os)(j := insert p (mo_members os j))\<rparr>),
     win_resume = (\<lambda>_ os. os), win_wait = (\<lambda>p os. os\<lparr>mo_live := mo_live os - (mo_dying os \<inter> {p})\<rparr>),
     win_terminate = (\<lambda>p os. os\<lparr>mo_dying := insert p (mo_dying os)\<rparr>),
     win_close = (\<lambda>h os. (if h \<in> mo_kill os then os\<lparr>mo_dying := mo_dying os \<union> mo_members os h, mo_kill := mo_kill os - {h}\<rparr> else os)
       \<lparr>mo_handles := mo_handles os - {h}\<rparr>),
     win_live = mo_live, win_dying = mo_dying, win_handles = mo_handles, win_members = mo_members, win_kill = mo_kill\<rparr>"

lemma mini_win_laws: "win_laws (mini_win jobs room)"
  by (auto simp: win_laws_def mini_win_def win_keeps_def win_running_def split: option.split if_splits)

lemma mini_win_jobs_work: "win_jobs_work (mini_win True room)"
  by (simp add: win_jobs_work_def mini_win_def)

end
