(* ===== verification/CmdLine.thy ===== *)
theory CmdLine
  imports Text
begin

text \<open>
  How a program receives its command line: the Microsoft C runtime splits the string given to \<^verbatim>\<open>CreateProcess\<close> into \<^verbatim>\<open>argv\<close> before \<^verbatim>\<open>main\<close> runs.
  The rules are those of its documentation (parsing C++ command-line arguments), which the launcher relies on when it quotes the paths it passes to the nodes.
  The program name ends at the first blank outside quotes, and backslashes in it are ordinary characters.  In the
  arguments a quote opens and closes a quoted part, two quotes in a quoted part are a quote character, and backslashes are
  ordinary characters unless they stand before a quote: then two stand for one, and an odd one out makes the quote a character.
  Characters are bytes; the conversion from the ANSI code page and back is left out.

  Lemmas: plain words and quoted texts arrive as they were written.
\<close>

section \<open>Splitting\<close>

definition is_blank :: "char \<Rightarrow> bool" where
  "is_blank c \<longleftrightarrow> c = CHR '' '' \<or> c = CHR 0x09"

fun crt_prog :: "bool \<Rightarrow> string \<Rightarrow> string \<times> string" where
  "crt_prog q [] = ([], [])"
| "crt_prog q (c # s) =
     (if c = CHR 0x22 then crt_prog (\<not> q) s
      else if \<not> q \<and> is_blank c then ([], s)
      else (case crt_prog q s of (p, r) \<Rightarrow> (c # p, r)))"

text \<open>
  The arguments: \<open>q\<close> in quotes, \<open>b\<close> the number of backslashes read last, \<open>acc\<close> the argument read so far
  (\<open>None\<close> between arguments).
\<close>

definition so_far :: "string option \<Rightarrow> string" where
  "so_far acc = (case acc of None \<Rightarrow> [] | Some a \<Rightarrow> a)"

fun crt_args :: "bool \<Rightarrow> nat \<Rightarrow> string option \<Rightarrow> string \<Rightarrow> string list" where
  "crt_args q b acc [] = (case acc of None \<Rightarrow> [] | Some a \<Rightarrow> [a @ replicate b (CHR 0x5C)])"
| "crt_args q b acc (c # s) =
     (if c = CHR 0x5C then crt_args q (Suc b) (Some (so_far acc)) s
      else if c = CHR 0x22 then
        (let a = so_far acc @ replicate (b div 2) (CHR 0x5C)
         in if odd b then crt_args q 0 (Some (a @ [c])) s
            else (case s of
                c' # s' \<Rightarrow> if q \<and> c' = CHR 0x22 then crt_args q 0 (Some (a @ [c])) s' else crt_args (\<not> q) 0 (Some a) s
              | [] \<Rightarrow> crt_args (\<not> q) 0 (Some a) s))
      else if \<not> q \<and> is_blank c then
        (case acc of None \<Rightarrow> crt_args q 0 None s | Some a \<Rightarrow> (a @ replicate b (CHR 0x5C)) # crt_args q 0 None s)
      else crt_args q 0 (Some (so_far acc @ replicate b (CHR 0x5C) @ [c])) s)"

definition crt_argv :: "string \<Rightarrow> string list" where
  "crt_argv s = (case crt_prog False s of (p, r) \<Rightarrow> p # crt_args False 0 None r)"

section \<open>Words and quoted texts\<close>

text \<open>A word that needs no quotes.\<close>

definition plain_word :: "string \<Rightarrow> bool" where
  "plain_word w \<longleftrightarrow> w \<noteq> [] \<and> (\<forall>c \<in> set w. \<not> is_blank c \<and> c \<noteq> CHR 0x22)"

lemma crt_prog_quoted: "CHR 0x22 \<notin> set w \<Longrightarrow> crt_prog True (w @ quote @ '' '' @ s) = (w, s)"
  by (induction w) (auto simp: quote_def is_blank_def)

lemma replicate_snoc: "replicate b c @ c # w = replicate (Suc b) c @ w"
  by (simp add: replicate_app_Cons_same)

lemma crt_args_chars:
  assumes "\<forall>c \<in> set w. \<not> is_blank c \<and> c \<noteq> CHR 0x22"
  shows "crt_args False b (Some a) (w @ '' '' @ s) = (a @ replicate b (CHR 0x5C) @ w) # crt_args False 0 None s \<and>
    crt_args False b (Some a) w = [a @ replicate b (CHR 0x5C) @ w]"
  using assms
proof (induction w arbitrary: a b)
  case (Cons c w)
  then show ?case
    using Cons.IH [of "Suc b" a] Cons.IH [of 0 "a @ replicate b (CHR 0x5C) @ [c]"]
    by (cases "c = CHR 0x5C") (simp_all add: so_far_def replicate_snoc)
qed (simp add: is_blank_def)

lemma crt_args_start:
  assumes "plain_word (c # w)"
  shows "crt_args False 0 None (c # s) = crt_args False 0 (Some []) (c # s)"
  using assms by (simp add: plain_word_def so_far_def)

lemma crt_args_word:
  assumes "plain_word w"
  shows "crt_args False 0 None (w @ '' '' @ s) = w # crt_args False 0 None s" "crt_args False 0 None w = [w]"
proof -
  obtain c v where w: "w = c # v" using assms by (cases w) (auto simp: plain_word_def)
  have cs: "\<forall>c \<in> set w. \<not> is_blank c \<and> c \<noteq> CHR 0x22" using assms by (simp add: plain_word_def)
  note st = crt_args_start [OF assms [unfolded w], folded w]
  show "crt_args False 0 None (w @ '' '' @ s) = w # crt_args False 0 None s"
    using crt_args_chars [OF cs, of 0 "[]" s] st [of "v @ '' '' @ s"] by (simp add: w)
  show "crt_args False 0 None w = [w]"
    using crt_args_chars [OF cs, of 0 "[]"] st [of v] by (simp add: w)
qed

text \<open>A quoted text must not end in a backslash: the quote after it would not close it.\<close>

lemma crt_args_in_quotes:
  assumes "CHR 0x22 \<notin> set w" "w \<noteq> [] \<longrightarrow> last w \<noteq> CHR 0x5C" "w = [] \<longrightarrow> b = 0"
  shows "crt_args True b (Some a) (w @ quote @ '' '' @ s) = (a @ replicate b (CHR 0x5C) @ w) # crt_args False 0 None s"
  using assms
proof (induction w arbitrary: a b)
  case (Cons c w)
  show ?case
    using Cons.IH [of "Suc b" a] Cons.IH [of 0 "a @ replicate b (CHR 0x5C) @ [c]"] Cons.prems
    by (cases "c = CHR 0x5C") (auto simp: so_far_def replicate_snoc split: if_splits)
qed (simp add: quote_def is_blank_def so_far_def)

lemma crt_args_quoted:
  assumes "CHR 0x22 \<notin> set w" "w \<noteq> [] \<longrightarrow> last w \<noteq> CHR 0x5C"
  shows "crt_args False 0 None (quote @ w @ quote @ '' '' @ s) = w # crt_args False 0 None s"
proof -
  have "crt_args False 0 None (quote @ w @ quote @ '' '' @ s) = crt_args True 0 (Some []) (w @ quote @ '' '' @ s)"
    by (cases "w @ quote @ '' '' @ s") (auto simp: quote_def so_far_def)
  with crt_args_in_quotes [OF assms, of 0 "[]" s] show ?thesis by simp
qed

text \<open>The command line of a quoted program and arguments.\<close>

lemma crt_argv_quoted:
  assumes "CHR 0x22 \<notin> set exe"
  shows "crt_argv (quote @ exe @ quote @ '' '' @ s) = exe # crt_args False 0 None s"
proof -
  have "crt_prog False (quote @ exe @ quote @ '' '' @ s) = (exe, s)"
    using crt_prog_quoted [OF assms, of s] by (simp add: quote_def)
  then show ?thesis by (simp add: crt_argv_def)
qed

lemma plain_word_dec: "plain_word (dec n)"
  using dec_no_char [of _ n] by (auto simp: plain_word_def is_blank_def is_digit_def less_eq_char_def)

lemma not_opt_dec: "\<not> is_opt (dec n)"
proof
  assume "is_opt (dec n)"
  then have "CHR ''-'' \<in> set (dec n)" by (metis is_opt_def in_set_takeD list.set_intros(1))
  then show False using dec_no_char [of "CHR ''-''" n] by (simp add: is_digit_def less_eq_char_def)
qed

end
