(* ===== verification/Launcher.thy ===== *)
theory Launcher
  imports Cli NodeRun Process CmdLine
begin

text \<open>
  \<^verbatim>\<open>src/chainlite_app.cpp\<close>: the all-in-one launcher.  \<^verbatim>\<open>supervise\<close>: the reset, the choice of ports, the
  command lines of the three nodes, their processes and the job they are in, the wait until they answer, the loop that
  reports height and notes, and the stop.  The results of the socket calls that probe a port (\<open>probe\<close>), Windows' process calls
  (\<open>win\<close>, with the state \<open>os\<close>) and what the nodes answer are arguments.

  Lemmas: the ports chosen are free, the command line of a node is split and parsed by the node into the ports, peers and
  parameters meant for it, a start is reported only when all nodes have answered, and when the launcher returns every node it started has ended or is ending.
\<close>

definition NODES :: nat where
  "NODES = 3"

text \<open>
  The probe of a port: whether there is a socket, whether \<^verbatim>\<open>select\<close> reports it and marks it writable
  within 200 ms, and its \<^verbatim>\<open>SO_ERROR\<close>.
\<close>

record probe =
  pb_socket :: "u16 \<Rightarrow> bool"
  pb_select :: "u16 \<Rightarrow> int"
  pb_writable :: "u16 \<Rightarrow> bool"
  pb_error :: "u16 \<Rightarrow> int"

definition port_free :: "probe \<Rightarrow> u16 \<Rightarrow> bool" where
  "port_free pb p =
     (if \<not> pb_socket pb p then False
      else let answered = (if pb_select pb p > 0 \<and> pb_writable pb p then pb_error pb p = 0 else False) in \<not> answered)"

definition range_free :: "probe \<Rightarrow> u16 \<Rightarrow> u16 \<Rightarrow> bool" where
  "range_free pb p r \<longleftrightarrow> (\<forall>i \<in> set [0..<NODES]. port_free pb (p + of_nat i) \<and> port_free pb (r + of_nat i))"

text \<open>\<^verbatim>\<open>for (attempt = 0; attempt < 20 && !p2p0; attempt++)\<close>\<close>

function find_ports :: "probe \<Rightarrow> nat \<Rightarrow> (u16 \<times> u16) option" where
  "find_ports pb attempt =
     (if attempt < 20 then
        (let p = of_nat (7501 + attempt * 10); r = of_nat (8501 + attempt * 10)
         in if range_free pb p r then Some (p, r) else find_ports pb (Suc attempt))
      else None)"
  by pat_completeness auto
termination
  by (relation "measure (\<lambda>(f, attempt). 20 - attempt)") auto

declare find_ports.simps [simp del]

definition join_comma :: "string list \<Rightarrow> string" where
  "join_comma ts = fold (\<lambda>t s. s @ (if s = [] then [] else '','') @ t) ts []"

definition rpc_list :: "u16 \<Rightarrow> string" where
  "rpc_list rpc0 = join_comma (map (\<lambda>i. dec (unat rpc0 + i)) [0..<NODES])"

definition peer_addr :: "u16 \<Rightarrow> nat \<Rightarrow> string" where
  "peer_addr p2p0 j = strf (''127.0.0.1:'' @ dec (unat p2p0 + j))"

definition peer_list :: "u16 \<Rightarrow> nat \<Rightarrow> string" where
  "peer_list p2p0 i = join_comma (map (peer_addr p2p0) (filter (\<lambda>j. j \<noteq> i) [0..<NODES]))"

definition node_dir :: "string \<Rightarrow> nat \<Rightarrow> string" where
  "node_dir root i = strf (root @ backslash @ ''node'' @ dec (i + 1))"

definition node_cmdline :: "string \<Rightarrow> string \<Rightarrow> u16 \<Rightarrow> u16 \<Rightarrow> string \<Rightarrow> string \<Rightarrow> nat \<Rightarrow> string" where
  "node_cmdline exe root p2p0 rpc0 bits hb i = strf (quote @ exe @ quote @ '' --node --datadir '' @ quote @
     node_dir root i @ quote @ '' --p2p-port '' @ dec (unat p2p0 + i) @
     '' --rpc-port '' @ dec (unat rpc0 + i) @ '' --peers '' @ peer_list p2p0 i @ '' --rpc-peers '' @ rpc_list rpc0 @
     '' --bits '' @ bits @ '' --heartbeat '' @ hb)"

definition rpc_up :: "http_fun \<Rightarrow> u16 \<Rightarrow> int option" where
  "rpc_up http port = (case http ''127.0.0.1'' port ''GET'' ''/status'' [] of (code, body) \<Rightarrow>
     if code \<noteq> 200 then None else Some (extract_json_int body ''height'' (-1)))"

text \<open>Occurrences of the pattern, each search starting one character after the last hit.\<close>

fun count_pat :: "string \<Rightarrow> string \<Rightarrow> nat" where
  "count_pat pat [] = 0"
| "count_pat pat (c # s) = (if starts_with pat (c # s) then Suc (count_pat pat s) else count_pat pat s)"

definition count_notes :: "http_fun \<Rightarrow> u16 \<Rightarrow> int" where
  "count_notes http port = (case http ''127.0.0.1'' port ''GET'' ''/records?limit=500'' [] of (code, body) \<Rightarrow>
     if code \<noteq> 200 then -1 else int (count_pat (quote @ ''txid'' @ quote) body))"

text \<open>The launcher's report: the largest height among the nodes that answer, and how many do.\<close>

definition poll :: "http_fun \<Rightarrow> u16 list \<Rightarrow> int \<times> nat" where
  "poll http ports = fold (\<lambda>k (h, live). case rpc_up http k of None \<Rightarrow> (h, live) | Some kh \<Rightarrow> (max h kh, Suc live)) ports (-1, 0)"

definition all_up :: "http_fun \<Rightarrow> u16 list \<Rightarrow> bool" where
  "all_up http ports \<longleftrightarrow> (\<forall>k \<in> set ports. rpc_up http k \<noteq> None)"

text \<open>At most 100 polls, until every node answers; \<open>up t\<close> is the result of poll \<open>t\<close>.\<close>

function wait_up :: "(nat \<Rightarrow> bool) \<Rightarrow> nat \<Rightarrow> bool" where
  "wait_up up t = (if t < 100 then (if up t then True else wait_up up (Suc t)) else False)"
  by pat_completeness auto
termination
  by (relation "measure (\<lambda>(up, t). 100 - t)") auto

declare wait_up.simps [simp del]

text \<open>\<^verbatim>\<open>--reset\<close> removes the database files of the nodes and keeps their keys.\<close>

definition reset_files :: "string \<Rightarrow> files \<Rightarrow> files" where
  "reset_files root fs = fold (\<lambda>i fs. fold (\<lambda>f fs. fs(strf (root @ backslash @ ''node'' @ dec i) @ backslash @ f := None))
     [''chain.db'', ''chain.db-wal'', ''chain.db-shm''] fs) [1..<Suc NODES] fs"

text \<open>
  The report loop: one turn polls the nodes and prints height, live nodes and notes if the height or the
  number of notes has changed since the last line; the loop runs until Ctrl+C.
\<close>

definition report_turn :: "http_fun \<Rightarrow> u16 list \<Rightarrow> int \<times> int \<Rightarrow> (int \<times> nat \<times> int) option \<times> int \<times> int" where
  "report_turn http ports st =
     (case poll http ports of (h, live) \<Rightarrow>
        let n = count_notes http (ports ! 0)
        in if h \<noteq> fst st \<or> n \<noteq> snd st then (Some (h, live, if n < 0 then 0 else n), h, n) else (None, st))"

fun report_loop :: "http_fun list \<Rightarrow> u16 list \<Rightarrow> int \<times> int \<Rightarrow> (int \<times> nat \<times> int) list" where
  "report_loop [] ports st = []"
| "report_loop (http # rest) ports st =
     (case report_turn http ports st of
        (Some line, st) \<Rightarrow> line # report_loop rest ports st
      | (None, st) \<Rightarrow> report_loop rest ports st)"

definition viewer_url :: "u16 \<Rightarrow> string" where
  "viewer_url rpc0 = strf (''http://127.0.0.1:'' @ dec (unat rpc0) @ ''/'')"

text \<open>The loop that starts the nodes \<open>is\<close>, \<open>kids\<close> being those started so far; \<open>Inl i\<close> if node \<open>i\<close> does not start.\<close>

fun spawn_nodes :: "'o win \<Rightarrow> string \<Rightarrow> string \<Rightarrow> u16 \<Rightarrow> u16 \<Rightarrow> string \<Rightarrow> string \<Rightarrow> nat option \<Rightarrow> nat list \<Rightarrow> child list \<Rightarrow> 'o
    \<Rightarrow> (nat + child list) \<times> 'o" where
  "spawn_nodes W exe root p2p0 rpc0 bits hb job [] kids os = (Inr kids, os)"
| "spawn_nodes W exe root p2p0 rpc0 bits hb job (i # ns) kids os =
     (case spawn_node W exe (node_cmdline exe root p2p0 rpc0 bits hb i) (node_dir root i @ backslash @ ''node.log'') job (rpc0 + of_nat i) os of
        (None, os) \<Rightarrow> (Inl (i + 1), os)
      | (Some k, os) \<Rightarrow> spawn_nodes W exe root p2p0 rpc0 bits hb job ns (kids @ [k]) os)"

datatype sup_error = NoFreePorts | SpawnFailed nat | NodesNotUp

record sup_run =
  sr_p2p :: u16
  sr_rpc :: u16
  sr_kids :: "child list"
  sr_browser :: "string option"
  sr_lines :: "(int \<times> nat \<times> int) list"

text \<open>
  \<^verbatim>\<open>supervise\<close>: \<open>http_at t\<close> is what the nodes answer during poll \<open>t\<close> of the wait, \<open>polls\<close> what they answer during
  the turns of the report loop, which Ctrl+C ends.  The exit code is 1 for \<open>Inl\<close> and 0 for \<open>Inr\<close>.
\<close>

definition supervise :: "'o win \<Rightarrow> (nat \<Rightarrow> http_fun) \<Rightarrow> http_fun list \<Rightarrow> probe \<Rightarrow> string \<Rightarrow> args \<Rightarrow> files \<Rightarrow> 'o
    \<Rightarrow> (sup_error + sup_run) \<times> files \<times> 'o" where
  "supervise W http_at polls pb exe a fs os =
     (let root = args_get a ''datadir'' (dir_of exe @ backslash @ ''chainlite-data'');
          bits = args_get a ''bits'' ''18''; hb = args_get a ''heartbeat'' ''12'';
          fs = (if args_has a ''reset'' then reset_files root fs else fs)
      in case find_ports pb 0 of None \<Rightarrow> (Inl NoFreePorts, fs, os)
         | Some (p2p0, rpc0) \<Rightarrow>
             (case open_job W os of (job, os) \<Rightarrow>
              case spawn_nodes W exe root p2p0 rpc0 bits hb job [0..<NODES] [] os of
                (Inl i, os) \<Rightarrow> (Inl (SpawnFailed i), fs, close_opt W job os)
              | (Inr kids, os) \<Rightarrow>
                  (let ports = map kid_rpc kids
                   in if \<not> wait_up (\<lambda>t. all_up (http_at t) ports) 0 then (Inl NodesNotUp, fs, close_opt W job os)
                      else (Inr \<lparr>sr_p2p = p2p0, sr_rpc = rpc0, sr_kids = kids, sr_browser = (if args_has a ''no-browser'' then None else Some (viewer_url rpc0)),
                              sr_lines = report_loop polls ports (-1, -1)\<rparr>, fs, stop_nodes W job kids os))))"

text \<open>\<^verbatim>\<open>main\<close>: a single node with \<^verbatim>\<open>--node\<close>, otherwise the launcher.\<close>

definition app_main :: "('k, 'd) ext \<Rightarrow> (nat \<Rightarrow> u64) \<Rightarrow> u64 \<Rightarrow> 'd boot \<Rightarrow> 'o win \<Rightarrow> (nat \<Rightarrow> http_fun) \<Rightarrow> http_fun list \<Rightarrow> probe \<Rightarrow> string list \<Rightarrow> 'o
    \<Rightarrow> (fatal + 'd app) \<times> files + (sup_error + sup_run) \<times> files \<times> 'o" where
  "app_main E clk now bt W http_at polls pb argv os =
     (let a = args_parse argv
      in if args_has a ''node'' then Inl (node_run E clk now bt a)
         else Inr (supervise W http_at polls pb (bt_exe bt) a (bt_files bt) os))"

lemma wait_up_iff: "wait_up up t \<longleftrightarrow> (\<exists>k < 100. t \<le> k \<and> up k)"
proof (induction up t rule: wait_up.induct)
  case (1 up t)
  show ?case
  proof (cases "t < 100 \<and> \<not> up t")
    case True
    then have "wait_up up t \<longleftrightarrow> wait_up up (Suc t)" by (simp add: wait_up.simps [of up t])
    then show ?thesis using 1 True by (metis Suc_le_eq le_eq_less_or_eq)
  next
    case False
    then show ?thesis by (auto simp: wait_up.simps [of up t])
  qed
qed

lemma report_turn_settles:
  assumes "report_turn http ports st = (out, st')"
  shows "report_turn http ports st' = (None, st')" "out = None \<longleftrightarrow> st' = st"
  using assms by (auto simp: report_turn_def Let_def split: prod.splits if_splits)

text \<open>A network that does not move is reported once.\<close>

lemma report_loop_still:
  assumes "report_turn http ports st = (None, st)"
  shows "report_loop (replicate k http) ports st = []"
  using assms by (induction k) simp_all

lemma report_loop_once: "length (report_loop (replicate k http) ports st) \<le> 1"
proof (cases k)
  case (Suc m)
  obtain out st' where r: "report_turn http ports st = (out, st')" by (cases "report_turn http ports st")
  with report_turn_settles(1) [OF r] report_loop_still [of http ports st' m] show ?thesis
    by (cases out) (simp_all add: Suc)
qed simp

lemma reset_keeps_keys:
  assumes "\<And>f. f \<in> {''chain.db'', ''chain.db-wal'', ''chain.db-shm''} \<Longrightarrow> \<not> (\<exists>pre. path = pre @ backslash @ f)"
  shows "reset_files root fs path = fs path"
proof -
  have "fold (\<lambda>f fs. fs(pre @ backslash @ f := None)) [''chain.db'', ''chain.db-wal'', ''chain.db-shm''] g path = g path"
    for pre and g :: files using assms by (auto simp: fun_upd_def)
  then have "fold (\<lambda>i fs. fold (\<lambda>f fs. fs(strf (root @ backslash @ ''node'' @ dec i) @ backslash @ f := None))
      [''chain.db'', ''chain.db-wal'', ''chain.db-shm''] fs) ns g path = g path" for ns and g :: files
    by (induction ns arbitrary: g) simp_all
  then show ?thesis by (simp add: reset_files_def)
qed

subsection \<open>Ports\<close>

lemma find_ports_Some:
  "find_ports pb n = Some (p, r) \<Longrightarrow>
     range_free pb p r \<and> (\<exists>k < 20. n \<le> k \<and> p = of_nat (7501 + k * 10) \<and> r = of_nat (8501 + k * 10))"
proof (induction pb n rule: find_ports.induct)
  case (1 pb n)
  show ?case
  proof (cases "n < 20 \<and> range_free pb (of_nat (7501 + n * 10)) (of_nat (8501 + n * 10))")
    case True
    then have "p = of_nat (7501 + n * 10)" "r = of_nat (8501 + n * 10)"
      using 1(2) by (simp_all add: find_ports.simps [of _ n])
    then show ?thesis using True by blast
  next
    case False
    then have "find_ports pb (Suc n) = Some (p, r)" "n < 20"
      using 1(2) by (auto simp: find_ports.simps [of _ n] Let_def split: if_splits)
    then show ?thesis using 1(1) [OF _ refl refl] False by (meson Suc_leD)
  qed
qed

lemma find_ports_None:
  "find_ports pb n = None \<Longrightarrow> n \<le> k \<Longrightarrow> k < 20 \<Longrightarrow>
     \<not> range_free pb (of_nat (7501 + k * 10)) (of_nat (8501 + k * 10))"
proof (induction pb n rule: find_ports.induct)
  case (1 pb n)
  have f: "\<not> range_free pb (of_nat (7501 + n * 10)) (of_nat (8501 + n * 10))" "find_ports pb (Suc n) = None"
    using 1(2,3,4) by (auto simp: find_ports.simps [of _ n] Let_def split: if_splits)
  show ?case
  proof (cases "k = n")
    case True
    then show ?thesis using f(1) by simp
  next
    case False
    then show ?thesis using 1(1) [OF _ refl refl f(1,2)] 1(3,4) by simp
  qed
qed

text \<open>A machine on which no port answers.\<close>

definition mini_probe :: probe where
  "mini_probe = \<lparr>pb_socket = (\<lambda>_. True), pb_select = (\<lambda>_. 0), pb_writable = (\<lambda>_. False), pb_error = (\<lambda>_. 0)\<rparr>"

lemma find_ports_mini: "find_ports mini_probe 0 = Some (7501, 8501)"
  by (simp add: find_ports.simps range_free_def port_free_def mini_probe_def)

subsection \<open>Peers\<close>

lemma join_split:
  assumes "list_all (\<lambda>t. t \<noteq> [] \<and> CHR '','' \<notin> set t) ts"
  shows "split_on CHR '','' (join_comma ts) = ts"
proof -
  have join: "s \<noteq> [] \<Longrightarrow> fold (\<lambda>t s. s @ (if s = [] then [] else '','') @ t) ts s = s @ concat (map ((#) CHR '','') ts)" for ts s
    by (induction ts arbitrary: s) auto
  have split: "split_on CHR '','' (t @ concat (map ((#) CHR '','') ts)) = t # ts"
    if "list_all (\<lambda>t. t \<noteq> [] \<and> CHR '','' \<notin> set t) (t # ts)" for t ts
    using that
  proof (induction ts arbitrary: t)
    case Nil
    then show ?case by (simp add: split_on_single)
  next
    case (Cons u ts)
    then have "split_on CHR '','' (u @ concat (map ((#) CHR '','') ts)) = u # ts" by simp
    then show ?case
      using Cons.prems takeWhile_neq [of "CHR '',''" t] by (subst split_on.simps) simp
  qed
  show ?thesis
  proof (cases ts)
    case Nil
    then show ?thesis by (simp add: join_comma_def split_on.simps)
  next
    case (Cons t us)
    then show ?thesis using assms split [of t us] join [of t us] by (simp add: join_comma_def)
  qed
qed

lemma peer_addr_eq: "unat p + j < 10 ^ 5 \<Longrightarrow> peer_addr p j = ''127.0.0.1:'' @ dec (unat p + j)"
  using length_dec [of "unat p + j" 4] by (simp add: peer_addr_def strf_short)

lemma node_peers_of_list:
  assumes "unat p2p0 + 3 \<le> 65536"
  shows "node_peers (peer_list p2p0 i) = map (\<lambda>j. ''127.0.0.1:'' @ dec (unat p2p0 + j)) (filter (\<lambda>j. j \<noteq> i) [0..<NODES])"
proof -
  let ?js = "filter (\<lambda>j. j \<noteq> i) [0..<NODES]"
  have addr: "map (peer_addr p2p0) ?js = map (\<lambda>j. ''127.0.0.1:'' @ dec (unat p2p0 + j)) ?js"
    using assms by (intro map_cong refl peer_addr_eq) (auto simp: NODES_def)
  have "CHR '','' \<notin> set (dec n)" for n
    by (rule dec_no_char) (simp add: is_digit_def less_eq_char_def)
  then have "list_all (\<lambda>t. t \<noteq> [] \<and> CHR '','' \<notin> set t) (map (\<lambda>j. ''127.0.0.1:'' @ dec (unat p2p0 + j)) ?js)"
    by (simp add: list_all_iff)
  from join_split [OF this] show ?thesis
    by (simp add: node_peers_def peer_list_def addr)
qed

subsection \<open>The command line of a node\<close>

definition node_argv :: "string \<Rightarrow> string \<Rightarrow> u16 \<Rightarrow> u16 \<Rightarrow> string \<Rightarrow> string \<Rightarrow> nat \<Rightarrow> string list" where
  "node_argv exe root p2p0 rpc0 bits hb i = [exe, ''--node'', ''--datadir'', node_dir root i, ''--p2p-port'', dec (unat p2p0 + i),
     ''--rpc-port'', dec (unat rpc0 + i), ''--peers'', peer_list p2p0 i, ''--rpc-peers'', rpc_list rpc0, ''--bits'', bits, ''--heartbeat'', hb]"

text \<open>
  The texts a command line can carry: no quote in a path, options that are words, and no more than the
  buffer of \<^verbatim>\<open>strf\<close> holds.
\<close>

definition carried :: "string \<Rightarrow> string \<Rightarrow> string \<Rightarrow> string \<Rightarrow> bool" where
  "carried exe root bits hb \<longleftrightarrow> CHR 0x22 \<notin> set exe \<and> CHR 0x22 \<notin> set root \<and> \<not> is_opt root \<and> plain_word bits \<and> \<not> is_opt bits \<and>
     plain_word hb \<and> \<not> is_opt hb \<and> length exe + length root + length bits + length hb \<le> 3900"

lemma node_dir_eq: "length root \<le> 3900 \<Longrightarrow> i < NODES \<Longrightarrow> node_dir root i = root @ backslash @ ''node'' @ dec (i + 1)"
  using length_dec [of "i + 1" 0] by (simp add: node_dir_def NODES_def strf_short backslash_def)

lemma node_dir_quotable:
  assumes "length root \<le> 3900" "i < NODES" "CHR 0x22 \<notin> set root" "\<not> is_opt root"
  shows "CHR 0x22 \<notin> set (node_dir root i)" "last (node_dir root i) \<noteq> CHR 0x5C" "\<not> is_opt (node_dir root i)"
proof -
  note e = node_dir_eq [OF assms(1,2)]
  show "CHR 0x22 \<notin> set (node_dir root i)"
    using dec_no_char [of "CHR 0x22" "i + 1"] assms(3) by (simp add: e backslash_def is_digit_def less_eq_char_def)
  have "CHR 0x5C \<notin> set (dec (i + 1))" by (rule dec_no_char) (simp add: is_digit_def less_eq_char_def)
  then have "last (dec (i + 1)) \<noteq> CHR 0x5C" by (metis dec_nonempty last_in_set)
  then show "last (node_dir root i) \<noteq> CHR 0x5C" by (simp add: e)
  show "\<not> is_opt (node_dir root i)"
    using assms(4) unfolding e is_opt_def backslash_def by (cases root rule: remdups_adj.cases) auto
qed

lemma plain_word_join: "plain_word a \<Longrightarrow> plain_word b \<Longrightarrow> plain_word (a @ '','' @ b)"
  by (auto simp: plain_word_def is_blank_def)

lemma plain_word_addr: "plain_word (''127.0.0.1:'' @ dec n)"
  using plain_word_dec [of n] by (auto simp: plain_word_def is_blank_def)

text \<open>The two lists as words.\<close>

lemma peer_list_word:
  assumes "unat p2p0 + 3 \<le> 65536" "i < NODES"
  shows "plain_word (peer_list p2p0 i)" "\<not> is_opt (peer_list p2p0 i)" "length (peer_list p2p0 i) \<le> 31"
proof -
  have a: "peer_addr p2p0 j = ''127.0.0.1:'' @ dec (unat p2p0 + j)" "length (dec (unat p2p0 + j)) \<le> 5" if "j < 3" for j
    using that assms(1) peer_addr_eq [of p2p0 j] length_dec [of "unat p2p0 + j" 4] by simp_all
  obtain j k where jk: "j < 3" "k < 3" "filter (\<lambda>j. j \<noteq> i) [0..<NODES] = [j, k]"
    using assms(2) that [of 1 2] that [of 0 2] that [of 0 1] by (auto simp: NODES_def upt_rec numeral_3_eq_3 less_Suc_eq)
  have e: "peer_list p2p0 i = (''127.0.0.1:'' @ dec (unat p2p0 + j)) @ '','' @ (''127.0.0.1:'' @ dec (unat p2p0 + k))"
    using a(1) [OF jk(1)] a(1) [OF jk(2)] by (simp add: peer_list_def join_comma_def jk(3))
  show "plain_word (peer_list p2p0 i)" unfolding e by (intro plain_word_join plain_word_addr)
  show "\<not> is_opt (peer_list p2p0 i)" unfolding e by (simp add: is_opt_def)
  show "length (peer_list p2p0 i) \<le> 31" using a(2) [OF jk(1)] a(2) [OF jk(2)] by (simp add: e)
qed

lemma not_opt_dec_app: "\<not> is_opt (dec n @ s)"
proof -
  obtain c w where "dec n = c # w" by (cases "dec n") simp_all
  moreover have "CHR ''-'' \<notin> set (dec n)" using dec_no_char [of "CHR ''-''"] by (simp add: is_digit_def less_eq_char_def)
  ultimately show ?thesis by (auto simp: is_opt_def)
qed

lemma rpc_list_word:
  assumes "unat rpc0 + 3 \<le> 65536"
  shows "plain_word (rpc_list rpc0)" "\<not> is_opt (rpc_list rpc0)" "length (rpc_list rpc0) \<le> 17"
proof -
  have e: "rpc_list rpc0 = dec (unat rpc0) @ '','' @ (dec (Suc (unat rpc0)) @ '','' @ dec (Suc (Suc (unat rpc0))))"
    by (simp add: rpc_list_def join_comma_def NODES_def upt_rec)
  show "plain_word (rpc_list rpc0)" unfolding e by (intro plain_word_join plain_word_dec)
  show "\<not> is_opt (rpc_list rpc0)" unfolding e by (rule not_opt_dec_app)
  show "length (rpc_list rpc0) \<le> 17"
    using assms length_dec [of "unat rpc0" 4] length_dec [of "Suc (unat rpc0)" 4] length_dec [of "Suc (Suc (unat rpc0))" 4] by (simp add: e)
qed

text \<open>Splitting undoes the quoting, and the node's \<^verbatim>\<open>Args::parse\<close> finds every option.\<close>

lemma crt_node_cmdline:
  assumes c: "carried exe root bits hb" and p: "unat p2p0 + 3 \<le> 65536" "unat rpc0 + 3 \<le> 65536" and i: "i < NODES"
  shows "crt_argv (node_cmdline exe root p2p0 rpc0 bits hb i) = node_argv exe root p2p0 rpc0 bits hb i"
proof -
  let ?a = "dec (unat p2p0 + i)" and ?b = "dec (unat rpc0 + i)"
  have len: "length root \<le> 3900" using c by (simp add: carried_def)
  note dir = node_dir_quotable [OF len i] and pl = peer_list_word [OF p(1) i] and rl = rpc_list_word [OF p(2)]
  have "length (node_dir root i) \<le> length root + 6"
    using i length_dec [of "i + 1" 0] by (simp add: node_dir_eq [OF len i] backslash_def NODES_def)
  moreover have "length ?a \<le> 5" "length ?b \<le> 5" using p i length_dec [of _ 4] by (simp_all add: NODES_def)
  ultimately have e: "node_cmdline exe root p2p0 rpc0 bits hb i = quote @ exe @ quote @ '' '' @ (''--node'' @ '' '' @ (''--datadir'' @ '' '' @
      (quote @ node_dir root i @ quote @ '' '' @ (''--p2p-port'' @ '' '' @ (?a @ '' '' @ (''--rpc-port'' @ '' '' @ (?b @ '' '' @
      (''--peers'' @ '' '' @ (peer_list p2p0 i @ '' '' @ (''--rpc-peers'' @ '' '' @ (rpc_list rpc0 @ '' '' @ (''--bits'' @ '' '' @
      (bits @ '' '' @ (''--heartbeat'' @ '' '' @ hb))))))))))))))"
    unfolding node_cmdline_def using c pl(3) rl(3) by (subst strf_short) (simp_all add: carried_def quote_def)
  have w: "plain_word ''--node''" "plain_word ''--datadir''" "plain_word ''--p2p-port''" "plain_word ''--rpc-port''" "plain_word ''--peers''"
    "plain_word ''--rpc-peers''" "plain_word ''--bits''" "plain_word ''--heartbeat''"
    by (simp_all add: plain_word_def is_blank_def)
  have q: "CHR 0x22 \<notin> set exe" "plain_word bits" "plain_word hb" "CHR 0x22 \<notin> set root" "\<not> is_opt root" using c by (simp_all add: carried_def)
  show ?thesis
    unfolding e node_argv_def crt_argv_quoted [OF q(1)] crt_args_word [OF w(1)] crt_args_word [OF w(2)] crt_args_word [OF w(3)]
      crt_args_word [OF w(4)] crt_args_word [OF w(5)] crt_args_word [OF w(6)] crt_args_word [OF w(7)] crt_args_word [OF w(8)]
      crt_args_quoted [OF dir(1) [OF q(4,5)] impI [OF dir(2) [OF q(4,5)]]] crt_args_word [OF plain_word_dec]
      crt_args_word [OF pl(1)] crt_args_word [OF rl(1)] crt_args_word [OF q(2)] crt_args_word [OF q(3)] ..
qed

lemma parse_node_argv:
  assumes c: "carried exe root bits hb" and p: "unat p2p0 + 3 \<le> 65536" "unat rpc0 + 3 \<le> 65536" and i: "i < NODES"
  defines "a \<equiv> args_parse (node_argv exe root p2p0 rpc0 bits hb i)"
  shows "args_has a ''node''" "args_get a ''datadir'' d = node_dir root i" "args_get a ''p2p-port'' d = dec (unat p2p0 + i)"
    "args_get a ''rpc-port'' d = dec (unat rpc0 + i)" "args_get a ''peers'' d = peer_list p2p0 i" "args_get a ''rpc-peers'' d = rpc_list rpc0"
    "args_get a ''bits'' d = bits" "args_get a ''heartbeat'' d = hb" "args_get a ''mine'' d = d" "\<not> args_has a ''netid''"
proof -
  have opt: "is_opt ''--node''" "is_opt ''--datadir''" "is_opt ''--p2p-port''" "is_opt ''--rpc-port''" "is_opt ''--peers''"
    "is_opt ''--rpc-peers''" "is_opt ''--bits''" "is_opt ''--heartbeat''" by (simp_all add: is_opt_def)
  have val: "\<not> is_opt (node_dir root i)" "\<not> is_opt bits" "\<not> is_opt hb" using node_dir_quotable [of root i] c i by (simp_all add: carried_def)
  note word = peer_list_word(2) [OF p(1) i] rpc_list_word(2) [OF p(2)] not_opt_dec
  have "a = \<lparr>kv = smap_put ''heartbeat'' hb (smap_put ''bits'' bits (smap_put ''rpc-peers'' (rpc_list rpc0) (smap_put ''peers'' (peer_list p2p0 i)
      (smap_put ''rpc-port'' (dec (unat rpc0 + i)) (smap_put ''p2p-port'' (dec (unat p2p0 + i)) (smap_put ''datadir'' (node_dir root i)
      (smap_put ''node'' ''1'' []))))))), pos = []\<rparr>"
    unfolding a_def by (simp add: args_parse_def node_argv_def opt val word)
  then show "args_has a ''node''" "args_get a ''datadir'' d = node_dir root i" "args_get a ''p2p-port'' d = dec (unat p2p0 + i)"
    "args_get a ''rpc-port'' d = dec (unat rpc0 + i)" "args_get a ''peers'' d = peer_list p2p0 i" "args_get a ''rpc-peers'' d = rpc_list rpc0"
    "args_get a ''bits'' d = bits" "args_get a ''heartbeat'' d = hb" "args_get a ''mine'' d = d" "\<not> args_has a ''netid''"
    by (simp_all add: args_get_def args_has_def smap_find_put smap_ok_put)
qed

lemma atoi_dec: "n < 2 ^ 31 \<Longrightarrow> atoi (dec n) = int n"
  using scan_int_dec [of "[]" n] by (simp add: atoi_def)

text \<open>What a program started with the command line does: it runs a node with these settings.\<close>

lemma node_reads_cmdline:
  assumes c: "carried exe root bits hb" and p: "unat p2p0 + 3 \<le> 65536" "unat rpc0 + 3 \<le> 65536" and i: "i < NODES"
  defines "a \<equiv> args_parse (crt_argv (node_cmdline exe root p2p0 rpc0 bits hb i))"
  shows "args_has a ''node'' \<and> args_get a ''datadir'' d = node_dir root i \<and>
    (fst (node_run E clk now bt a) = Inr ap \<longrightarrow>
       listen_port (p2p ap) = p2p0 + of_nat i \<and> rpc_port ap = rpc0 + of_nat i \<and>
       targets (p2p ap) = map (\<lambda>j. ''127.0.0.1:'' @ dec (unat p2p0 + j)) (filter (\<lambda>j. j \<noteq> i) [0..<NODES]) \<and> rpc_peers ap = rpc_list rpc0 \<and>
       params ap = default_params\<lparr>p_bits := strtoul bits\<rparr> \<and> heartbeat_s ap = strtoull hb \<and> mine_on ap)"
proof -
  note g = parse_node_argv [OF c p i] and crt = crt_node_cmdline [OF c p i]
  have prm: "node_params a = default_params\<lparr>p_bits := strtoul bits\<rparr>" by (simp add: node_params_def Let_def a_def crt g)
  have port: "of_int (atoi (dec (unat q + i))) = q + of_nat i" if "unat q + 3 \<le> 65536" for q :: u16
    using that i atoi_dec [of "unat q + i"] by (simp add: NODES_def)
  have "listen_port (p2p ap) = p2p0 + of_nat i \<and> rpc_port ap = rpc0 + of_nat i \<and>
       targets (p2p ap) = map (\<lambda>j. ''127.0.0.1:'' @ dec (unat p2p0 + j)) (filter (\<lambda>j. j \<noteq> i) [0..<NODES]) \<and> rpc_peers ap = rpc_list rpc0 \<and>
       params ap = default_params\<lparr>p_bits := strtoul bits\<rparr> \<and> heartbeat_s ap = strtoull hb \<and> mine_on ap"
    if r: "fst (node_run E clk now bt a) = Inr ap"
  proof -
    obtain ad ch where "ap = node_app a (bt_exe bt) ad ch"
      using r by (auto simp: node_run_def Let_def split: if_splits option.splits prod.splits)
    then show ?thesis
      using port [OF p(1)] port [OF p(2)] node_peers_of_list [OF p(1), of i]
      by (simp add: node_app_def p2p_start_def prm) (simp add: a_def crt g)
  qed
  then show ?thesis using g(1,2) by (simp add: a_def crt)
qed

subsection \<open>Processes\<close>

lemma spawn_nodes_live:
  "win_laws W \<Longrightarrow> spawn_nodes W exe root p2p0 rpc0 bits hb job ns kids os = (r, os') \<Longrightarrow>
    (r = Inr ks \<longrightarrow> win_running W os \<subseteq> L \<union> kid_process ` set kids \<longrightarrow> win_running W os' \<subseteq> L \<union> kid_process ` set ks) \<and>
    (r = Inr ks \<longrightarrow> win_handles W os \<subseteq> H \<union> (\<Union>k \<in> set kids. kid_handles k) \<longrightarrow> win_handles W os' \<subseteq> H \<union> (\<Union>k \<in> set ks. kid_handles k)) \<and>
    (job = Some j \<longrightarrow> win_jobs_work W \<longrightarrow> job_covers W j L os \<longrightarrow> job_covers W j L os')"
proof (induction ns arbitrary: kids os)
  case (Cons i ns)
  obtain q os1 where sp: "spawn_node W exe (node_cmdline exe root p2p0 rpc0 bits hb i) (node_dir root i @ backslash @ ''node.log'') job
      (rpc0 + of_nat i) os = (q, os1)" by fastforce
  note live = spawn_node_live(1,2) [OF Cons.prems(1) sp]
  show ?case
  proof (cases q)
    case None
    then show ?thesis using Cons.prems(2) sp live(2) by auto
  next
    case (Some k)
    then have rest: "spawn_nodes W exe root p2p0 rpc0 bits hb job ns (kids @ [k]) os1 = (r, os')" using Cons.prems(2) sp by simp
    have run: "win_running W os1 \<subseteq> insert (kid_process k) (win_running W os)" using live(1) Some by simp
    note hd = spawn_node_handles [OF Cons.prems(1) sp [unfolded Some]] and IH = Cons.IH [OF Cons.prems(1) rest]
    show ?thesis
    proof (intro conjI impI)
      assume "r = Inr ks" "win_running W os \<subseteq> L \<union> kid_process ` set kids"
      with run IH show "win_running W os' \<subseteq> L \<union> kid_process ` set ks" by auto
    next
      assume "r = Inr ks" "win_handles W os \<subseteq> H \<union> (\<Union>k \<in> set kids. kid_handles k)"
      with hd have "win_handles W os1 \<subseteq> H \<union> (\<Union>k \<in> set (kids @ [k]). kid_handles k)" by auto
      with IH \<open>r = Inr ks\<close> show "win_handles W os' \<subseteq> H \<union> (\<Union>k \<in> set ks. kid_handles k)" by blast
    next
      assume "job = Some j" "win_jobs_work W" "job_covers W j L os"
      with live(2) IH show "job_covers W j L os'" by blast
    qed
  qed
qed auto

text \<open>The nodes are spawned one after the other, each with its command line.\<close>

lemma spawn_nodes_chain:
  "spawn_nodes W exe root p2p0 rpc0 bits hb job ns kids os = (Inr ks, os') \<Longrightarrow>
    \<exists>new ss. ks = kids @ new \<and> length new = length ns \<and> ss 0 = os \<and> ss (length ns) = os' \<and>
      (\<forall>k < length ns. spawn_node W exe (node_cmdline exe root p2p0 rpc0 bits hb (ns ! k)) (node_dir root (ns ! k) @ backslash @ ''node.log'') job
         (rpc0 + of_nat (ns ! k)) (ss k) = (Some (new ! k), ss (Suc k)))"
proof (induction ns arbitrary: kids os)
  case (Cons i ns)
  obtain k os1 where sp: "spawn_node W exe (node_cmdline exe root p2p0 rpc0 bits hb i) (node_dir root i @ backslash @ ''node.log'') job
      (rpc0 + of_nat i) os = (Some k, os1)" "spawn_nodes W exe root p2p0 rpc0 bits hb job ns (kids @ [k]) os1 = (Inr ks, os')"
    using Cons.prems by (auto split: prod.splits option.splits)
  obtain new ss where IH: "ks = (kids @ [k]) @ new" "length new = length ns" "ss 0 = os1" "ss (length ns) = os'"
      "\<forall>k < length ns. spawn_node W exe (node_cmdline exe root p2p0 rpc0 bits hb (ns ! k)) (node_dir root (ns ! k) @ backslash @ ''node.log'') job
         (rpc0 + of_nat (ns ! k)) (ss k) = (Some (new ! k), ss (Suc k))"
    using Cons.IH [OF sp(2)] by blast
  show ?case
    by (rule exI [of _ "k # new"], rule exI [of _ "case_nat os ss"]) (use sp(1) IH in \<open>auto simp: nth_Cons split: nat.split\<close>)
qed (auto intro: exI [of _ "\<lambda>_. os"])

definition kid_ports :: "u16 \<Rightarrow> u16 list" where
  "kid_ports rpc0 = map (\<lambda>i. rpc0 + of_nat i) [0..<NODES]"

lemma spawn_node_rpc: "spawn_node W exe cmd logpath job rpc os = (Some k, os') \<Longrightarrow> kid_rpc k = rpc"
  by (auto simp: spawn_node_def split: prod.splits option.splits)

lemma supervise_started:
  assumes r: "supervise W http_at polls pb exe a fs os = (Inr run, fs', os')"
    and root: "root = args_get a ''datadir'' (dir_of exe @ backslash @ ''chainlite-data'')"
  shows "find_ports pb 0 = Some (sr_p2p run, sr_rpc run)" "\<exists>t < 100. all_up (http_at t) (kid_ports (sr_rpc run))"
    "\<exists>ss. ss 0 = snd (open_job W os) \<and> (\<forall>k < NODES. spawn_node W exe
        (node_cmdline exe root (sr_p2p run) (sr_rpc run) (args_get a ''bits'' ''18'') (args_get a ''heartbeat'' ''12'') k)
        (node_dir root k @ backslash @ ''node.log'') (fst (open_job W os)) (sr_rpc run + of_nat k) (ss k) = (Some (sr_kids run ! k), ss (Suc k)))"
    "length (sr_kids run) = NODES"
proof -
  obtain p2p0 rpc0 job os1 kids os2 where s: "find_ports pb 0 = Some (p2p0, rpc0)" "open_job W os = (job, os1)"
      "spawn_nodes W exe root p2p0 rpc0 (args_get a ''bits'' ''18'') (args_get a ''heartbeat'' ''12'') job [0..<NODES] [] os1 = (Inr kids, os2)"
      "wait_up (\<lambda>t. all_up (http_at t) (map kid_rpc kids)) 0" "sr_p2p run = p2p0" "sr_rpc run = rpc0" "sr_kids run = kids"
    using r unfolding root by (auto simp: supervise_def Let_def split: option.splits prod.splits sum.splits if_splits)
  obtain ss where ch: "length kids = NODES" "ss 0 = os1" "\<forall>k < NODES. spawn_node W exe
        (node_cmdline exe root p2p0 rpc0 (args_get a ''bits'' ''18'') (args_get a ''heartbeat'' ''12'') k)
        (node_dir root k @ backslash @ ''node.log'') job (rpc0 + of_nat k) (ss k) = (Some (kids ! k), ss (Suc k))"
    using spawn_nodes_chain [OF s(3)] by auto
  have "map kid_rpc kids = kid_ports rpc0"
    using ch by (intro nth_equalityI) (auto simp: kid_ports_def dest: spawn_node_rpc)
  then show "\<exists>t < 100. all_up (http_at t) (kid_ports (sr_rpc run))" using s(4,6) by (auto simp: wait_up_iff)
  show "find_ports pb 0 = Some (sr_p2p run, sr_rpc run)" using s by simp
  show "length (sr_kids run) = NODES" using ch(1) s(7) by simp
  show "\<exists>ss. ss 0 = snd (open_job W os) \<and> (\<forall>k < NODES. spawn_node W exe
        (node_cmdline exe root (sr_p2p run) (sr_rpc run) (args_get a ''bits'' ''18'') (args_get a ''heartbeat'' ''12'') k)
        (node_dir root k @ backslash @ ''node.log'') (fst (open_job W os)) (sr_rpc run + of_nat k) (ss k) = (Some (sr_kids run ! k), ss (Suc k)))"
    using ch(2,3) s(2,5-7) by auto
qed

text \<open>The chosen ports are far from the end of the range.\<close>

lemma find_ports_room: "find_ports pb 0 = Some (p, r) \<Longrightarrow> unat p + 3 \<le> 65536 \<and> unat r + 3 \<le> 65536"
proof -
  assume "find_ports pb 0 = Some (p, r)"
  then obtain k where k: "k < 20" "p = of_nat (7501 + k * 10)" "r = of_nat (8501 + k * 10)" using find_ports_Some by blast
  have "unat p = 7501 + k * 10" "unat r = 8501 + k * 10"
    using k(1) by (simp_all only: k(2,3) unat_of_nat) (simp_all add: take_bit_nat_eq_self)
  then show ?thesis using k(1) by simp
qed

text \<open>
  When the launcher returns, no process goes on running that was not running before: after Ctrl+C in any case, after a
  failed start if jobs work.  After Ctrl+C no handle is left open either.
\<close>

lemma supervise_no_orphans:
  assumes W: "win_laws W" and r: "supervise W http_at polls pb exe a fs os = (r, fs', os')"
    and ok: "win_jobs_work W \<or> (\<exists>run. r = Inr run)"
  shows "win_running W os' \<subseteq> win_running W os \<and> ((\<exists>run. r = Inr run) \<longrightarrow> win_handles W os' \<subseteq> win_handles W os)"
proof (cases "find_ports pb 0")
  case None
  then show ?thesis using r by (auto simp: supervise_def Let_def)
next
  case (Some pr)
  obtain p2p0 rpc0 where pr: "pr = (p2p0, rpc0)" by fastforce
  obtain job os1 where j: "open_job W os = (job, os1)" by fastforce
  obtain q os2 where sp: "spawn_nodes W exe (args_get a ''datadir'' (dir_of exe @ backslash @ ''chainlite-data'')) p2p0 rpc0 (args_get a ''bits'' ''18'')
      (args_get a ''heartbeat'' ''12'') job [0..<NODES] [] os1 = (q, os2)" by fastforce
  note live = spawn_nodes_live [OF W sp]
  have os': "os' = close_opt W job os2 \<and> (\<exists>e. r = Inl e) \<or> (\<exists>kids. q = Inr kids \<and> os' = stop_nodes W job kids os2)"
    using r Some pr j sp by (auto simp: supervise_def Let_def split: sum.splits if_splits)
  have run: ?thesis if q: "q = Inr kids" "os' = stop_nodes W job kids os2" for kids
  proof -
    have "win_running W os2 \<subseteq> win_running W os \<union> kid_process ` set kids"
      using live [of kids "win_running W os" "win_handles W os \<union> set_option job"] open_job_live [OF W j] q(1) by simp
    moreover have "win_handles W os2 \<subseteq> win_handles W os \<union> set_option job \<union> (\<Union>k \<in> set kids. kid_handles k)"
      using live [of kids "win_running W os" "win_handles W os \<union> set_option job"] open_job_handles [OF W j] q(1) by simp
    ultimately show ?thesis using stop_nodes_live [OF W, of job kids os2] stop_nodes_handles [OF W, of job kids os2] q(2) by blast
  qed
  show ?thesis
  proof (cases "\<exists>e. r = Inl e \<and> os' = close_opt W job os2")
    case True
    then have work: "win_jobs_work W" using ok by auto
    obtain i where "job = Some i" "job_covers W i (win_running W os) os1" using open_job_covers [OF W work, of os] j by auto
    then show ?thesis using live work True job_covers_close [OF W] by (auto simp: close_opt_def)
  next
    case False
    then show ?thesis using os' run by blast
  qed
qed

text \<open>
  Without a job a failed start leaves its processes behind: when there is no job object and the second node
  does not start, the launcher returns, the first node is alive and nothing ends it; its handles stay open.
\<close>

lemma failed_start_orphans:
  "fst (supervise (mini_win False 2) http_at polls mini_probe exe a fs mini_os0) = Inl (SpawnFailed 2) \<and>
     win_running (mini_win False 2) (snd (snd (supervise (mini_win False 2) http_at polls mini_probe exe a fs mini_os0))) = {0} \<and>
     win_handles (mini_win False 2) (snd (snd (supervise (mini_win False 2) http_at polls mini_probe exe a fs mini_os0))) = {0, 1}"
  by (simp add: supervise_def Let_def find_ports_mini open_job_def mini_win_def NODES_def upt_rec spawn_node_def mini_os0_def close_opt_def
    win_running_def)

text \<open>On a machine with jobs and room for three nodes the launcher starts.\<close>

lemma mini_started:
  "\<exists>run fs' os'. supervise (mini_win True 9) (\<lambda>_ _ _ _ _ _. (200, [])) polls mini_probe exe a fs mini_os0 = (Inr run, fs', os')"
  by (simp add: supervise_def Let_def find_ports_mini open_job_def mini_win_def NODES_def upt_rec spawn_node_def mini_os0_def
    wait_up.simps all_up_def rpc_up_def)

end
