(* ===== verification/Gpu.thy ===== *)
theory Gpu
  imports TxBlock
begin

text \<open>
  \<^verbatim>\<open>src/clminer_gpu.cu\<close>: the device code of the CUDA miner.  The kernel computes the double
  SHA-256 of a 100-byte header with its own straight-line padding; it is shown equal to
  \<^verbatim>\<open>sha256d\<close> of the node.  \<open>gpu_step\<close> interleaves the threads of one launch of \<^verbatim>\<open>mine_kernel\<close> in any order:
  a thread reads the shared flag, tries a nonce, sets the flag and stores its nonce in
  separate steps.

  Lemmas: a finished launch reports a nonce that meets the target, or there is none among
  the nonces it covers; every launch ends after a bounded number of steps and none is stuck.
\<close>

definition dK :: "u32 list" where
  "dK = concat [
    [0x428a2f98, 0x71374491, 0xb5c0fbcf, 0xe9b5dba5, 0x3956c25b, 0x59f111f1, 0x923f82a4, 0xab1c5ed5],
    [0xd807aa98, 0x12835b01, 0x243185be, 0x550c7dc3, 0x72be5d74, 0x80deb1fe, 0x9bdc06a7, 0xc19bf174],
    [0xe49b69c1, 0xefbe4786, 0x0fc19dc6, 0x240ca1cc, 0x2de92c6f, 0x4a7484aa, 0x5cb0a9dc, 0x76f988da],
    [0x983e5152, 0xa831c66d, 0xb00327c8, 0xbf597fc7, 0xc6e00bf3, 0xd5a79147, 0x06ca6351, 0x14292967],
    [0x27b70a85, 0x2e1b2138, 0x4d2c6dfc, 0x53380d13, 0x650a7354, 0x766a0abb, 0x81c2c92e, 0x92722c85],
    [0xa2bfe8a1, 0xa81a664b, 0xc24b8b70, 0xc76c51a3, 0xd192e819, 0xd6990624, 0xf40e3585, 0x106aa070],
    [0x19a4c116, 0x1e376c08, 0x2748774c, 0x34b0bcb5, 0x391c0cb3, 0x4ed8aa4a, 0x5b9cca4f, 0x682e6ff3],
    [0x748f82ee, 0x78a5636f, 0x84c87814, 0x8cc70208, 0x90befffa, 0xa4506ceb, 0xbef9a3f7, 0xc67178f2]]"

definition rr :: "u32 \<Rightarrow> nat \<Rightarrow> u32" where
  "rr x n = drop_bit n x OR push_bit (32 - n) x"

definition dev_schedule :: "bytes \<Rightarrow> u32 list" where
  "dev_schedule blk =
     fold (\<lambda>i w.
        let s0 = rr (w ! (i - 15)) 7 XOR rr (w ! (i - 15)) 18 XOR drop_bit 3 (w ! (i - 15));
            s1 = rr (w ! (i - 2)) 17 XOR rr (w ! (i - 2)) 19 XOR drop_bit 10 (w ! (i - 2))
        in w @ [w ! (i - 16) + s0 + w ! (i - 7) + s1])
       [16..<64]
       (map (\<lambda>i. push_bit 24 (ucast (blk ! (i * 4))) OR push_bit 16 (ucast (blk ! (i * 4 + 1))) OR
               push_bit 8 (ucast (blk ! (i * 4 + 2))) OR ucast (blk ! (i * 4 + 3))) [0..<16])"

fun dev_round :: "u32 \<Rightarrow> u32 \<Rightarrow> wvars \<Rightarrow> wvars" where
  "dev_round k wi (a, b, c, d, e, f, g, h) =
     (let S1 = rr e 6 XOR rr e 11 XOR rr e 25;
          ch = (e AND f) XOR (NOT e AND g);
          t1 = h + S1 + ch + k + wi;
          S0 = rr a 2 XOR rr a 13 XOR rr a 22;
          mj = (a AND b) XOR (a AND c) XOR (b AND c);
          t2 = S0 + mj
      in (t1 + t2, a, b, c, d + t1, e, f, g))"

definition sha256_block :: "bytes \<Rightarrow> u32 list \<Rightarrow> u32 list" where
  "sha256_block blk st =
     (let w = dev_schedule blk in
      case fold (\<lambda>i v. dev_round (dK ! i) (w ! i) v) [0..<64]
             (st ! 0, st ! 1, st ! 2, st ! 3, st ! 4, st ! 5, st ! 6, st ! 7) of
        (a, b, c, d, e, f, g, h) \<Rightarrow>
          [st ! 0 + a, st ! 1 + b, st ! 2 + c, st ! 3 + d, st ! 4 + e, st ! 5 + f, st ! 6 + g, st ! 7 + h])"

text \<open>\<^verbatim>\<open>for (i = lo; i < hi; i++) buf[i] = f(i);\<close>\<close>

definition fill :: "(nat \<Rightarrow> u8) \<Rightarrow> nat \<Rightarrow> nat \<Rightarrow> bytes \<Rightarrow> bytes" where
  "fill f lo hi buf = fold (\<lambda>i buf. buf[i := f i]) [lo..<hi] buf"

definition dev_digest :: "u32 list \<Rightarrow> bytes" where
  "dev_digest st = concat (map (\<lambda>i. [ucast (drop_bit 24 (st ! i)), ucast (drop_bit 16 (st ! i)),
     ucast (drop_bit 8 (st ! i)), ucast (st ! i)]) [0..<8])"

text \<open>Uninitialised stack buffers start with arbitrary contents \<open>junk\<close>, \<open>junk2\<close>.\<close>

definition sha256d_100 :: "bytes \<Rightarrow> bytes \<Rightarrow> bytes \<Rightarrow> bytes" where
  "sha256d_100 junk junk2 msg =
     (let st = [0x6a09e667, 0xbb67ae85, 0x3c6ef372, 0xa54ff53a, 0x510e527f, 0x9b05688c, 0x1f83d9ab, 0x5be0cd19];
          blk = fill (\<lambda>i. msg ! i) 0 64 junk;
          st = sha256_block blk st;
          blk = fill (\<lambda>i. msg ! (64 + i)) 0 36 blk;
          blk = blk[36 := 0x80];
          blk = fill (\<lambda>i. 0) 37 56 blk;
          bits = (100 * 8 :: u64);
          blk = fold (\<lambda>i blk. blk[56 + i := ucast (drop_bit (56 - 8 * i) bits)]) [0..<8] blk;
          st = sha256_block blk st;
          dig = dev_digest st;
          st2 = [0x6a09e667, 0xbb67ae85, 0x3c6ef372, 0xa54ff53a, 0x510e527f, 0x9b05688c, 0x1f83d9ab, 0x5be0cd19];
          blk2 = fill (\<lambda>i. dig ! i) 0 32 junk2;
          blk2 = blk2[32 := 0x80];
          blk2 = fill (\<lambda>i. 0) 33 56 blk2;
          bits2 = (32 * 8 :: u64);
          blk2 = fold (\<lambda>i blk. blk[56 + i := ucast (drop_bit (56 - 8 * i) bits2)]) [0..<8] blk2;
          st2 = sha256_block blk2 st2
      in dev_digest st2)"

fun lead_zeros_from :: "bytes \<Rightarrow> int \<Rightarrow> int" where
  "lead_zeros_from [] n = 256"
| "lead_zeros_from (x # xs) n = (if x = 0 then lead_zeros_from xs (n + 8) else lzb_byte x n)"

definition lead_zeros :: "bytes \<Rightarrow> int" where
  "lead_zeros h = lead_zeros_from h 0"

text \<open>The test of one nonce: patch it into the thread's copy of the header, hash, compare.\<close>

definition dev_patch :: "bytes \<Rightarrow> u64 \<Rightarrow> bytes" where
  "dev_patch local nc = fold (\<lambda>b local. local[92 + b := ucast (drop_bit (8 * b) nc)]) [0..<8] local"

definition dev_hit :: "bytes \<Rightarrow> u32 \<Rightarrow> u64 \<Rightarrow> bool" where
  "dev_hit raw bits nc \<longleftrightarrow> lead_zeros (sha256d_100 (replicate 64 0) (replicate 64 0) (dev_patch raw nc)) \<ge> sint bits"

subsection \<open>The kernel as interleaved threads\<close>

text \<open>
  A thread is before its test of \<^verbatim>\<open>*flag\<close> at index \<open>k\<close>, past it and about to try nonce \<open>k\<close>,
  has won the \<^verbatim>\<open>atomicExch\<close> and is about to store its nonce, or has returned.
\<close>

datatype thread = AtFlag nat | Trying nat | Winner u64 | Returned

record gpu =
  g_flag :: bool
  g_found :: u64
  g_thread :: "nat \<Rightarrow> thread"

definition thread_nonce :: "u64 \<Rightarrow> nat \<Rightarrow> nat \<Rightarrow> nat \<Rightarrow> u64" where
  "thread_nonce base stride tid k = base + of_nat tid + of_nat k * of_nat stride"

inductive gpu_step :: "bytes \<Rightarrow> u32 \<Rightarrow> u64 \<Rightarrow> nat \<Rightarrow> nat \<Rightarrow> gpu \<Rightarrow> gpu \<Rightarrow> bool"
  for raw bits base stride per_thread where
  finish: "g_thread s t = AtFlag k \<Longrightarrow> \<not> k < per_thread \<Longrightarrow>
     gpu_step raw bits base stride per_thread s (s\<lparr>g_thread := (g_thread s)(t := Returned)\<rparr>)"
| abort: "g_thread s t = AtFlag k \<Longrightarrow> k < per_thread \<Longrightarrow> g_flag s \<Longrightarrow>
     gpu_step raw bits base stride per_thread s (s\<lparr>g_thread := (g_thread s)(t := Returned)\<rparr>)"
| begin_try: "g_thread s t = AtFlag k \<Longrightarrow> k < per_thread \<Longrightarrow> \<not> g_flag s \<Longrightarrow>
     gpu_step raw bits base stride per_thread s (s\<lparr>g_thread := (g_thread s)(t := Trying k)\<rparr>)"
| miss: "g_thread s t = Trying k \<Longrightarrow> \<not> dev_hit raw bits (thread_nonce base stride t k) \<Longrightarrow>
     gpu_step raw bits base stride per_thread s (s\<lparr>g_thread := (g_thread s)(t := AtFlag (Suc k))\<rparr>)"
| win: "g_thread s t = Trying k \<Longrightarrow> dev_hit raw bits (thread_nonce base stride t k) \<Longrightarrow> \<not> g_flag s \<Longrightarrow>
     gpu_step raw bits base stride per_thread s
       (s\<lparr>g_flag := True, g_thread := (g_thread s)(t := Winner (thread_nonce base stride t k))\<rparr>)"
| lose: "g_thread s t = Trying k \<Longrightarrow> dev_hit raw bits (thread_nonce base stride t k) \<Longrightarrow> g_flag s \<Longrightarrow>
     gpu_step raw bits base stride per_thread s (s\<lparr>g_thread := (g_thread s)(t := Returned)\<rparr>)"
| store: "g_thread s t = Winner nc \<Longrightarrow>
     gpu_step raw bits base stride per_thread s (s\<lparr>g_found := nc, g_thread := (g_thread s)(t := Returned)\<rparr>)"

text \<open>The host starts \<open>stride\<close> threads with the flag and the result cleared.\<close>

definition gpu_start :: "nat \<Rightarrow> gpu \<Rightarrow> bool" where
  "gpu_start stride s \<longleftrightarrow> \<not> g_flag s \<and> g_found s = 0 \<and> (\<forall>t. g_thread s t = (if t < stride then AtFlag 0 else Returned))"

subsection \<open>The device hash is the node's hash\<close>

lemma rr_rotr: "rr = rotr"
  by (simp add: fun_eq_iff rr_def rotr_def)

lemma dev_round_eq: "dev_round = sha_round"
  by (intro ext) (auto simp: rr_rotr)

lemma dK_K: "dK = K"
  unfolding dK_def K_def by (rule refl)

lemma dev_schedule_eq: "dev_schedule = schedule"
  by (rule ext) (unfold dev_schedule_def schedule_def sched_next_def sched0_def rr_rotr Let_def, rule refl)

lemma sha256_block_eq: "sha256_block blk st = compress st blk"
  unfolding sha256_block_def compress_def dev_schedule_eq dev_round_eq dK_K Let_def by (rule refl)

lemma dev_digest_eq: "dev_digest = out_bytes"
  by (simp add: fun_eq_iff dev_digest_def out_bytes_def)

lemma lead_zeros_eq: "lead_zeros = leading_zero_bits"
proof -
  have "lead_zeros_from xs n = lzb_loop xs n" for xs n by (induction xs n rule: lzb_loop.induct) auto
  then show ?thesis by (simp add: fun_eq_iff lead_zeros_def leading_zero_bits_def)
qed

lemma length_fill [simp]: "length (fill f lo hi buf) = length buf"
proof -
  have "length (fold (\<lambda>i buf. buf[i := f i]) xs buf) = length buf" for xs by (induction xs arbitrary: buf) auto
  then show ?thesis by (simp add: fill_def)
qed

lemma nth_fill: "j < length buf \<Longrightarrow> fill f lo hi buf ! j = (if lo \<le> j \<and> j < hi then f j else buf ! j)"
proof -
  have "j < length buf \<Longrightarrow> fold (\<lambda>i buf. buf[i := f i]) xs buf ! j = (if j \<in> set xs then f j else buf ! j)" for xs
    by (induction xs arbitrary: buf) (auto simp: nth_list_update)
  moreover assume "j < length buf"
  ultimately show ?thesis by (simp add: fill_def)
qed

lemma fill_range: "fold (\<lambda>i buf. buf[off + i := f i]) [0..<n] buf = fill (\<lambda>j. f (j - off)) off (off + n) buf"
proof -
  have "[off..<off + n] = map (\<lambda>i. off + i) [0..<n]" using map_add_upt[of off n] by (simp add: add.commute)
  then show ?thesis by (simp add: fill_def fold_map comp_def)
qed

text \<open>One padded block: a message tail, the marker, zeros and the bit length.\<close>

lemma padded_block:
  assumes "length buf = 64" "length p = n" "n < 56"
  shows "fold (\<lambda>i blk. blk[56 + i := ucast (drop_bit (56 - 8 * i) bits)]) [0..<8] (fill (\<lambda>i. 0) (Suc n) 56 ((fill (\<lambda>i. p ! i) 0 n buf)[n := 0x80]))
    = p @ [0x80] @ replicate (55 - n) 0 @ be_bytes64 bits"
proof (rule nth_equalityI)
  show "length (fold (\<lambda>i blk. blk[56 + i := ucast (drop_bit (56 - 8 * i) bits)]) [0..<8] (fill (\<lambda>i. 0) (Suc n) 56 ((fill (\<lambda>i. p ! i) 0 n buf)[n := 0x80])))
      = length (p @ [0x80] @ replicate (55 - n) 0 @ be_bytes64 bits)"
    using assms by (simp add: fill_range be_bytes64_def)
  fix j assume "j < length (fold (\<lambda>i blk. blk[56 + i := ucast (drop_bit (56 - 8 * i) bits)]) [0..<8] (fill (\<lambda>i. 0) (Suc n) 56 ((fill (\<lambda>i. p ! i) 0 n buf)[n := 0x80])))"
  then have j: "j < 64" using assms by (simp add: fill_range)
  then show "fold (\<lambda>i blk. blk[56 + i := ucast (drop_bit (56 - 8 * i) bits)]) [0..<8] (fill (\<lambda>i. 0) (Suc n) 56 ((fill (\<lambda>i. p ! i) 0 n buf)[n := 0x80])) ! j
      = (p @ [0x80] @ replicate (55 - n) 0 @ be_bytes64 bits) ! j"
    using assms by (auto simp: fill_range nth_fill nth_append nth_list_update be_bytes64_def nth_Cons')
qed

lemma sha256_one_block:
  assumes "length p = n" "n < 56"
  shows "sha256 p = out_bytes (compress IV (p @ [0x80] @ replicate (55 - n) 0 @ be_bytes64 (of_nat n * 8)))"
proof -
  have "(119 - n) mod 64 = 55 - n" using assms(2) by (simp add: pad_count')
  then have pad: "sha_pad p = p @ [0x80] @ replicate (55 - n) 0 @ be_bytes64 (of_nat n * 8)"
    using assms by (simp add: sha_pad_def)
  have "length (sha_pad p) = 64" using assms by (simp add: pad be_bytes64_def)
  then have "fold_blocks IV (sha_pad p) = compress IV (sha_pad p)"
    using fold_blocks_block[of "sha_pad p" IV "[]"] by (simp add: fold_blocks_short)
  then show ?thesis by (simp add: sha256_reference sha256_ref_def pad)
qed

lemma sha256_two_blocks:
  assumes "length p = 64" "length q = n" "n < 56"
  shows "sha256 (p @ q) = out_bytes (compress (compress IV p) (q @ [0x80] @ replicate (55 - n) 0 @ be_bytes64 (of_nat (64 + n) * 8)))"
proof -
  let ?t = "q @ [0x80] @ replicate (55 - n) 0 @ be_bytes64 (of_nat (64 + n) * 8)"
  have "(119 - n) mod 64 = 55 - n" "(64 + n) mod 64 = n" using assms(3) by (simp_all add: pad_count')
  then have pad: "sha_pad (p @ q) = p @ ?t" using assms by (simp add: sha_pad_def)
  have "length ?t = 64" using assms by (simp add: be_bytes64_def)
  then have "fold_blocks IV (p @ ?t) = compress (compress IV p) ?t"
    using fold_blocks_block[OF assms(1), of IV ?t] fold_blocks_block[of ?t "compress IV p" "[]"] by (simp add: fold_blocks_short)
  then show ?thesis by (simp only: sha256_reference sha256_ref_def pad)
qed

lemma fill_whole: "length buf = n \<Longrightarrow> length p \<ge> n \<Longrightarrow> fill (\<lambda>i. p ! i) 0 n buf = take n p"
  by (rule nth_equalityI) (simp_all add: nth_fill)

lemma sha256d_100_eq:
  assumes "length msg = 100" "length junk = 64" "length junk2 = 64"
  shows "sha256d_100 junk junk2 msg = sha256d msg"
proof -
  let ?p = "take 64 msg" and ?q = "drop 64 msg"
  have len: "length ?p = 64" "length ?q = 36" using assms(1) by simp_all
  have b1: "fill (\<lambda>i. msg ! i) 0 64 junk = ?p" using assms by (simp add: fill_whole)
  have q: "(\<lambda>i. msg ! (64 + i)) = (\<lambda>i. ?q ! i)" using assms(1) by (simp add: fun_eq_iff)
  have b2: "fold (\<lambda>i blk. blk[56 + i := ucast (drop_bit (56 - 8 * i) (100 * 8 :: u64))]) [0..<8]
      (fill (\<lambda>i. 0) 37 56 ((fill (\<lambda>i. msg ! (64 + i)) 0 36 ?p)[36 := 0x80])) = ?q @ [0x80] @ replicate 19 0 @ be_bytes64 (100 * 8)"
    using padded_block[OF len(1,2), where bits = "100 * 8"] unfolding q by simp
  have h1: "out_bytes (compress (compress IV ?p) (?q @ [0x80] @ replicate 19 0 @ be_bytes64 (100 * 8))) = sha256 msg"
    using sha256_two_blocks[OF len] by simp
  let ?d = "sha256 msg"
  have b3: "fold (\<lambda>i blk. blk[56 + i := ucast (drop_bit (56 - 8 * i) (32 * 8 :: u64))]) [0..<8]
      (fill (\<lambda>i. 0) 33 56 ((fill (\<lambda>i. ?d ! i) 0 32 junk2)[32 := 0x80])) = ?d @ [0x80] @ replicate 23 0 @ be_bytes64 (32 * 8)"
    using padded_block[OF assms(3) length_sha256(1)[of msg], where bits = "32 * 8"] by simp
  have h2: "out_bytes (compress IV (?d @ [0x80] @ replicate 23 0 @ be_bytes64 (32 * 8))) = sha256 ?d"
    using sha256_one_block[OF length_sha256(1), of msg] by simp
  show ?thesis
    unfolding sha256d_100_def Let_def sha256_block_eq dev_digest_eq IV_def[symmetric] b1 b2 h1 b3 h2 sha256d_def by (rule refl)
qed

lemma dev_patch_eq: "dev_patch = patch_nonce"
  by (simp add: fun_eq_iff dev_patch_def patch_nonce_def NONCE_OFFSET_def)

lemma length_patch_nonce: "length (patch_nonce raw nc) = length raw"
proof -
  have "length (fold (\<lambda>k raw. raw[NONCE_OFFSET + k := f k]) xs raw) = length raw" for xs and f :: "nat \<Rightarrow> u8"
    by (induction xs arbitrary: raw) auto
  then show ?thesis by (simp add: patch_nonce_def)
qed

text \<open>A nonce the device accepts is one the node accepts, for difficulties a signed int can hold.\<close>

lemma unat_lt_2p_int: "unat (bits :: u32) < 2 ^ 31 \<Longrightarrow> uint bits < 2 ^ 31"
  by (metis of_nat_less_iff of_nat_numeral of_nat_power uint_nat)

lemma dev_hit_iff:
  assumes "length raw = 100" "unat bits < 2 ^ 31"
  shows "dev_hit raw bits nc \<longleftrightarrow> pow_ok (sha256d (patch_nonce raw nc)) bits"
proof -
  let ?h = "sha256d (patch_nonce raw nc)"
  obtain l where l: "leading_zero_bits ?h = int l" "l \<le> 256"
    using leading_zero_bits_range[OF length_sha256(2)] by (metis nonneg_int_cases of_nat_le_numeral_iff)
  have "unat (of_nat l :: u32) = l" using l(2) by (simp add: unat_of_nat take_bit_nat_eq_self)
  then have "pow_ok ?h bits \<longleftrightarrow> unat bits \<le> l" by (simp add: pow_ok_def l word_le_nat_alt)
  moreover have "sint bits = int (unat bits)"
    using unat_lt_2p_int[OF assms(2)] signed_take_bit_int_eq_self[of 31 "uint bits"]
    by (simp add: sint_uint order_trans[OF _ uint_ge_0])
  then have "sint bits \<le> int l \<longleftrightarrow> unat bits \<le> l" by (simp only: of_nat_le_iff)
  ultimately show ?thesis using assms(1)
    by (simp add: dev_hit_def dev_patch_eq sha256d_100_eq length_patch_nonce lead_zeros_eq l(1))
qed

subsection \<open>The result of a round\<close>

definition gpu_inv :: "bytes \<Rightarrow> u32 \<Rightarrow> gpu \<Rightarrow> bool" where
  "gpu_inv raw bits s \<longleftrightarrow>
     (\<forall>t nc. g_thread s t = Winner nc \<longrightarrow> dev_hit raw bits nc \<and> g_flag s) \<and>
     (\<forall>t u nc nd. g_thread s t = Winner nc \<longrightarrow> g_thread s u = Winner nd \<longrightarrow> t = u) \<and>
     (g_flag s \<longrightarrow> (\<exists>t nc. g_thread s t = Winner nc) \<or> dev_hit raw bits (g_found s))"

lemma gpu_inv_start: "gpu_start stride s \<Longrightarrow> gpu_inv raw bits s"
  by (simp add: gpu_start_def gpu_inv_def)

lemma gpu_inv_step:
  assumes "gpu_step raw bits base stride per_thread s s'" "gpu_inv raw bits s"
  shows "gpu_inv raw bits s'"
  using assms
proof (induction rule: gpu_step.induct)
  case (store s t nc)
  then have "dev_hit raw bits nc" by (auto simp: gpu_inv_def)
  moreover have "\<not> (\<exists>u nd. u \<noteq> t \<and> g_thread s u = Winner nd)" using store by (auto simp: gpu_inv_def)
  ultimately show ?case by (auto simp: gpu_inv_def)
next
  case (win s t k)
  then have "\<not> (\<exists>u nd. g_thread s u = Winner nd)" by (auto simp: gpu_inv_def)
  with win show ?case by (auto simp: gpu_inv_def)
qed (auto simp: gpu_inv_def split: if_splits, (metis thread.distinct)+)

text \<open>How far each launched thread has searched while nobody has found anything.\<close>

fun searched :: "(nat \<Rightarrow> bool) \<Rightarrow> nat \<Rightarrow> thread \<Rightarrow> bool" where
  "searched hit n (AtFlag k) \<longleftrightarrow> (\<forall>j < k. \<not> hit j)"
| "searched hit n (Trying k) \<longleftrightarrow> (\<forall>j < k. \<not> hit j)"
| "searched hit n (Winner nc) \<longleftrightarrow> False"
| "searched hit n Returned \<longleftrightarrow> (\<forall>j < n. \<not> hit j)"

definition thread_hit :: "bytes \<Rightarrow> u32 \<Rightarrow> u64 \<Rightarrow> nat \<Rightarrow> nat \<Rightarrow> nat \<Rightarrow> bool" where
  "thread_hit raw bits base stride t k \<longleftrightarrow> dev_hit raw bits (thread_nonce base stride t k)"

definition covered :: "bytes \<Rightarrow> u32 \<Rightarrow> u64 \<Rightarrow> nat \<Rightarrow> nat \<Rightarrow> gpu \<Rightarrow> bool" where
  "covered raw bits base stride per_thread s \<longleftrightarrow>
     (\<not> g_flag s \<longrightarrow> (\<forall>t < stride. searched (thread_hit raw bits base stride t) per_thread (g_thread s t))) \<and>
     (\<forall>t \<ge> stride. g_thread s t = Returned) \<and> (\<forall>t k. g_thread s t = Trying k \<longrightarrow> k < per_thread)"

definition round_inv :: "bytes \<Rightarrow> u32 \<Rightarrow> u64 \<Rightarrow> nat \<Rightarrow> nat \<Rightarrow> gpu \<Rightarrow> bool" where
  "round_inv raw bits base stride per_thread s \<longleftrightarrow> gpu_inv raw bits s \<and> covered raw bits base stride per_thread s"

lemma covered_start: "gpu_start stride s \<Longrightarrow> covered raw bits base stride per_thread s"
  by (simp add: gpu_start_def covered_def)

lemma covered_thread:
  assumes "covered raw bits base stride per_thread s" "g_thread s t \<noteq> Returned"
  shows "t < stride" "\<not> g_flag s \<Longrightarrow> searched (thread_hit raw bits base stride t) per_thread (g_thread s t)"
  using assms by (auto simp: covered_def) (meson not_le)+

lemma covered_move:
  assumes "covered raw bits base stride per_thread s" "g_thread s t \<noteq> Returned" "\<And>k. x = Trying k \<Longrightarrow> k < per_thread"
    and "\<not> g_flag s' \<Longrightarrow> searched (thread_hit raw bits base stride t) per_thread x"
    and "g_flag s \<Longrightarrow> g_flag s'" "g_thread s' = (g_thread s)(t := x)"
  shows "covered raw bits base stride per_thread s'"
  using assms covered_thread(1) [OF assms(1,2)] by (auto simp: covered_def)

lemma covered_step:
  assumes "gpu_step raw bits base stride per_thread s s'" "covered raw bits base stride per_thread s"
  shows "covered raw bits base stride per_thread s'"
  using assms
proof (induction rule: gpu_step.induct)
  case (miss s t k)
  have "searched (thread_hit raw bits base stride t) per_thread (AtFlag (Suc k))" if "\<not> g_flag s"
    using covered_thread(2) [OF miss.prems, of t] miss.hyps that by (simp add: less_Suc_eq thread_hit_def)
  then show ?case
    by (intro covered_move [OF miss.prems, of t "AtFlag (Suc k)"]) (simp_all add: miss.hyps)
next
  case (finish s t k)
  have "searched (thread_hit raw bits base stride t) per_thread Returned" if "\<not> g_flag s"
    using covered_thread(2) [OF finish.prems, of t] finish.hyps that by simp
  then show ?case
    by (intro covered_move [OF finish.prems, of t Returned]) (simp_all add: finish.hyps)
next
  case (begin_try s t k)
  then show ?case
    using covered_thread(2) [OF begin_try.prems, of t]
    by (intro covered_move [OF begin_try.prems, of t "Trying k"]) simp_all
next
  case (abort s t k)
  then show ?case by (intro covered_move [OF abort.prems, of t Returned]) simp_all
next
  case (win s t k)
  then show ?case
    by (intro covered_move [OF win.prems, of t "Winner (thread_nonce base stride t k)"]) simp_all
next
  case (lose s t k)
  then show ?case by (intro covered_move [OF lose.prems, of t Returned]) simp_all
next
  case (store s t nc)
  have "g_flag s"
    using covered_thread(2) [OF store.prems, of t] store.hyps by auto
  then show ?case
    by (intro covered_move [OF store.prems, of t Returned]) (simp_all add: store.hyps)
qed

interpretation gk: step_system "gpu_step raw bits base stride per_thread" "gpu_start stride"
    "round_inv raw bits base stride per_thread" for raw bits base stride per_thread
  by unfold_locales (auto simp: round_inv_def gpu_inv_start covered_start intro: gpu_inv_step covered_step)

text \<open>Every nonce of the range of a round belongs to one thread and one try.\<close>

lemma round_range:
  assumes "i < stride * per_thread"
  obtains t k where "t < stride" "k < per_thread" "base + of_nat i = thread_nonce base stride t k"
proof
  show "i mod stride < stride" using assms by (metis mod_less_divisor mult_eq_0_iff not_gr0 not_less0)
  show "i div stride < per_thread" using assms by (metis less_mult_imp_div_less mult.commute)
  have "i = i mod stride + (i div stride) * stride" by simp
  then show "base + of_nat i = thread_nonce base stride (i mod stride) (i div stride)"
    unfolding thread_nonce_def by (metis add.assoc of_nat_add of_nat_mult)
qed

lemma round_result:
  assumes "gpu_start stride s" "(gpu_step raw bits base stride per_thread)\<^sup>*\<^sup>* s s'" "\<forall>t. g_thread s' t = Returned"
  shows "g_flag s' \<Longrightarrow> dev_hit raw bits (g_found s')"
    "\<not> g_flag s' \<Longrightarrow> i < stride * per_thread \<Longrightarrow> \<not> dev_hit raw bits (base + of_nat i)"
proof -
  have inv: "round_inv raw bits base stride per_thread s'"
    using assms gk.reach_inv by blast
  show "dev_hit raw bits (g_found s')" if "g_flag s'"
    using inv that assms(3) by (simp add: round_inv_def gpu_inv_def)
  show "\<not> dev_hit raw bits (base + of_nat i)" if "\<not> g_flag s'" "i < stride * per_thread"
    using inv that assms(3) round_range [OF that(2), of base]
    by (metis (no_types, lifting) covered_def round_inv_def searched.simps(4) thread_hit_def)
qed

text \<open>Every step brings some thread closer to its return.\<close>

fun thread_rank :: "nat \<Rightarrow> thread \<Rightarrow> nat" where
  "thread_rank n (AtFlag k) = 2 * (n - k) + 2"
| "thread_rank n (Trying k) = 2 * (n - k) + 1"
| "thread_rank n (Winner nc) = 1"
| "thread_rank n Returned = 0"

definition gpu_rank :: "nat \<Rightarrow> nat \<Rightarrow> gpu \<Rightarrow> nat" where
  "gpu_rank stride per_thread s = (\<Sum>t < stride. thread_rank per_thread (g_thread s t))"

lemma gpu_rank_thread:
  assumes "covered raw bits base stride per_thread s" "g_thread s' = (g_thread s)(t := x)"
    and "thread_rank per_thread x < thread_rank per_thread (g_thread s t)"
  shows "gpu_rank stride per_thread s' < gpu_rank stride per_thread s"
proof -
  have "t < stride" using covered_thread(1) [OF assms(1), of t] assms(3) by fastforce
  then show ?thesis
    unfolding gpu_rank_def using assms by (intro sum_strict_mono_ex1) auto
qed

lemma gpu_rank_step:
  assumes "gpu_step raw bits base stride per_thread s s'" "covered raw bits base stride per_thread s"
  shows "gpu_rank stride per_thread s' < gpu_rank stride per_thread s"
  using assms(1)
proof (cases rule: gpu_step.cases)
  case (begin_try t k)
  then show ?thesis by (intro gpu_rank_thread [OF assms(2), of _ t "Trying k"]) auto
next
  case (miss t k)
  moreover have "k < per_thread" using assms(2) miss by (simp add: covered_def)
  ultimately show ?thesis by (intro gpu_rank_thread [OF assms(2), of _ t "AtFlag (Suc k)"]) auto
next
  case (win t k)
  moreover have "k < per_thread" using assms(2) win by (simp add: covered_def)
  ultimately show ?thesis
    by (intro gpu_rank_thread [OF assms(2), of _ t "Winner (thread_nonce base stride t k)"]) auto
qed (intro gpu_rank_thread [OF assms(2), where x = Returned], auto)+

lemma gpu_run_length:
  assumes "gpu_start stride s" "((gpu_step raw bits base stride per_thread) ^^ n) s s'"
  shows "n + gpu_rank stride per_thread s' \<le> gpu_rank stride per_thread s"
  using assms(2)
proof (induction n arbitrary: s')
  case (Suc n)
  then obtain s1 where r: "((gpu_step raw bits base stride per_thread) ^^ n) s s1" "gpu_step raw bits base stride per_thread s1 s'"
    by auto
  have "covered raw bits base stride per_thread s1"
    using gk.reach_inv [OF assms(1) relpowp_imp_rtranclp [OF r(1)]] by (simp add: round_inv_def)
  from gpu_rank_step [OF r(2) this] Suc.IH [OF r(1)] show ?case by simp
qed simp

lemma gpu_rank_start: "gpu_start stride s \<Longrightarrow> gpu_rank stride per_thread s = stride * (2 * per_thread + 2)"
  by (simp add: gpu_rank_def gpu_start_def)

lemma gpu_progress:
  assumes "g_thread s t \<noteq> Returned"
  shows "\<exists>s'. gpu_step raw bits base stride per_thread s s'"
proof (cases "g_thread s t")
  case (AtFlag k)
  then show ?thesis using gpu_step.finish [of s t k] gpu_step.abort [of s t k] gpu_step.begin_try [of s t k] by blast
next
  case (Trying k)
  then show ?thesis using gpu_step.miss [of s t k] gpu_step.win [of s t k] gpu_step.lose [of s t k] by blast
next
  case (Winner nc)
  then show ?thesis using gpu_step.store [of s t nc] by blast
qed (use assms in simp)

text \<open>A launch of one thread that tries one nonce, at difficulty 0.\<close>

definition one_thread :: gpu where
  "one_thread = \<lparr>g_flag = False, g_found = 0, g_thread = (\<lambda>t. if t < 1 then AtFlag 0 else Returned)\<rparr>"

lemma one_thread_start: "gpu_start 1 one_thread"
  by (simp add: gpu_start_def one_thread_def)

lemma one_thread_begins: "gpu_step raw bits b 1 1 one_thread (one_thread\<lparr>g_thread := (g_thread one_thread)(0 := Trying 0)\<rparr>)"
  by (rule gpu_step.begin_try) (simp_all add: one_thread_def)

lemma one_thread_wins:
  assumes "length raw = 100"
  shows "(gpu_step raw 0 b 1 1)\<^sup>*\<^sup>* one_thread \<lparr>g_flag = True, g_found = b, g_thread = (\<lambda>t. Returned)\<rparr>"
proof -
  have nc: "thread_nonce b 1 0 0 = b" by (simp add: thread_nonce_def)
  then have hit: "dev_hit raw 0 (thread_nonce b 1 0 0)" using assms by (simp add: dev_hit_iff)
  let ?s = "one_thread\<lparr>g_thread := (g_thread one_thread)(0 := Trying 0)\<rparr>"
  let ?w = "?s\<lparr>g_flag := True, g_thread := (g_thread ?s)(0 := Winner (thread_nonce b 1 0 0))\<rparr>"
  have win: "gpu_step raw 0 b 1 1 ?s ?w" by (rule gpu_step.win [OF _ hit]) (simp_all add: one_thread_def)
  have "gpu_step raw 0 b 1 1 ?w (?w\<lparr>g_found := b, g_thread := (g_thread ?w)(0 := Returned)\<rparr>)"
    by (rule gpu_step.store) (simp add: nc [simplified])
  moreover have "?w\<lparr>g_found := b, g_thread := (g_thread ?w)(0 := Returned)\<rparr> = \<lparr>g_flag = True, g_found = b, g_thread = (\<lambda>t. Returned)\<rparr>"
    by (auto simp: one_thread_def fun_eq_iff)
  ultimately show ?thesis using one_thread_begins win by (metis converse_rtranclp_into_rtranclp r_into_rtranclp)
qed

end
