(* ===== verification/GpuHost.thy ===== *)
theory GpuHost
  imports Gpu Cli
begin

text \<open>
  The host side of \<^verbatim>\<open>src/clminer_gpu.cu\<close> (\<^verbatim>\<open>main\<close>): read the options, ask a node for work, run up to 64 rounds of the
  kernel, write the nonce into the header and submit it.  \<open>launch base\<close> is what one launch of the kernel
  reports; \<open>kernel_outcome\<close> says which reports the interleavings of \<open>gpu_step\<close> allow.

  Lemmas: the miner reads exactly the header, the target and the tip the node offered, every nonce it
  submits meets the target, a turn that submits nothing has searched its range or seen the tip move, and the node accepts the block if it still holds the
  template and its tip has not moved, and refuses it if it has dropped the template.
\<close>

record gpu_work =
  gw_hdr :: bytes
  gw_bits :: int
  gw_tip :: string

definition gpu_fetch :: "http_fun \<Rightarrow> string \<Rightarrow> u16 \<Rightarrow> string \<Rightarrow> gpu_work option" where
  "gpu_fetch http host port ad =
     (case http host port ''GET'' (''/work'' @ (if ad = [] then [] else ''?addr='' @ ad)) [] of (code, body) \<Rightarrow>
        if code \<noteq> 200 then None
        else
          (let bits = extract_json_int body ''bits'' 0 in
           case unhex (extract_json_str body ''header'') of None \<Rightarrow> None
           | Some h \<Rightarrow> if length h \<noteq> 100 \<or> bits \<le> 0 then None
               else Some \<lparr>gw_hdr = h, gw_bits = bits, gw_tip = extract_json_str body ''tip''\<rparr>))"

text \<open>The check of \<^verbatim>\<open>/status\<close> after every eighth round: has another node won?\<close>

definition tip_moved :: "http_fun \<Rightarrow> string \<Rightarrow> u16 \<Rightarrow> string \<Rightarrow> nat \<Rightarrow> bool" where
  "tip_moved http host port tip k \<longleftrightarrow> k mod 8 = 7 \<and>
     (case http host port ''GET'' ''/status'' [] of (code, chk) \<Rightarrow>
        code = 200 \<and> (let cur = extract_json_str chk ''tip'' in cur \<noteq> [] \<and> tip \<noteq> [] \<and> cur \<noteq> tip))"

function gpu_rounds :: "(u64 \<Rightarrow> u64 option) \<Rightarrow> (nat \<Rightarrow> bool) \<Rightarrow> nat \<Rightarrow> nat \<Rightarrow> u64 \<Rightarrow> u64 option" where
  "gpu_rounds launch moved n k base =
     (if k < 64 then
        (case launch base of Some nc \<Rightarrow> Some nc
         | None \<Rightarrow> if moved k then None else gpu_rounds launch moved n (Suc k) (base + of_nat n))
      else None)"
  by pat_completeness auto
termination
  by (relation "measure (\<lambda>(launch, moved, n, k, base). 64 - k)") auto

declare gpu_rounds.simps [simp del]

definition gpu_submit :: "http_fun \<Rightarrow> string \<Rightarrow> u16 \<Rightarrow> gpu_work \<Rightarrow> u64 \<Rightarrow> int \<times> string" where
  "gpu_submit http host port w nc = http host port ''POST'' ''/submitwork'' (hexs (dev_patch (gw_hdr w) nc))"

text \<open>
  One iteration of the loop of \<^verbatim>\<open>main\<close>.  \<open>http_at\<close> is what the node answers to the fetch (0), to the submission (1) and to the
  status check of round \<open>k\<close> (\<open>k + 2\<close>); \<open>launch w\<close> are the launches on work \<open>w\<close>, each of which covers \<open>n\<close> nonces.
\<close>

definition gpu_turn :: "(nat \<Rightarrow> http_fun) \<Rightarrow> string \<Rightarrow> u16 \<Rightarrow> string \<Rightarrow> (gpu_work \<Rightarrow> u64 \<Rightarrow> u64 option) \<Rightarrow> nat \<Rightarrow> u64
    \<Rightarrow> (int \<times> string) option" where
  "gpu_turn http_at host port ad launch n base =
     (case gpu_fetch (http_at 0) host port ad of None \<Rightarrow> None
      | Some w \<Rightarrow>
          (case gpu_rounds (launch w) (\<lambda>k. tip_moved (http_at (k + 2)) host port (gw_tip w) k) n 0 base of None \<Rightarrow> None
           | Some nc \<Rightarrow> Some (gpu_submit (http_at 1) host port w nc)))"

text \<open>
  \<^verbatim>\<open>main\<close>: the options, the size of a launch on a device of \<open>sms\<close> multiprocessors (\<open>None\<close>: there is no such
  device, exit code 1), and the first \<open>k\<close> iterations of the endless loop with what each submitted.
\<close>

definition gpu_options :: "args \<Rightarrow> (string \<times> u16) \<times> string \<times> int" where
  "gpu_options a = (parse_hostport ''127.0.0.1'' (args_get a ''rpc'' ''8501''), args_get a ''addr'' [], atoi (args_get a ''device'' ''0''))"

definition gpu_stride :: "nat \<Rightarrow> nat" where
  "gpu_stride sms = sms * 32 * 256"

definition gpu_per_thread :: nat where
  "gpu_per_thread = 256"

definition gpu_main :: "(int \<Rightarrow> nat option) \<Rightarrow> (nat \<Rightarrow> nat \<Rightarrow> http_fun) \<Rightarrow> (nat \<Rightarrow> gpu_work \<Rightarrow> u64 \<Rightarrow> u64 option) \<Rightarrow> (nat \<Rightarrow> u64) \<Rightarrow> nat \<Rightarrow> args
    \<Rightarrow> (int \<times> string) option list option" where
  "gpu_main device_sms http_at launch base_at k a =
     (case gpu_options a of ((host, port), ad, device) \<Rightarrow>
        case device_sms device of None \<Rightarrow> None
        | Some sms \<Rightarrow> Some (map (\<lambda>t. gpu_turn (http_at t) host port ad (launch sms) (gpu_stride sms * gpu_per_thread) (base_at t)) [0..<k]))"

text \<open>What a launch of \<open>stride\<close> threads with \<open>per_thread\<close> tries each can report.\<close>

definition kernel_outcome :: "bytes \<Rightarrow> u32 \<Rightarrow> nat \<Rightarrow> nat \<Rightarrow> u64 \<Rightarrow> u64 option \<Rightarrow> bool" where
  "kernel_outcome raw bits stride per_thread base r \<longleftrightarrow>
     (\<exists>s s'. gpu_start stride s \<and> (gpu_step raw bits base stride per_thread)\<^sup>*\<^sup>* s s' \<and>
        (\<forall>t. g_thread s' t = Returned) \<and> r = (if g_flag s' then Some (g_found s') else None))"

subsection \<open>Rounds\<close>

lemma kernel_outcome_hit:
  assumes "kernel_outcome raw bits stride per_thread base (Some nc)"
  shows "dev_hit raw bits nc"
  using assms round_result(1) by (auto simp: kernel_outcome_def split: if_splits)

lemma kernel_outcome_miss:
  assumes "kernel_outcome raw bits stride per_thread base None" "i < stride * per_thread"
  shows "\<not> dev_hit raw bits (base + of_nat i)"
  using assms round_result(2) by (auto simp: kernel_outcome_def split: if_splits)

lemma gpu_rounds_hit:
  assumes "\<forall>b. kernel_outcome raw bits stride per_thread b (launch b)"
  shows "gpu_rounds launch moved n k base = Some nc \<Longrightarrow> dev_hit raw bits nc"
proof (induction "64 - k" arbitrary: k base rule: less_induct)
  case less
  show ?case
  proof (cases "launch base")
    case None
    then have "gpu_rounds launch moved n (Suc k) (base + of_nat n) = Some nc" "k < 64"
      using less.prems by (auto simp: gpu_rounds.simps [of _ _ _ k] split: if_splits)
    then show ?thesis using less.hyps [of "Suc k"] by simp
  next
    case (Some m)
    then have "m = nc" using less.prems by (simp add: gpu_rounds.simps [of _ _ _ k] split: if_splits)
    then show ?thesis using kernel_outcome_hit [of raw bits stride per_thread base nc] spec [OF assms, of base] Some by simp
  qed
qed

lemma gpu_rounds_exhausts:
  assumes "\<forall>b. kernel_outcome raw bits stride per_thread b (launch b)" "\<forall>k < 64. \<not> moved k" "n = stride * per_thread"
  shows "gpu_rounds launch moved n k base = None \<Longrightarrow> i < (64 - k) * n \<Longrightarrow> \<not> dev_hit raw bits (base + of_nat i)"
proof (induction "64 - k" arbitrary: k base i rule: less_induct)
  case less
  then have k: "k < 64" by (cases "k < 64") simp_all
  have miss: "launch base = None" and rest: "gpu_rounds launch moved n (Suc k) (base + of_nat n) = None"
    using less.prems(1) k assms(2) by (auto simp: gpu_rounds.simps [of _ _ _ k] split: if_splits option.splits)
  show ?case
  proof (cases "i < n")
    case True
    then show ?thesis using kernel_outcome_miss [of raw bits stride per_thread base i] spec [OF assms(1), of base] miss assms(3) by simp
  next
    case False
    have "64 - k = Suc (64 - Suc k)" using k by simp
    then have "i - n < (64 - Suc k) * n" using less.prems(2) False by simp
    then have "\<not> dev_hit raw bits (base + of_nat n + of_nat (i - n))"
      using less.hyps [of "Suc k" "base + of_nat n" "i - n"] rest k by simp
    moreover have "base + of_nat n + of_nat (i - n) = base + of_nat i" using False by (simp add: of_nat_diff)
    ultimately show ?thesis by simp
  qed
qed

subsection \<open>Work and its submission\<close>

text \<open>The body of \<^verbatim>\<open>GET /work\<close> without an address, and the block it offers.\<close>

definition offered :: "('k, 'd) ext \<Rightarrow> times \<Rightarrow> 'd app \<Rightarrow> block" where
  "offered E tm a = candidate (miner_addr a)
     (collect (ecng E) (pool a) (cstate (chain a)) (params a) (chain_height (chain a) + 1) 1000) (now_s_at tm 0) a"

definition work_body :: "block \<Rightarrow> h256 \<Rightarrow> u64 \<Rightarrow> string" where
  "work_body b tip height = ''{\"header\":\"'' @ hexs (header_serialize (hdr b)) @ ''\",\"bits\":'' @ dec (unat (h_bits (hdr b))) @
     '',\"height\":'' @ dec (unat height) @ '',\"tip\":\"'' @ hexs tip @ ''\",\"ntx\":'' @ dec (length (txs b)) @ ''}''"

lemma quote_not_hex: "CHR 0x22 \<notin> set (hexs x)"
  using hexs_chars [of "CHR 0x22" x] by (auto simp: hexdigits_def)

lemma work_header: "extract_json_str (work_body b tip height) ''header'' = hexs (header_serialize (hdr b))"
proof -
  have "cut_at (quote @ ''header'' @ quote @ '':'' @ quote) (work_body b tip height) =
      Some (''{'', hexs (header_serialize (hdr b)) @ quote @ drop 1 (''\",\"bits\":'' @ dec (unat (h_bits (hdr b))) @
        '',\"height\":'' @ dec (unat height) @ '',\"tip\":\"'' @ hexs tip @ ''\",\"ntx\":'' @ dec (length (txs b)) @ ''}''))"
    using cut_at_first [of "quote @ ''header'' @ quote @ '':'' @ quote" "''{''"] by (simp add: quote_def work_body_def)
  then show ?thesis
    using cut_at_first [of quote "hexs (header_serialize (hdr b))"] quote_not_hex by (simp add: extract_json_str_def quote_def)
qed

lemma atoll_dec_now: "n < 2 ^ 63 \<Longrightarrow> s = [] \<or> \<not> is_digit (hd s) \<Longrightarrow> atoll (dec n @ s) = int n"
  using scan_int_dec [of s n] by (simp add: atoll_def)

lemma work_bits: "extract_json_int (work_body b tip height) ''bits'' d = int (unat (h_bits (hdr b)))"
proof -
  let ?q = "quote @ ''bits'' @ quote" and ?x = "CHR '':''"
  let ?tail = "dec (unat (h_bits (hdr b))) @ '',\"height\":'' @ dec (unat height) @ '',\"tip\":\"'' @ hexs tip @ ''\",\"ntx\":'' @
      dec (length (txs b)) @ ''}''"
  define w1 where "w1 = ''{\"header\"''"
  define w2 where "w2 = quote @ hexs (header_serialize (hdr b)) @ quote @ '','' @ ?q"
  have body: "work_body b tip height = w1 @ ?x # w2 @ ?x # ?tail"
    by (simp add: work_body_def w1_def w2_def quote_def)
  have c: "?x \<notin> set ?q" "?x \<notin> set w1" "?x \<notin> set w2"
    using hexs_plain by (auto simp: w1_def w2_def quote_def)
  have "\<not> (\<exists>u. w1 = u @ ?q)"
  proof
    assume "\<exists>u. w1 = u @ ?q"
    then have "rev w1 ! 1 = CHR ''s''" by (auto simp: quote_def nth_append)
    then show False by (simp add: w1_def)
  qed
  then have "cut_at (?q @ [?x]) (work_body b tip height) = map_option (\<lambda>(a, b). (w1 @ ?x # a, b)) (cut_at (?q @ [?x]) (w2 @ ?x # ?tail))"
    unfolding body using cut_at_last [OF c(1,2)] by (simp add: quote_def)
  also have "\<dots> = Some (w1 @ ?x # take (length w2 - length ?q) w2, ?tail)"
    using cut_at_last [OF c(1,3), of ?tail] by (auto simp: w2_def)
  finally have "cut_at (?q @ [?x]) (work_body b tip height) = Some (w1 @ ?x # take (length w2 - length ?q) w2, ?tail)" .
  moreover have "atoll ?tail = int (unat (h_bits (hdr b)))"
    using unat_bound [of "h_bits (hdr b)"] by (intro atoll_dec_now) (simp_all add: is_digit_def less_eq_char_def)
  ultimately show ?thesis by (simp add: extract_json_int_def)
qed

lemma offered_fields:
  assumes "ts = coinbase_tx (params a) (miner_addr a) (next_height (chain a)) #
      collect (ecng E) (pool a) (cstate (chain a)) (params a) (next_height (chain a)) 1000"
  shows "offered E tm a = \<lparr>hdr = \<lparr>h_version = CL_VERSION, h_net_id = p_net_id (params a), h_prev = tip_hash (chain a),
    h_merkle = merkle_root (map txid ts), h_height = next_height (chain a), h_time = now_s_at tm 0,
    h_bits = p_bits (params a), h_nonce = 0\<rparr>, txs = ts\<rparr>"
  using candidate_fields [OF assms, of "now_s_at tm 0"] by (simp add: offered_def next_height_def)

lemma offered_template:
  assumes "core_ok (ecng E) a"
  shows "template_ok (ecng E) (chain a) (txs (offered E tm a))" "header_ok (hdr (offered E tm a))"
proof -
  have to: "length (miner_addr a) = 20" using assms by (simp add: core_ok_def)
  note t = core_template [OF assms to]
  show "template_ok (ecng E) (chain a) (txs (offered E tm a))"
    using t by (simp add: offered_fields [OF refl])
  show "header_ok (hdr (offered E tm a))"
    using candidate_arrays [OF assms t] by (simp add: offered_def next_height_def block_arrays_def)
qed

lemma length_work_body:
  assumes "core_ok (ecng E) a"
  shows "length (work_body (offered E tm a) (tip_hash (chain a)) (next_height (chain a))) \<le> 4095"
proof -
  let ?b = "offered E tm a" and ?h = "next_height (chain a)"
  have "length (tip_hash (chain a)) = 32"
    using assms chain_ok_tip [of "ecng E" "chain a"] by (simp add: core_ok_def)
  moreover have "length (header_serialize (hdr ?b)) = 100"
    using length_header_serialize [OF offered_template(2) [OF assms]] by (simp add: HEADER_SIZE_def)
  moreover have "length (dec (length (txs ?b))) \<le> 4"
    using offered_template(1) [OF assms, of tm] length_dec [of "length (txs ?b)" 3] by (simp add: template_ok_def)
  ultimately show ?thesis
    using length_dec_u32 [of "h_bits (hdr ?b)"] length_dec_u64 [of ?h] by (simp add: work_body_def)
qed

lemma rpc_work_body:
  assumes "core_ok (ecng E) a" "req_query r = []"
  shows "rpc_work E tm r a = (json200 (work_body (offered E tm a) (tip_hash (chain a)) (next_height (chain a))),
    a\<lparr>work_cache := smap_put (h_merkle (hdr (offered E tm a))) (txs (offered E tm a)) (if length (work_cache a) > 64 then [] else work_cache a)\<rparr>)"
  unfolding rpc_work_def using assms(2) strf_short [OF length_work_body [OF assms(1), of tm]]
  by (simp add: Let_def offered_def [symmetric] next_height_def work_body_def)

text \<open>Submitting the offered header with a nonce that solves it, on the same tip.\<close>

lemma submitwork_accepted:
  assumes a: "core_ok (ecng E) a" and ts: "smap_find (work_cache a) (merkle_root (map txid ts)) = Some ts"
    and t: "template_ok (ecng E) (chain a) ts" and m: "mintable (chain a)"
    and h: "header_ok h" "h_version h = CL_VERSION" "h_net_id h = p_net_id (params a)" "h_height h = next_height (chain a)"
      "h_prev h = tip_hash (chain a)" "h_bits h = p_bits (params a)" "h_merkle h = merkle_root (map txid ts)"
    and pow: "pow_ok (header_hash h) (p_bits (params a))" and clk: "h_time h \<le> now_s_at tm 0 + MAX_TIME_SKEW_S"
    and r: "req_body r = hexs (header_serialize h)"
  shows "resp_code (fst (rpc_submitwork E tm r a)) = 200 \<and> length (resp_body (fst (rpc_submitwork E tm r a))) \<le> 4095 \<and>
    blocks (chain (snd (rpc_submitwork E tm r a))) = blocks (chain a) @ [\<lparr>hdr = h, txs = ts\<rparr>]"
proof -
  have ch: "chain_ok (ecng E) (chain a)" "blocks (chain a) \<noteq> []" "cparams (chain a) = params a"
    using a by (simp_all add: core_ok_def)
  have acc: "accepts E (now_s_at tm 0) (chain a) \<lparr>hdr = h, txs = ts\<rparr>"
    using template_accepted [OF ch(1,2) t m] h pow clk ch(3) by simp
  have parse: "header_parse (mk_reader (header_serialize h)) = Inr (h, rat (header_serialize h) [])"
    using hdrc.rd_enc_end [OF h(1), of "[]"] by (simp add: mk_reader_rat)
  show ?thesis
    using connect_block_ok [OF ch(1) acc] ts h(7) length_header_serialize [OF h(1)] parse
    by (simp add: rpc_submitwork_def r Let_def json200_def chain_simps strf_def)
qed

subsection \<open>A block mined by the GPU\<close>

lemma plain_work: "plain_target ''GET''" "plain_target ''POST''" "plain_target ''/work''" "plain_target ''/submitwork''"
  by (simp_all add: plain_target_def)

lemma no_query: "target_path ''/work'' = ''/work''" "target_query ''/work'' = []"
  "target_path ''/submitwork'' = ''/submitwork''" "target_query ''/submitwork'' = []"
  by (simp_all add: target_path_def target_query_def starts_with_def)

text \<open>A character that occurs in a pattern at one place only, and not before it: the pattern is where the character is.\<close>

lemma cut_at_mark:
  assumes "x \<notin> set (pre @ u)"
  shows "cut_at (u @ x # v) (pre @ (u @ x # v) @ s) = Some (pre, s)"
  using assms
proof (induction pre)
  case Nil
  then show ?case using cut_at_here [of "u @ x # v" s] by simp
next
  case (Cons c pre)
  have "\<not> starts_with (u @ x # v) (c # pre @ (u @ x # v) @ s)"
  proof
    assume "starts_with (u @ x # v) (c # pre @ (u @ x # v) @ s)"
    then have "u @ x # v = take (length (u @ x # v)) (c # pre @ (u @ x # v) @ s)" by (simp only: starts_with_def)
    then have "(u @ x # v) ! length u = (c # pre @ (u @ x # v) @ s) ! length u" by (metis length_append length_Cons less_add_Suc1 nth_take add_Suc_right)
    then have "((c # pre @ u) @ x # v @ s) ! length u = x" by simp
    moreover have "((c # pre @ u) @ x # v @ s) ! length u = (c # pre @ u) ! length u" by (rule nth_append_left) simp
    ultimately have "x \<in> set (c # pre @ u)" by (metis length_append length_Cons less_add_Suc2 nth_mem add_Suc)
    then show False using Cons.prems by simp
  qed
  then show ?case using Cons by simp
qed

lemma work_tip: "extract_json_str (work_body b tip height) ''tip'' = hexs tip"
proof -
  let ?pre = "''{\"header\":\"'' @ hexs (header_serialize (hdr b)) @ ''\",\"bits\":'' @ dec (unat (h_bits (hdr b))) @ '',\"height\":'' @ dec (unat height) @ '',''"
  have "CHR ''p'' \<notin> set (dec n)" for n by (rule dec_no_char) (simp add: is_digit_def less_eq_char_def)
  moreover have "CHR ''p'' \<notin> set (hexs x)" for x using hexs_chars [of "CHR ''p''" x] by (auto simp: hexdigits_def)
  ultimately have "CHR ''p'' \<notin> set (?pre @ quote @ ''ti'')" by (simp add: quote_def)
  from cut_at_mark [OF this, of "quote @ '':'' @ quote" "hexs tip @ quote @ drop 1 (''\",\"ntx\":'' @ dec (length (txs b)) @ ''}'')"]
  have "cut_at (quote @ ''tip'' @ quote @ '':'' @ quote) (work_body b tip height) =
      Some (?pre, hexs tip @ quote @ drop 1 (''\",\"ntx\":'' @ dec (length (txs b)) @ ''}''))"
    by (simp add: quote_def work_body_def)
  then show ?thesis
    using cut_at_first [of quote "hexs tip"] quote_not_hex by (simp add: extract_json_str_def quote_def)
qed

lemma gpu_fetch_node:
  assumes a: "core_ok (ecng E) a" "0 < p_bits (params a)" and net: "splits up" "splits down" "plain_host host" "length host \<le> 100"
    and http: "http = http_call (node_wire E tm read_file viewer_html up down a)"
  shows "gpu_fetch http host port [] = Some \<lparr>gw_hdr = header_serialize (hdr (offered E tm a)),
    gw_bits = int (unat (p_bits (params a))), gw_tip = hexs (tip_hash (chain a))\<rparr>"
proof -
  let ?req = "call_req ''GET'' ''/work'' []" and ?body = "work_body (offered E tm a) (tip_hash (chain a)) (next_height (chain a))"
  have "req_query ?req = []" by (simp add: call_req_def no_query)
  note work = rpc_work_body [OF a(1) this]
  have resp: "fst (handle_rpc E tm read_file viewer_html ?req a) = json200 ?body"
    using work by (simp add: handle_rpc_def call_req_def no_query)
  have hd: "header_ok (hdr (offered E tm a))" by (rule offered_template(2) [OF a(1)])
  have len: "length ?body \<le> 4095"
    by (rule length_work_body [OF a(1)])
  have call: "http host port ''GET'' ''/work'' [] = (200, ?body)"
    unfolding http using client_call [OF plain_work(1,3) net(3) _ _ net(1,2) resp [symmetric]] net(4) len by (simp add: json200_def)
  have bits: "h_bits (hdr (offered E tm a)) = p_bits (params a)" by (simp add: offered_fields [OF refl])
  have "uint (p_bits (params a)) \<noteq> 0" using a(2) by (simp add: unsigned_eq_0_iff word_gt_0)
  then show ?thesis
    using call length_header_serialize [OF hd] by (simp add: gpu_fetch_def Let_def work_header work_bits work_tip bits HEADER_SIZE_def)
qed

text \<open>The node holds the template right after it has offered it.\<close>

lemma work_held:
  assumes "core_ok (ecng E) a" and a1: "a1 = snd (handle_rpc E tm read_file viewer_html (call_req ''GET'' ''/work'' []) a)"
  shows "smap_find (work_cache a1) (h_merkle (hdr (offered E tm a))) = Some (txs (offered E tm a)) \<and> chain a1 = chain a"
proof -
  have "req_query (call_req ''GET'' ''/work'' []) = []" by (simp add: call_req_def no_query)
  from rpc_work_body [OF assms(1) this, of tm] show ?thesis
    using assms(1) by (simp add: a1 handle_rpc_def call_req_def no_query smap_find_put core_ok_def cache_ok_def)
qed

text \<open>
  Submitting a header the node offered, with a nonce that solves it: the node looks up the transactions under the Merkle root.  Any
  it holds make a block it accepts on the same tip; if it holds none, it answers 400.
\<close>

lemma submit_held:
  assumes a: "core_ok (ecng E) a" "core_ok (ecng E) a'" "mintable (chain a)" "chain a' = chain a"
    and h: "h = with_nonce (hdr (offered E tm a)) nc" "pow_ok (header_hash h) (p_bits (params a))"
    and ts: "smap_find (work_cache a') (h_merkle h) = Some ts" and clk: "now_s_at tm 0 \<le> now_s_at tm' 0 + MAX_TIME_SKEW_S"
    and r: "req_body r = hexs (header_serialize h)"
  shows "resp_code (fst (rpc_submitwork E tm' r a')) = 200 \<and> length (resp_body (fst (rpc_submitwork E tm' r a'))) \<le> 4095 \<and>
    blocks (chain (snd (rpc_submitwork E tm' r a'))) = blocks (chain a) @ [\<lparr>hdr = h, txs = ts\<rparr>]"
proof -
  have "(h_merkle h, ts) \<in> set (work_cache a')"
    using ts a(2) smap_find_mem [of "work_cache a'" "h_merkle h" ts] by (simp add: core_ok_def cache_ok_def)
  then have t: "h_merkle h = merkle_root (map txid ts)" "template_ok (ecng E) (chain a') ts"
    using a(2) by (auto simp: core_ok_def cache_ok_def)
  have same: "params a' = params a" using a by (simp add: core_ok_def)
  have hd: "header_ok h" "h_version h = CL_VERSION" "h_net_id h = p_net_id (params a')" "h_height h = next_height (chain a')"
      "h_prev h = tip_hash (chain a')" "h_bits h = p_bits (params a')" "h_time h = now_s_at tm 0"
    unfolding h(1) using offered_template(2) [OF a(1), of tm] by simp (simp_all add: with_nonce_def same a(4) offered_fields [OF refl])
  show ?thesis
    using submitwork_accepted [OF a(2) ts [unfolded t(1)] t(2) _ hd(1-6) t(1) _ _ r, of tm'] a(3) h(2) clk by (simp add: same a(4) hd(7))
qed

lemma submit_unknown:
  assumes h: "header_ok h" and ts: "smap_find (work_cache a') (h_merkle h) = None" and r: "req_body r = hexs (header_serialize h)"
  shows "resp_code (fst (rpc_submitwork E tm' r a')) = 400 \<and> length (resp_body (fst (rpc_submitwork E tm' r a'))) \<le> 4095 \<and>
    chain (snd (rpc_submitwork E tm' r a')) = chain a'"
proof -
  have parse: "header_parse (mk_reader (header_serialize h)) = Inr (h, rat (header_serialize h) [])"
    using hdrc.rd_enc_end [OF h, of "[]"] by (simp add: mk_reader_rat)
  show ?thesis using ts length_header_serialize [OF h] parse by (simp add: rpc_submitwork_def r Let_def err400_def)
qed

text \<open>One turn of the miner against a node: \<open>a\<close> is the node's state when it offers the work, \<open>a'\<close> when it receives the solution.\<close>

lemma gpu_turn_outcome:
  assumes a: "app_ok (ecng E) a" "app_ok (ecng E) a'" "0 < p_bits (params a)" "unat (p_bits (params a)) < 2 ^ 31"
    and net: "splits up" "splits down" "splits up'" "splits down'" "plain_host host" "length host \<le> 100"
    and http: "http_at 0 = http_call (node_wire E tm read_file viewer_html up down a)"
      "http_at 1 = http_call (node_wire E tm' read_file viewer_html up' down' a')"
    and kernel: "\<forall>w b. kernel_outcome (gw_hdr w) (of_int (gw_bits w)) stride per_thread b (launch w b)"
  shows "case gpu_turn http_at host port [] launch (stride * per_thread) base of
      None \<Rightarrow> (\<exists>k < 64. tip_moved (http_at (k + 2)) host port (hexs (tip_hash (chain a))) k) \<or>
        (\<forall>i < 64 * (stride * per_thread). \<not> pow_ok (header_hash (with_nonce (hdr (offered E tm a)) (base + of_nat i))) (p_bits (params a)))
    | Some (code, resp) \<Rightarrow> \<exists>nc h a2. h = with_nonce (hdr (offered E tm a)) nc \<and> pow_ok (header_hash h) (p_bits (params a)) \<and>
        a2 = snd (handle_rpc E tm' read_file viewer_html (call_req ''POST'' ''/submitwork'' (hexs (header_serialize h))) a') \<and>
        (case smap_find (work_cache a') (h_merkle h) of
           None \<Rightarrow> code = 400 \<and> chain a2 = chain a'
         | Some ts \<Rightarrow> chain a' = chain a \<and> mintable (chain a) \<and> now_s_at tm 0 \<le> now_s_at tm' 0 + MAX_TIME_SKEW_S \<longrightarrow>
             code = 200 \<and> blocks (chain a2) = blocks (chain a) @ [\<lparr>hdr = h, txs = ts\<rparr>])"
proof -
  let ?h = "hdr (offered E tm a)" and ?bits = "p_bits (params a)"
  have core: "core_ok (ecng E) a" "core_ok (ecng E) a'" using a(1,2) by (simp_all add: app_ok_def)
  define w where "w = \<lparr>gw_hdr = header_serialize ?h, gw_bits = int (unat ?bits), gw_tip = hexs (tip_hash (chain a))\<rparr>"
  note fetch = gpu_fetch_node [OF core(1) a(3) net(1,2,5,6) http(1), folded w_def]
  have hd: "header_ok ?h" by (rule offered_template(2) [OF core(1)])
  have len: "length (header_serialize ?h) = 100" using length_header_serialize [OF hd] by (simp add: HEADER_SIZE_def)
  have hit: "dev_hit (header_serialize ?h) ?bits nc \<longleftrightarrow> pow_ok (header_hash (with_nonce ?h nc)) ?bits" for nc
    using dev_hit_iff [OF len a(4)] patch_try [OF hd] by (simp add: solves_def)
  have kw: "\<forall>b. kernel_outcome (header_serialize ?h) ?bits stride per_thread b (launch w b)"
    using spec [OF kernel, of w] by (simp add: w_def)
  let ?rounds = "gpu_rounds (launch w) (\<lambda>k. tip_moved (http_at (k + 2)) host port (gw_tip w) k) (stride * per_thread) 0 base"
  have turn: "gpu_turn http_at host port [] launch (stride * per_thread) base = map_option (gpu_submit (http_at 1) host port w) ?rounds"
    unfolding gpu_turn_def fetch by (simp split: option.split)
  show ?thesis
  proof (cases ?rounds)
    case None
    have "\<not> pow_ok (header_hash (with_nonce ?h (base + of_nat i))) ?bits"
      if "\<forall>k < 64. \<not> tip_moved (http_at (k + 2)) host port (hexs (tip_hash (chain a))) k" "i < 64 * (stride * per_thread)" for i
      using gpu_rounds_exhausts [OF kw _ refl None, of i] that hit by (simp add: w_def)
    with None show ?thesis unfolding turn by auto
  next
    case (Some nc)
    define h where "h = with_nonce ?h nc"
    let ?req = "call_req ''POST'' ''/submitwork'' (hexs (header_serialize h))"
    have pow: "pow_ok (header_hash h) ?bits" using gpu_rounds_hit [OF kw Some] by (simp add: hit h_def)
    have hok: "header_ok h" using hd by (simp add: h_def)
    have body: "req_body ?req = hexs (header_serialize h)" by (simp add: call_req_def)
    have rpc: "handle_rpc E tm' read_file viewer_html ?req a' = rpc_submitwork E tm' ?req a'"
      by (simp add: handle_rpc_def call_req_def no_query)
    define resp where "resp = fst (rpc_submitwork E tm' ?req a')"
    have call: "gpu_submit (http_at 1) host port w nc = (resp_code resp, resp_body resp)" if "length (resp_body resp) \<le> 4095"
    proof -
      have raw: "dev_patch (gw_hdr w) nc = header_serialize h" using hd by (simp add: w_def dev_patch_eq patch_try h_def)
      have "length (hexs (header_serialize h)) \<le> 4 * 1024 * 1024" using length_header_serialize [OF hok] by (simp add: HEADER_SIZE_def)
      from client_call [OF plain_work(2,4) net(5) _ this net(3,4), of resp E tm' read_file viewer_html a' port] that net(6)
      show ?thesis unfolding gpu_submit_def http(2) raw by (simp add: resp_def rpc)
    qed
    have out: "case smap_find (work_cache a') (h_merkle h) of
           None \<Rightarrow> fst (gpu_submit (http_at 1) host port w nc) = 400 \<and> chain (snd (rpc_submitwork E tm' ?req a')) = chain a'
         | Some ts \<Rightarrow> chain a' = chain a \<and> mintable (chain a) \<and> now_s_at tm 0 \<le> now_s_at tm' 0 + MAX_TIME_SKEW_S \<longrightarrow>
             fst (gpu_submit (http_at 1) host port w nc) = 200 \<and> blocks (chain (snd (rpc_submitwork E tm' ?req a'))) = blocks (chain a) @ [\<lparr>hdr = h, txs = ts\<rparr>]"
    proof (cases "smap_find (work_cache a') (h_merkle h)")
      case None
      then show ?thesis using submit_unknown [OF hok None body, of E tm'] call by (simp add: resp_def)
    next
      case (Some ts)
      then show ?thesis using submit_held [OF core _ _ h_def pow Some _ body, of tm'] call by (auto simp: resp_def)
    qed
    obtain code rp where gs: "gpu_submit (http_at 1) host port w nc = (code, rp)" by fastforce
    show ?thesis
      unfolding turn Some option.map option.case gs prod.case
      by (intro exI [of _ nc] exI [of _ h] exI [of _ "snd (handle_rpc E tm' read_file viewer_html ?req a')"] conjI)
        (use out pow in \<open>simp_all only: gs fst_conv rpc h_def [symmetric]\<close>)
  qed
qed

text \<open>Every launch has an outcome: the threads can be run to their end.\<close>

lemma kernel_has_outcome: "\<exists>r. kernel_outcome raw bits stride per_thread base r"
proof -
  have run: "\<exists>s'. (gpu_step raw bits base stride per_thread)\<^sup>*\<^sup>* s s' \<and> (\<forall>t. g_thread s' t = Returned)"
    if "covered raw bits base stride per_thread s" for s
    using that
  proof (induction "gpu_rank stride per_thread s" arbitrary: s rule: less_induct)
    case less
    show ?case
    proof (cases "\<forall>t. g_thread s t = Returned")
      case False
      then obtain s1 where st: "gpu_step raw bits base stride per_thread s s1" using gpu_progress by blast
      then show ?thesis
        using less.hyps [OF gpu_rank_step [OF st less.prems] covered_step [OF st less.prems]] by (meson converse_rtranclp_into_rtranclp)
    qed auto
  qed
  define s where "s = \<lparr>g_flag = False, g_found = 0, g_thread = (\<lambda>t. if t < stride then AtFlag 0 else Returned)\<rparr>"
  have st: "gpu_start stride s" by (simp add: s_def gpu_start_def)
  from run [OF covered_start [OF st]] show ?thesis using st unfolding kernel_outcome_def by blast
qed

lemma launches_exist: "\<exists>f. \<forall>(w :: gpu_work) b. kernel_outcome (gw_hdr w) (of_int (gw_bits w)) stride per_thread b (f w b)"
  by (rule exI [of _ "\<lambda>w b. SOME r. kernel_outcome (gw_hdr w) (of_int (gw_bits w)) stride per_thread b r"])
    (intro allI, rule someI_ex [OF kernel_has_outcome])

end
