(* ===== verification/Sync.thy ===== *)
theory Sync
  imports NodeInv
begin

text \<open>
  Two nodes over one link: the loop of \<^verbatim>\<open>net.h\<close> (select, recv, parse_frames, send) and the event
  handlers of \<^verbatim>\<open>node_impl.h\<close> composed on both ends, byte for byte. A node \<open>a\<close> with more work announces
  its tip; the other node \<open>b\<close> asks for blocks, 200 at a time, first to extend its own chain and, where
  the first block does not connect, from genesis on to replace it. The definitions here add no code:
  \<open>carry\<close> moves the bytes one node has queued for the other, in any pieces, through \<^const>\<open>net_turn\<close> on
  both sides, and \<open>sync_round\<close> is a request and its reply. The lemmas show that the exchange makes
  progress in every round and ends with \<open>b\<close> on the chain of \<open>a\<close>.
\<close>

section \<open>One active socket\<close>

definition quiet :: sock_io where
  "quiet = \<lparr>sk_rf = False, sk_wf = False, sk_ef = False, sk_err = False, sk_recv = [], sk_send = SendWouldBlock\<rparr>"

definition turn_io :: "int \<Rightarrow> sock_io \<Rightarrow> p2p \<Rightarrow> net_io" where
  "turn_io i io n = \<lparr>io_now = last_reconnect n, io_dial = (\<lambda>_. ConnectFailed), io_rc = True, io_accept = [],
     io_sock = (\<lambda>k. if k = i then io else quiet)\<rparr>"

text \<open>The peer \<open>i\<close> is connected and idle but for \<open>out\<close> queued to it; dead peers have been reaped.\<close>

definition linked :: "int \<Rightarrow> p2p \<Rightarrow> bytes \<Rightarrow> bool" where
  "linked i n out \<longleftrightarrow> smap_ok (peers n) \<and> (\<forall>(k, q) \<in> set (peers n). \<not> dead q) \<and>
     (case smap_find (peers n) i of None \<Rightarrow> False
      | Some p \<Rightarrow> ready p \<and> \<not> connecting p \<and> inbuf p = [] \<and> outbuf p = out)"

lemma linkedE:
  assumes "linked i n out"
  obtains p where "smap_find (peers n) i = Some p" "ready p" "\<not> dead p" "\<not> connecting p" "inbuf p = []" "outbuf p = out"
    "smap_ok (peers n)" "\<forall>(k, q) \<in> set (peers n). \<not> dead q"
  using assms smap_find_mem [of "peers n" i] unfolding linked_def by (fastforce split: option.splits)

lemma linked_pos: "linked i n out \<Longrightarrow> net_ok n \<Longrightarrow> 0 < i"
  by (fastforce simp: net_ok_def smap_find_mem elim: linkedE)

lemma serve_quiet [simp]: "serve_peer nid port quiet i p evs = (p, evs)"
  by (simp add: serve_peer_def quiet_def)

lemma serve_none: "i \<notin> fst ` set ps \<Longrightarrow> serve_peers nid port (\<lambda>k. if k = i then io else quiet) ps evs = (ps, evs)"
  by (induction ps) auto

lemma smap_put_head:
  assumes "smap_ok ((i, p) # ps)"
  shows "smap_put i q ((i, p) # ps) = (i, q) # ps"
  using assms by (cases ps) (auto simp: smap_put_def smap_ok_def dropWhile_eq_self_iff)

lemma smap_put_tail: "smap_ok ((k, p) # ps) \<Longrightarrow> k < i \<Longrightarrow> smap_put i q ((k, p) # ps) = (k, p) # smap_put i q ps"
  by (simp add: smap_put_def)

lemma serve_one:
  "smap_ok ps \<Longrightarrow> smap_find ps i = Some p \<Longrightarrow> serve_peer nid port io i p evs = (p', evs') \<Longrightarrow>
     serve_peers nid port (\<lambda>k. if k = i then io else quiet) ps evs = (smap_put i p' ps, evs')"
proof (induction ps)
  case (Cons e ps)
  obtain k q where e: "e = (k, q)" by (cases e)
  show ?case
  proof (cases "k = i")
    case True
    with Cons.prems e have "q = p" "i \<notin> fst ` set ps"
      by (auto simp: smap_find_def smap_ok_def)
    then show ?thesis
      using Cons.prems e True by (simp add: serve_none smap_put_head)
  next
    case False
    with Cons.prems e have "smap_find ps i = Some p" "smap_ok ps" by (simp_all add: smap_find_def smap_ok_def)
    moreover from this Cons.prems(1) e have "k < i"
      by (auto simp: smap_find_mem smap_ok_def)
    ultimately show ?thesis
      using Cons e False by (simp add: smap_put_tail)
  qed
qed simp

lemma reap_alive: "\<forall>(k, q) \<in> set ps. \<not> dead q \<Longrightarrow> reap ps evs = (ps, evs)"
  by (induction ps) auto

lemma turn_one:
  assumes "linked i n out" "smap_find (peers n) i = Some p"
    and "serve_peer (net_id n) (listen_port n) io i p [] = (p', evs)" "\<not> dead p'"
  shows "net_turn (turn_io i io n) n = (n\<lparr>peers := smap_put i p' (peers n)\<rparr>, evs)"
proof -
  have ok: "smap_ok (peers n)" "\<forall>(k, q) \<in> set (peers n). \<not> dead q"
    using assms(1) by (simp_all add: linked_def)
  have "\<forall>(k, q) \<in> set (smap_put i p' (peers n)). \<not> dead q"
    using ok assms(4) by (auto simp: set_smap_put)
  then show ?thesis
    using serve_one [OF ok(1) assms(2,3)] by (simp add: net_turn_def turn_io_def reap_alive)
qed

lemma linked_put:
  assumes "linked i n out" "ready p" "\<not> dead p" "\<not> connecting p" "inbuf p = []" "outbuf p = out'"
  shows "linked i (n\<lparr>peers := smap_put i p (peers n)\<rparr>) out'"
  using assms by (auto simp: linked_def smap_find_put set_smap_put smap_ok_put)

lemma net_ok_put:
  assumes "net_ok n" "smap_find (peers n) i = Some p"
  shows "net_ok (n\<lparr>peers := smap_put i p' (peers n)\<rparr>)"
proof -
  have "smap_ok (peers n)" "(i, p) \<in> set (peers n)"
    using assms by (auto simp: net_ok_def smap_find_mem)
  then show ?thesis
    by (intro net_ok_peers [OF assms(1)]) (force simp: set_smap_put smap_ok_put)+
qed

section \<open>Bytes from one node to the other\<close>

definition write_turn :: "nat \<Rightarrow> sock_io" where
  "write_turn k = quiet\<lparr>sk_wf := True, sk_send := Sent k\<rparr>"

definition queued :: "int \<Rightarrow> p2p \<Rightarrow> bytes" where
  "queued i n = (case smap_find (peers n) i of None \<Rightarrow> [] | Some p \<Rightarrow> outbuf p)"

text \<open>A turn of the loop in which the kernel takes everything queued to peer \<open>i\<close>, and a turn in which it
  hands over the pieces \<open>bufs\<close> from peer \<open>i\<close>, with the events handled after it.\<close>

definition flush :: "('k, 'd) ext \<Rightarrow> times \<Rightarrow> int \<Rightarrow> 'd app \<Rightarrow> 'd app" where
  "flush E tm i a =
     (case net_turn (turn_io i (write_turn (length (queued i (p2p a)))) (p2p a)) (p2p a) of
        (n, evs) \<Rightarrow> fold (on_event E tm) evs (a\<lparr>p2p := n\<rparr>))"

definition receive :: "('k, 'd) ext \<Rightarrow> times \<Rightarrow> int \<Rightarrow> bytes list \<Rightarrow> 'd app \<Rightarrow> 'd app" where
  "receive E tm i bufs a =
     (case net_turn (turn_io i (read_turn bufs) (p2p a)) (p2p a) of
        (n, evs) \<Rightarrow> fold (on_event E tm) evs (a\<lparr>p2p := n\<rparr>))"

text \<open>\<open>carry E tm seg j i a b\<close>: what \<open>a\<close> has queued for its peer \<open>j\<close> arrives at \<open>b\<close> from its peer \<open>i\<close>.\<close>

definition carry :: "('k, 'd) ext \<Rightarrow> times \<Rightarrow> (bytes \<Rightarrow> bytes list) \<Rightarrow> int \<Rightarrow> int \<Rightarrow> 'd app \<Rightarrow> 'd app \<Rightarrow> 'd app \<times> 'd app" where
  "carry E tm seg j i a b = (flush E tm j a, receive E tm i (seg (queued j (p2p a))) b)"

definition sync_round :: "('k, 'd) ext \<Rightarrow> times \<Rightarrow> (bytes \<Rightarrow> bytes list) \<Rightarrow> int \<Rightarrow> int \<Rightarrow> 'd app \<times> 'd app \<Rightarrow> 'd app \<times> 'd app" where
  "sync_round E tm seg j i = (\<lambda>(a, b). case carry E tm seg i j b a of (b, a) \<Rightarrow> carry E tm seg j i a b)"

fun sync_rounds :: "('k, 'd) ext \<Rightarrow> (nat \<Rightarrow> times) \<Rightarrow> (bytes \<Rightarrow> bytes list) \<Rightarrow> int \<Rightarrow> int \<Rightarrow> nat \<Rightarrow> 'd app \<times> 'd app \<Rightarrow> 'd app \<times> 'd app" where
  "sync_rounds E tms seg j i 0 s = s"
| "sync_rounds E tms seg j i (Suc n) s = sync_round E (tms n) seg j i (sync_rounds E tms seg j i n s)"

definition sync_session :: "('k, 'd) ext \<Rightarrow> (nat \<Rightarrow> times) \<Rightarrow> (bytes \<Rightarrow> bytes list) \<Rightarrow> int \<Rightarrow> int \<Rightarrow> nat \<Rightarrow> 'd app \<Rightarrow> 'd app \<Rightarrow> 'd app \<times> 'd app" where
  "sync_session E tms seg j i n a b =
     sync_rounds E (\<lambda>k. tms (Suc k)) seg j i n (carry E (tms 0) seg j i (announce_tip (-1) a) b)"

definition pieces :: "(bytes \<Rightarrow> bytes list) \<Rightarrow> bool" where
  "pieces seg \<longleftrightarrow> (\<forall>bs. concat (seg bs) = bs)"

lemma queued_linked: "linked i n out \<Longrightarrow> queued i n = out"
  by (auto simp: queued_def elim: linkedE)

lemma flush_linked:
  assumes "linked i (p2p a) out"
  obtains n where "flush E tm i a = a\<lparr>p2p := n\<rparr>" "linked i n []" "\<And>k. peer_tip n k = peer_tip (p2p a) k" "net_ok (p2p a) \<Longrightarrow> net_ok n"
proof -
  from assms obtain p where p: "smap_find (peers (p2p a)) i = Some p" "ready p" "\<not> dead p" "\<not> connecting p"
      "inbuf p = []" "outbuf p = out" "smap_ok (peers (p2p a))"
    by (elim linkedE)
  let ?p = "p\<lparr>outbuf := []\<rparr>"
  have "serve_peer (net_id (p2p a)) (listen_port (p2p a)) (write_turn (length out)) i p [] = (?p, [])"
    using p by (simp add: serve_peer_def write_turn_def quiet_def send_out_def)
  from turn_one [OF assms p(1) this] p
  have "flush E tm i a = a\<lparr>p2p := (p2p a)\<lparr>peers := smap_put i ?p (peers (p2p a))\<rparr>\<rparr>"
    by (simp add: flush_def queued_def)
  moreover have "linked i ((p2p a)\<lparr>peers := smap_put i ?p (peers (p2p a))\<rparr>) []"
    using p by (intro linked_put [OF assms]) simp_all
  moreover have "peer_tip ((p2p a)\<lparr>peers := smap_put i ?p (peers (p2p a))\<rparr>) k = peer_tip (p2p a) k" for k
    using p by (simp add: peer_tip_def smap_find_put)
  moreover have "net_ok (p2p a) \<Longrightarrow> net_ok ((p2p a)\<lparr>peers := smap_put i ?p (peers (p2p a))\<rparr>)"
    using p by (intro net_ok_put)
  ultimately show ?thesis by (rule that)
qed

lemma parse_stream_alive:
  "list_all (\<lambda>(ty, payload). length payload \<le> MAX_FRAME) ms \<Longrightarrow> \<not> dead p \<Longrightarrow> inbuf p = [] \<Longrightarrow>
     run_frames nid port i ms p evs = (p', evs') \<Longrightarrow> \<not> dead p' \<Longrightarrow>
     parse_frames nid port i (p\<lparr>inbuf := stream ms\<rparr>) evs = (p', evs')"
proof (induction ms arbitrary: p evs)
  case Nil
  from Nil.prems(3) have "p\<lparr>inbuf := []\<rparr> = p" by (cases p) simp
  with Nil show ?case by (subst parse_frames.simps) (simp add: next_frame_def)
next
  case (Cons msg ms)
  obtain ty payload where m: "msg = (ty, payload)" by (cases msg)
  obtain go q evs1 where h: "handle_frame nid port i ty payload p evs = (go, q, evs1)"
    by (cases "handle_frame nid port i ty payload p evs")
  have q: "dead q \<longleftrightarrow> \<not> go" "inbuf q = []"
    using handle_frame_dead [OF h] handle_frame_inbuf [OF h] Cons.prems(2,3) by simp_all
  with Cons.prems h m have go: "go" "run_frames nid port i ms q evs1 = (p', evs')" by (auto split: if_splits)
  with Cons q m have "parse_frames nid port i (q\<lparr>inbuf := stream ms\<rparr>) evs1 = (p', evs')" by simp
  then show ?case
    using Cons.prems(1) m go(1) h
    by (subst parse_frames.simps) (simp add: next_frame_frame handle_frame_indep [of _ _ _ _ _ _ p])
qed

lemma receive_stream:
  assumes "linked i (p2p a) out" "concat bufs = stream ms" "list_all (\<lambda>(ty, payload). length payload \<le> MAX_FRAME) ms"
    and len: "length (stream ms) \<le> 16 * 1024 * 1024" and p: "smap_find (peers (p2p a)) i = Some p"
    and h: "run_frames (net_id (p2p a)) (listen_port (p2p a)) i ms p [] = (p', evs)" "\<not> dead p'"
  shows "receive E tm i bufs a = fold (on_event E tm) evs (a\<lparr>p2p := (p2p a)\<lparr>peers := smap_put i p' (peers (p2p a))\<rparr>\<rparr>)"
proof -
  have q: "\<not> dead p" "\<not> connecting p" "inbuf p = []"
    using assms(1) p by (auto elim: linkedE)
  have "serve_peer (net_id (p2p a)) (listen_port (p2p a)) (read_turn bufs) i p [] = (p', evs)"
    using serve_read_turn [OF q(2), of bufs] parse_stream_alive [OF assms(3) q(1,3) h] len assms(2) q
    by (simp add: feed_def)
  from turn_one [OF assms(1) p this h(2)] show ?thesis
    by (simp add: receive_def)
qed

lemma receive_frame:
  assumes "linked i (p2p a) out" "concat bufs = frame_into [] ty payload" "length payload \<le> MAX_FRAME"
    and p: "smap_find (peers (p2p a)) i = Some p"
    and h: "handle_frame (net_id (p2p a)) (listen_port (p2p a)) i ty payload p [] = (True, p', evs)"
  shows "receive E tm i bufs a = fold (on_event E tm) evs (a\<lparr>p2p := (p2p a)\<lparr>peers := smap_put i p' (peers (p2p a))\<rparr>\<rparr>)"
proof (rule receive_stream [OF assms(1) _ _ _ p, of bufs "[(ty, payload)]"])
  show "\<not> dead p'" using handle_frame_dead [OF h] assms(1) p by (auto elim: linkedE)
  show "length (stream [(ty, payload)]) \<le> 16 * 1024 * 1024" using assms(3) by (simp add: frame_into_eq MAX_FRAME_def)
qed (use assms in simp_all)

lemma receive_msg:
  assumes "linked i (p2p a) out" "concat bufs = frame_into [] ty payload" "length payload \<le> MAX_FRAME" "ty \<noteq> M_HELLO" "ty \<noteq> M_TIP"
  obtains n where "receive E tm i bufs a = on_msg E tm i ty payload (a\<lparr>p2p := n\<rparr>)" "linked i n out"
    "\<And>k. peer_tip n k = peer_tip (p2p a) k" "net_ok (p2p a) \<Longrightarrow> net_ok n"
proof -
  from assms(1) obtain p where p: "smap_find (peers (p2p a)) i = Some p" "ready p" "\<not> dead p" "\<not> connecting p"
      "inbuf p = []" "outbuf p = out" "smap_ok (peers (p2p a))"
    by (elim linkedE)
  let ?n = "(p2p a)\<lparr>peers := smap_put i p (peers (p2p a))\<rparr>"
  have "handle_frame (net_id (p2p a)) (listen_port (p2p a)) i ty payload p [] = (True, p, [EvMsg i ty payload])"
    using assms(4,5) by (simp add: handle_frame_def)
  from receive_frame [OF assms(1-3) p(1) this, of E tm]
  have "receive E tm i bufs a = on_msg E tm i ty payload (a\<lparr>p2p := ?n\<rparr>)" by simp
  moreover have "linked i ?n out" using p by (intro linked_put [OF assms(1)])
  moreover have "peer_tip ?n k = peer_tip (p2p a) k" for k using p by (simp add: peer_tip_def smap_find_put)
  moreover have "net_ok (p2p a) \<Longrightarrow> net_ok ?n" using p by (intro net_ok_put)
  ultimately show ?thesis by (rule that)
qed

section \<open>Messages queued to the peer\<close>

lemma linked_send:
  assumes "linked i n out"
  shows "linked i (send_to i ty payload n) (frame_into out ty payload)" "peer_tip (send_to i ty payload n) k = peer_tip n k"
proof -
  from assms obtain p where p: "smap_find (peers n) i = Some p" "ready p" "\<not> dead p" "\<not> connecting p"
      "inbuf p = []" "outbuf p = out" "smap_ok (peers n)"
    by (elim linkedE)
  then have eq: "send_to i ty payload n = n\<lparr>peers := smap_put i (p\<lparr>outbuf := frame_into out ty payload\<rparr>) (peers n)\<rparr>"
    by (simp add: send_to_def)
  show "linked i (send_to i ty payload n) (frame_into out ty payload)"
    unfolding eq using p by (intro linked_put [OF assms]) simp_all
  show "peer_tip (send_to i ty payload n) k = peer_tip n k"
    unfolding eq using p by (simp add: peer_tip_def smap_find_put)
qed

lemma smap_find_map: "smap_find (map (\<lambda>(k, q). (k, f k q)) m) i = map_option (f i) (smap_find m i)"
  by (induction m) (auto simp: smap_find_def)

lemma linked_broadcast:
  assumes "linked i n out" "i \<noteq> except"
  shows "linked i (broadcast ty payload except n) (frame_into out ty payload)"
proof -
  from assms(1) obtain p where p: "smap_find (peers n) i = Some p" "ready p" "\<not> dead p" "\<not> connecting p"
      "inbuf p = []" "outbuf p = out" "smap_ok (peers n)" "\<forall>(k, q) \<in> set (peers n). \<not> dead q"
    by (elim linkedE)
  define f where "f = (\<lambda>k (q :: peer). if ready q \<and> \<not> dead q \<and> k \<noteq> except then q\<lparr>outbuf := frame_into (outbuf q) ty payload\<rparr> else q)"
  have eq: "broadcast ty payload except n = n\<lparr>peers := map (\<lambda>(k, q). (k, f k q)) (peers n)\<rparr>"
    by (simp add: broadcast_def f_def)
  have "smap_ok (map (\<lambda>(k, q). (k, f k q)) (peers n))"
    using p(7) by (subst smap_ok_keys [of _ "peers n"]) auto
  then show ?thesis
    unfolding eq linked_def using p assms(2) by (auto simp: smap_find_map f_def split: if_splits)
qed

definition ask_blocks :: "u64 \<Rightarrow> bytes" where
  "ask_blocks start = w_u32 200 (w_u64 start [])"

lemma length_ask: "length (ask_blocks start) \<le> MAX_FRAME"
  by (simp add: ask_blocks_def MAX_FRAME_def wire_simps)

lemma on_get_blocks_ask:
  "on_get_blocks j (ask_blocks start) a =
     a\<lparr>p2p := send_to j M_BLOCKS (blocks_payload (take 200 (drop (unat start) (blocks (chain a))))) (p2p a)\<rparr>"
proof -
  have "ask_blocks start = w_u64 start [] @ w_u32 200 [] @ []"
    by (simp add: ask_blocks_def wire_simps)
  then have "res_bind (rd_u64 (mk_reader (ask_blocks start))) (\<lambda>(start, r). res_bind (rd_u32 r) (\<lambda>(cnt, r). Inr (start, cnt))) =
      (Inr (start, 200) :: read_error + _)"
    by (simp add: mk_reader_rat field_codecs del: append_Nil2)
  then show ?thesis by (simp add: on_get_blocks_def block_range_def)
qed

text \<open>The tip message of \<open>a\<close>, as its peer stores it.\<close>

lemma handle_tip_payload:
  assumes "length (tip_hash (chain a)) = 32"
  shows "handle_tip i (tip_payload a) p evs =
    (True, p\<lparr>tip_height := chain_height (chain a), tip_work := work (chain a), ptip_hash := tip_hash (chain a)\<rparr>,
     evs @ [EvMsg i M_TIP (tip_payload a)])"
proof -
  have eq: "tip_payload a = w_u64 (chain_height (chain a)) [] @ w_u64 (work (chain a)) [] @ w_arr (tip_hash (chain a)) [] @ []"
    by (simp add: tip_payload_def wire_simps)
  show ?thesis
    unfolding handle_tip_def eq using assms
    by (simp add: mk_reader_rat field_codecs Let_def del: append_Nil2)
qed

text \<open>One round: the request of \<open>b\<close> reaches \<open>a\<close>, the reply of \<open>a\<close> reaches \<open>b\<close>.\<close>

lemma sync_round_reply:
  assumes la: "linked j (p2p a) []" and lb: "linked i (p2p b) (frame_into [] M_GET_BLOCKS (ask_blocks start))"
    and seg: "pieces seg" and v: "v = take 200 (drop (unat start) (blocks (chain a)))" "length (blocks_payload v) \<le> MAX_FRAME"
    and nb: "net_ok (p2p b)"
  obtains na m where "sync_round E tm seg j i (a, b) = (a\<lparr>p2p := na\<rparr>, on_blocks E tm i (blocks_payload v) (b\<lparr>p2p := m\<rparr>))"
    "linked j na []" "linked i m []" "net_ok m" "\<And>k. peer_tip m k = peer_tip (p2p b) k"
proof -
  obtain m where m: "flush E tm i b = b\<lparr>p2p := m\<rparr>" "linked i m []" "\<And>k. peer_tip m k = peer_tip (p2p b) k" "net_ok m"
    using flush_linked [OF lb, of E tm] nb by metis
  have request: "concat (seg (queued i (p2p b))) = frame_into [] M_GET_BLOCKS (ask_blocks start)"
    using seg by (simp add: queued_linked [OF lb] pieces_def)
  obtain m' where m': "receive E tm j (seg (queued i (p2p b))) a = on_msg E tm j M_GET_BLOCKS (ask_blocks start) (a\<lparr>p2p := m'\<rparr>)"
      "linked j m' []"
    using receive_msg [OF la request length_ask, of E tm] by (auto simp: msg_defs)
  define a1 where "a1 = a\<lparr>p2p := send_to j M_BLOCKS (blocks_payload v) m'\<rparr>"
  have a1: "receive E tm j (seg (queued i (p2p b))) a = a1"
    by (simp add: m'(1) on_msg_def msg_defs on_get_blocks_ask a1_def v(1))
  have l1: "linked j (p2p a1) (frame_into [] M_BLOCKS (blocks_payload v))"
    by (simp add: a1_def linked_send [OF m'(2)])
  obtain na where na: "flush E tm j a1 = a1\<lparr>p2p := na\<rparr>" "linked j na []"
    using flush_linked [OF l1, of E tm] by metis
  have reply: "concat (seg (queued j (p2p a1))) = frame_into [] M_BLOCKS (blocks_payload v)"
    using seg by (simp add: queued_linked [OF l1] pieces_def)
  obtain n where n: "receive E tm i (seg (queued j (p2p a1))) (b\<lparr>p2p := m\<rparr>) = on_msg E tm i M_BLOCKS (blocks_payload v) (b\<lparr>p2p := n\<rparr>)"
      "linked i n []" "\<And>k. peer_tip n k = peer_tip m k" "net_ok m \<Longrightarrow> net_ok n"
    using receive_msg [of i "b\<lparr>p2p := m\<rparr>", OF _ reply v(2), of "[]" E tm] m(2) by (auto simp: msg_defs)
  have "sync_round E tm seg j i (a, b) = (a1\<lparr>p2p := na\<rparr>, on_blocks E tm i (blocks_payload v) (b\<lparr>p2p := n\<rparr>))"
    by (simp add: sync_round_def carry_def m(1) a1 na(1) n(1)) (simp add: on_msg_def msg_defs)
  with na(2) n m(3,4) show ?thesis
    by (intro that [of na n]) (simp_all add: a1_def)
qed

section \<open>The phases of a synchronisation\<close>

text \<open>What is known of the chain \<open>bs\<close> of the announcing node. The bound on a reply is the frame limit of the
  code; without it the reply would kill the link.\<close>

definition offered_chain :: "('k, 'd) ext \<Rightarrow> (nat \<Rightarrow> times) \<Rightarrow> params \<Rightarrow> block list \<Rightarrow> bool" where
  "offered_chain E tms p bs \<longleftrightarrow> bs \<noteq> [] \<and> length bs \<le> 500000 \<and> total_work p (length bs) < 2 ^ 64 \<and>
     (\<forall>k. acceptable E (tms k) p bs) \<and> (\<forall>k. length (blocks_payload (take 200 (drop k bs))) \<le> MAX_FRAME)"

definition waiting :: "'k cng \<Rightarrow> int \<Rightarrow> int \<Rightarrow> block list \<Rightarrow> nat \<Rightarrow> 'd app \<Rightarrow> 'd app \<Rightarrow> bool" where
  "waiting c j i bs start a b \<longleftrightarrow> app_ok c b \<and> blocks (chain a) = bs \<and> linked j (p2p a) [] \<and>
     linked i (p2p b) (frame_into [] M_GET_BLOCKS (ask_blocks (of_nat start))) \<and> sync_peer b = i \<and>
     (\<exists>hsh. peer_tip (p2p b) i = Some (h_height (hdr (last bs)), chain_work bs, hsh))"

definition extending :: "'k cng \<Rightarrow> int \<Rightarrow> int \<Rightarrow> params \<Rightarrow> block list \<Rightarrow> nat \<Rightarrow> 'd app \<times> 'd app \<Rightarrow> bool" where
  "extending c j i p bs n = (\<lambda>(a, b). waiting c j i bs n a b \<and> params b = p \<and> sync_mode b = 1 \<and>
     blocks (chain b) = take n bs \<and> n < length bs)"

definition loading :: "'k cng \<Rightarrow> int \<Rightarrow> int \<Rightarrow> params \<Rightarrow> block list \<Rightarrow> nat \<Rightarrow> 'd app \<times> 'd app \<Rightarrow> bool" where
  "loading c j i p bs n = (\<lambda>(a, b). waiting c j i bs n a b \<and> params b = p \<and> sync_mode b = 2 \<and>
     cand b = take n bs \<and> work (chain b) < chain_work bs \<and> n < length bs)"

definition synced :: "block list \<Rightarrow> 'd app \<times> 'd app \<Rightarrow> bool" where
  "synced bs = (\<lambda>(a, b). blocks (chain a) = bs \<and> blocks (chain b) = bs)"

lemma params_post_request [simp]:
  "params (reset_sync a) = params a" "params (announce_tip k a) = params a" "params (request_blocks ms k s a) = params a"
  "sync_peer (request_blocks ms k s a) = sync_peer a" "sync_mode (request_blocks ms k s a) = sync_mode a"
  "cand (request_blocks ms k s a) = cand a" "sync_peer (post_chain_change a) = sync_peer a"
  "sync_mode (post_chain_change a) = sync_mode a" "sync_extend_got (post_chain_change a) = sync_extend_got a"
  by (simp_all add: reset_sync_def announce_tip_def request_blocks_def post_chain_change_def)

lemma linked_request:
  assumes "linked i (p2p a) []"
  shows "linked i (p2p (request_blocks ms i s a)) (frame_into [] M_GET_BLOCKS (ask_blocks s))"
    "peer_tip (p2p (request_blocks ms i s a)) k = peer_tip (p2p a) k"
  using linked_send [OF assms] by (simp_all add: request_blocks_def ask_blocks_def)

lemma waiting_request:
  assumes "b = request_blocks ms i (of_nat n) b'" "app_ok c b" "linked i (p2p b') []" "sync_peer b' = i"
    and "peer_tip (p2p b') i = Some (h_height (hdr (last bs)), chain_work bs, hsh)" "blocks (chain a) = bs" "linked j (p2p a) []"
  shows "waiting c j i bs n a b"
  unfolding waiting_def using assms by (simp add: linked_request)

lemma prefix_work_less:
  assumes "valid_chain c p bs" "total_work p (length bs) < 2 ^ 64" "n < length bs"
  shows "chain_work (take n bs) < chain_work bs"
proof -
  have less: "total_work p n < total_work p (length bs)" using assms(3) by (simp add: total_work_less)
  then have "unat (chain_work (take n bs)) = total_work p n"
    using valid_chain_work [OF valid_chain_take [OF assms(1)], of n] assms by simp
  with less show ?thesis
    using valid_chain_work [OF assms(1,2)] by (simp add: word_less_nat_alt)
qed

lemma of_nat_u64_less: "m < n \<Longrightarrow> n < 2 ^ 64 \<Longrightarrow> (of_nat m :: u64) < of_nat n"
  by (simp add: word_less_nat_alt unat_of_nat take_bit_nat_eq_self)

lemma prefix_height:
  assumes "valid_chain c p bs" "inj_on sha256d (insert (genesis_msg p) (chain_msgs bs))" "0 < n" "n \<le> length bs"
  shows "h_height (hdr (last (take n bs))) = of_nat (n - 1)"
proof -
  obtain m where n: "n = Suc m" using assms(3) by (cases n) simp_all
  have "last (take n bs) = bs ! m"
    using assms(4) by (simp add: n take_Suc_conv_app_nth)
  then show ?thesis
    using valid_chain_heights [OF assms(1,2), of m] assms(4) by (simp add: n)
qed

lemma next_height_prefix:
  assumes "valid_chain c p bs" "inj_on sha256d (insert (genesis_msg p) (chain_msgs bs))" "0 < n" "n \<le> length bs"
    "blocks ch = take n bs"
  shows "chain_height ch + 1 = of_nat n"
  using prefix_height [OF assms(1-4)] assms(3-5) by (auto simp: chain_height_def gr0_conv_Suc)

text \<open>A round brings the next 200 blocks of \<open>bs\<close> to the handler of \<open>b\<close>.\<close>

lemma waiting_round:
  assumes s: "waiting (ecng E) j i bs n a b" and src: "offered_chain E tms p bs" and seg: "pieces seg"
    and v: "v = take 200 (drop n bs)" "n \<le> length bs"
  obtains na m where "sync_round E (tms k) seg j i (a, b) = (a\<lparr>p2p := na\<rparr>, handle_blocks E (tms k) i v (b\<lparr>p2p := m\<rparr>))"
    "linked j na []" "linked i m []" "peer_tip m i = peer_tip (p2p b) i"
    "app_ok (ecng E) (b\<lparr>p2p := m\<rparr>)" "app_ok (ecng E) (handle_blocks E (tms k) i v (b\<lparr>p2p := m\<rparr>))"
proof -
  have w: "app_ok (ecng E) b" "blocks (chain a) = bs" "linked j (p2p a) []" "sync_peer b = i"
      "linked i (p2p b) (frame_into [] M_GET_BLOCKS (ask_blocks (of_nat n)))" "net_ok (p2p b)"
    using s by (simp_all add: waiting_def app_ok_def)
  have bs: "length bs \<le> 500000" "acceptable E (tms k) p bs" "length (blocks_payload v) \<le> MAX_FRAME"
    using src by (simp_all add: offered_chain_def v(1))
  have v': "v = take 200 (drop (unat (of_nat n :: u64)) (blocks (chain a)))" "length v \<le> 500" "list_all block_ok v"
    using w(2) v bs(1) acceptable_blocks_ok [OF bs(2), of v]
    by (auto simp: unat_of_nat take_bit_nat_eq_self dest: in_set_takeD in_set_dropD)
  obtain na m where r: "sync_round E (tms k) seg j i (a, b) = (a\<lparr>p2p := na\<rparr>, on_blocks E (tms k) i (blocks_payload v) (b\<lparr>p2p := m\<rparr>))"
    and l: "linked j na []" "linked i m []" "net_ok m" "\<And>k. peer_tip m k = peer_tip (p2p b) k"
    using sync_round_reply [OF w(3,5) seg v'(1) bs(3) w(6), of E "tms k"] by metis
  have ok: "app_ok (ecng E) (b\<lparr>p2p := m\<rparr>)"
    using w(1) l(3) by (simp add: app_ok_def)
  then have "app_ok (ecng E) (on_blocks E (tms k) i (blocks_payload v) (b\<lparr>p2p := m\<rparr>))"
    using handled_on_blocks [of E "b\<lparr>p2p := m\<rparr>" "tms k" i "blocks_payload v"] by (simp add: handled_def)
  then show ?thesis
    using that [OF _ l(1,2)] l(4) ok r by (simp add: on_blocks_payload [OF v'(3,2)])
qed

lemma handle_blocks_mode:
  assumes "sync_peer b = i"
  shows "sync_mode b = 1 \<Longrightarrow>
      handle_blocks E tm i v b = sync_extend E tm i v (peer_tip (p2p b) i) (b\<lparr>sync_last_ms := now_ms_at tm 0\<rparr>)"
    "sync_mode b = 2 \<Longrightarrow>
      handle_blocks E tm i v b = sync_download E tm i v (peer_tip (p2p b) i) (b\<lparr>sync_last_ms := now_ms_at tm 0\<rparr>)"
  using assms by (simp_all add: handle_blocks_def Let_def)

text \<open>Mode 1: every reply moves the chain on.\<close>

lemma sync_extend_more:
  assumes "connect_all E (now_s_at tm) 0 v (chain a) = (None, okc, ch)" "0 < okc" "v \<noteq> []" "work ch < pw"
  shows "sync_extend E tm i v (Some (ph, pw, hsh)) a = request_blocks (now_ms_at tm 1) i (chain_height ch + 1)
    ((post_chain_change (a\<lparr>chain := ch\<rparr>))\<lparr>sync_extend_got := sync_extend_got a + of_nat okc\<rparr>)"
  using assms by (simp add: sync_extend_def Let_def not_le)

lemma extend_reply:
  assumes b: "app_ok (ecng E) b" "sync_peer b = i" "sync_mode b = 1" "blocks (chain b) = take n bs" "n < length bs"
    and tip: "peer_tip (p2p b) i = Some (ph, chain_work bs, hsh)"
    and bs: "total_work (params b) (length bs) < 2 ^ 64" "acceptable E tm (params b) bs"
      "inj_on sha256d (insert (genesis_msg (params b)) (chain_msgs bs))"
    and b': "b' = handle_blocks E tm i (take 200 (drop n bs)) b"
  shows "blocks (chain b') = take (n + 200) bs \<and> (n + 200 < length bs \<longrightarrow> params b' = params b \<and> sync_mode b' = 1 \<and>
    (\<exists>ms b2. b' = request_blocks ms i (of_nat (n + 200)) b2 \<and> p2p b2 = p2p b \<and> sync_peer b2 = i))"
proof -
  define v b1 where "v = take 200 (drop n bs)" and "b1 = b\<lparr>sync_last_ms := now_ms_at tm 0\<rparr>"
  have valid: "valid_chain (ecng E) (params b) bs" using bs(2) by (simp add: acceptable_def)
  have ch: "chain_ok (ecng E) (chain b1)" "blocks (chain b1) = take n bs" "cparams (chain b1) = params b" "0 < n"
    using b(1,4) by (auto simp: b1_def app_ok_def core_ok_def intro: gr0I)
  have step: "b' = sync_extend E tm i v (peer_tip (p2p b) i) b1"
    by (simp add: b' handle_blocks_mode(1) [OF b(2,3)] v_def b1_def)
  obtain err okc ch' where c: "connect_all E (now_s_at tm) 0 v (chain b1) = (err, okc, ch')"
    by (cases "connect_all E (now_s_at tm) 0 v (chain b1)")
  from extend_with_peer [OF ch(1-3) bs(2) ch(4) c v_def]
  have ch': "err = None" "okc = length v" "blocks ch' = take (n + 200) bs" "chain_ok (ecng E) ch'"
    by (simp_all add: v_def take_add)
  define b2 where "b2 = (post_chain_change (b1\<lparr>chain := ch'\<rparr>))\<lparr>sync_extend_got := sync_extend_got b1 + of_nat okc\<rparr>"
  have "b' = request_blocks (now_ms_at tm 1) i (of_nat (n + 200)) b2" if "n + 200 < length bs"
  proof -
    have v: "v \<noteq> []" using b(5) by (simp add: v_def)
    have "work ch' < chain_work bs"
      using ch'(3,4) prefix_work_less [OF valid bs(1) that] by (simp add: chain_ok_def)
    from sync_extend_more [OF c [unfolded ch'(1)] _ v this] v
      next_height_prefix [OF valid bs(3) _ _ ch'(3)] that
    show ?thesis by (simp add: step tip ch'(2) b2_def)
  qed
  moreover have "blocks (chain b') = take (n + 200) bs"
    using sync_extend_chain [OF c] ch'(3) by (simp add: step)
  moreover have "params b2 = params b" "sync_mode b2 = 1" "p2p b2 = p2p b" "sync_peer b2 = i"
    using b(2,3) by (simp_all add: b2_def b1_def)
  ultimately show ?thesis by auto
qed

lemma extending_round:
  assumes s: "extending (ecng E) j i p bs n s" and src: "offered_chain E tms p bs" and seg: "pieces seg"
    and inj: "inj_on sha256d (insert (genesis_msg p) (chain_msgs bs))"
  shows "synced bs (sync_round E (tms k) seg j i s) \<or>
    n + 200 < length bs \<and> extending (ecng E) j i p bs (n + 200) (sync_round E (tms k) seg j i s)"
proof -
  obtain a b where ab: "s = (a, b)" by (cases s)
  have w: "waiting (ecng E) j i bs n a b" "sync_mode b = 1" "params b = p" "blocks (chain b) = take n bs" "n < length bs"
      "blocks (chain a) = bs" "sync_peer b = i"
    using s by (simp_all add: ab extending_def waiting_def)
  obtain hsh where tip: "peer_tip (p2p b) i = Some (h_height (hdr (last bs)), chain_work bs, hsh)"
    using w(1) by (auto simp: waiting_def)
  obtain na m where r: "sync_round E (tms k) seg j i (a, b) = (a\<lparr>p2p := na\<rparr>, handle_blocks E (tms k) i (take 200 (drop n bs)) (b\<lparr>p2p := m\<rparr>))"
    and l: "linked j na []" "linked i m []" "peer_tip m i = peer_tip (p2p b) i" "app_ok (ecng E) (b\<lparr>p2p := m\<rparr>)"
      "app_ok (ecng E) (handle_blocks E (tms k) i (take 200 (drop n bs)) (b\<lparr>p2p := m\<rparr>))"
    using waiting_round [OF w(1) src seg refl less_imp_le [OF w(5)], of k] by metis
  have "total_work p (length bs) < 2 ^ 64" "acceptable E (tms k) p bs"
    using src by (simp_all add: offered_chain_def)
  with extend_reply [OF l(4), of i n bs "h_height (hdr (last bs))" hsh "tms k", OF _ _ _ _ _ _ _ _ refl] w tip l(3) inj
  have "blocks (chain (handle_blocks E (tms k) i (take 200 (drop n bs)) (b\<lparr>p2p := m\<rparr>))) = take (n + 200) bs"
    and "n + 200 < length bs \<Longrightarrow> extending (ecng E) j i p bs (n + 200) (sync_round E (tms k) seg j i s)"
    using w(6) l(1,2,5) by (auto simp: ab r extending_def intro: waiting_request)
  then show ?thesis
    using w(6) by (cases "n + 200 < length bs") (simp_all add: ab r synced_def)
qed

text \<open>Mode 2: the candidate grows until it is the chain of \<open>a\<close>, and then replaces the chain.\<close>

lemma load_reply:
  assumes b: "app_ok (ecng E) b" "sync_peer b = i" "sync_mode b = 2" "cand b = take n bs" "n < length bs" "work (chain b) < chain_work bs"
    and tip: "peer_tip (p2p b) i = Some (h_height (hdr (last bs)), pw, hsh)"
    and bs: "length bs \<le> 500000" "acceptable E tm (params b) bs" "inj_on sha256d (insert (genesis_msg (params b)) (chain_msgs bs))"
    and b': "b' = handle_blocks E tm i (take 200 (drop n bs)) b"
  shows "if n + 200 < length bs
    then b' = request_blocks (now_ms_at tm 1) i (of_nat (n + 200)) (b\<lparr>sync_last_ms := now_ms_at tm 0, cand := take (n + 200) bs\<rparr>)
    else blocks (chain b') = bs"
proof (cases "n + 200 < length bs")
  case True
  have valid: "valid_chain (ecng E) (params b) bs" using bs(2) by (simp add: acceptable_def)
  have "bs \<noteq> []" using True by auto
  then have "h_height (hdr (last (take (n + 200) bs))) = of_nat (n + 199)" "h_height (hdr (last bs)) = of_nat (length bs - 1)"
    using True prefix_height [OF valid bs(3), of "n + 200"] prefix_height [OF valid bs(3), of "length bs"] by auto
  moreover have "(of_nat (n + 199) :: u64) < of_nat (length bs - 1)"
    using True bs(1) by (intro of_nat_u64_less) simp_all
  ultimately show ?thesis
    using True bs(1) tip b(5) unfolding b' handle_blocks_mode(2) [OF b(2,3)]
    by (simp add: sync_download_def b(4) take_add [symmetric] not_le)
next
  case False
  then have v: "take 200 (drop n bs) = drop n bs" "length (drop n bs) \<le> 500" by simp_all
  have "bs \<noteq> []" using b(5) by auto
  moreover have "list_all block_ok (drop n bs)"
    by (rule acceptable_blocks_ok [OF bs(2)]) (auto dest: in_set_dropD)
  ultimately show ?thesis
    using sync_adopts [OF b(1-3) bs(2) b(4) less_imp_le [OF b(5)] bs(1) _ b(6) refl v(2)] False tip b(5)
    by (auto simp: b' v on_blocks_payload [OF _ v(2)])
qed

lemma loading_round:
  assumes s: "loading (ecng E) j i p bs n s" and src: "offered_chain E tms p bs" and seg: "pieces seg"
    and inj: "inj_on sha256d (insert (genesis_msg p) (chain_msgs bs))"
  shows "synced bs (sync_round E (tms k) seg j i s) \<or>
    n + 200 < length bs \<and> loading (ecng E) j i p bs (n + 200) (sync_round E (tms k) seg j i s)"
proof -
  obtain a b where ab: "s = (a, b)" by (cases s)
  have w: "waiting (ecng E) j i bs n a b" "sync_mode b = 2" "params b = p" "cand b = take n bs" "n < length bs"
      "blocks (chain a) = bs" "sync_peer b = i" "work (chain b) < chain_work bs"
    using s by (simp_all add: ab loading_def waiting_def)
  obtain hsh where tip: "peer_tip (p2p b) i = Some (h_height (hdr (last bs)), chain_work bs, hsh)"
    using w(1) by (auto simp: waiting_def)
  obtain na m where r: "sync_round E (tms k) seg j i (a, b) = (a\<lparr>p2p := na\<rparr>, handle_blocks E (tms k) i (take 200 (drop n bs)) (b\<lparr>p2p := m\<rparr>))"
    and l: "linked j na []" "linked i m []" "peer_tip m i = peer_tip (p2p b) i" "app_ok (ecng E) (b\<lparr>p2p := m\<rparr>)"
      "app_ok (ecng E) (handle_blocks E (tms k) i (take 200 (drop n bs)) (b\<lparr>p2p := m\<rparr>))"
    using waiting_round [OF w(1) src seg refl less_imp_le [OF w(5)], of k] by metis
  have "length bs \<le> 500000" "acceptable E (tms k) p bs"
    using src by (simp_all add: offered_chain_def)
  with load_reply [OF l(4), of i n bs "chain_work bs" hsh "tms k", OF _ _ _ _ _ _ _ _ _ refl] w tip l(3) inj
  have reply: "if n + 200 < length bs
    then handle_blocks E (tms k) i (take 200 (drop n bs)) (b\<lparr>p2p := m\<rparr>) = request_blocks (now_ms_at (tms k) 1) i (of_nat (n + 200))
      (b\<lparr>p2p := m, sync_last_ms := now_ms_at (tms k) 0, cand := take (n + 200) bs\<rparr>)
    else blocks (chain (handle_blocks E (tms k) i (take 200 (drop n bs)) (b\<lparr>p2p := m\<rparr>))) = bs"
    by simp
  show ?thesis
  proof (cases "n + 200 < length bs")
    case True
    then have eq: "handle_blocks E (tms k) i (take 200 (drop n bs)) (b\<lparr>p2p := m\<rparr>) = request_blocks (now_ms_at (tms k) 1) i (of_nat (n + 200))
      (b\<lparr>p2p := m, sync_last_ms := now_ms_at (tms k) 0, cand := take (n + 200) bs\<rparr>)"
      using reply by simp
    have "waiting (ecng E) j i bs (n + 200) (a\<lparr>p2p := na\<rparr>) (handle_blocks E (tms k) i (take 200 (drop n bs)) (b\<lparr>p2p := m\<rparr>))"
      using l tip w(6,7) by (intro waiting_request [OF eq l(5)]) simp_all
    then show ?thesis
      using True w(2,3,8) by (simp add: ab r loading_def eq)
  next
    case False
    then show ?thesis using reply w(6) by (simp add: ab r synced_def)
  qed
qed

text \<open>The first reply: unless the chain of \<open>b\<close> is a prefix of \<open>bs\<close>, its first block is rejected and \<open>b\<close> starts over
  from genesis.\<close>

lemma connect_all_rejects:
  assumes "chain_ok (ecng E) ch" "\<not> accepts E (clk 0) ch v"
  shows "\<exists>e. connect_all E clk 0 (v # vs) ch = (Some (v, e), 0, ch)"
proof -
  obtain e ch' where r: "connect_block E (clk 0) v ch = (Some e, ch')"
    using connect_block_ok_iff [OF assms(1), of "clk 0" v] assms(2) by (cases "connect_block E (clk 0) v ch") auto
  then show ?thesis using connect_failed [OF r] by simp
qed

lemma accepts_shares_prefix:
  assumes ch: "chain_ok (ecng E) ch" "blocks ch \<noteq> []" and valid: "valid_chain (ecng E) (cparams ch) bs"
    and n: "length (blocks ch) < length bs" "length bs \<le> 2 ^ 64"
    and inj: "inj_on sha256d (insert (genesis_msg (cparams ch)) (chain_msgs bs \<union> chain_msgs (blocks ch)))"
    and acc: "accepts E now ch (bs ! length (blocks ch))"
  shows "blocks ch = take (length (blocks ch)) bs"
proof -
  obtain k where k: "length (blocks ch) = Suc k" using ch(2) by (cases "blocks ch") simp_all
  have "header_hash (hdr (last (blocks ch))) = h_prev (hdr (bs ! Suc k))"
    using acc ch(2) by (simp add: accepts_def extends_ok_def k)
  also have "\<dots> = header_hash (hdr (last (take (Suc k) bs)))"
    using valid_chain_links(1) [OF valid] n k by (simp add: take_Suc_conv_app_nth)
  finally have eq: "header_hash (hdr (last (blocks ch))) = header_hash (hdr (last (take (Suc k) bs)))" .
  have sub: "insert (genesis_msg (cparams ch)) (chain_msgs (blocks ch) \<union> chain_msgs (take (Suc k) bs)) \<subseteq>
      insert (genesis_msg (cparams ch)) (chain_msgs bs \<union> chain_msgs (blocks ch))"
    by (auto simp: chain_msgs_def dest: in_set_takeD)
  show ?thesis
    unfolding k using ch n k
    by (intro tip_determines_chain [OF _ valid_chain_take [OF valid] _ _ _ _ inj sub eq]) (auto simp: chain_ok_def)
qed

definition asking :: "'k cng \<Rightarrow> int \<Rightarrow> int \<Rightarrow> params \<Rightarrow> block list \<Rightarrow> 'd app \<times> 'd app \<Rightarrow> bool" where
  "asking c j i p bs = (\<lambda>(a, b). waiting c j i bs (length (blocks (chain b))) a b \<and> params b = p \<and> sync_mode b = 1 \<and>
     sync_extend_got b = 0 \<and> work (chain b) < chain_work bs \<and> length (blocks (chain b)) < length bs)"

lemma asking_reply:
  assumes b: "app_ok (ecng E) b" "sync_peer b = i" "sync_mode b = 1" "sync_extend_got b = 0" "length (blocks (chain b)) < length bs"
    and bs: "length bs \<le> 500000" "valid_chain (ecng E) (params b) bs"
      "inj_on sha256d (insert (genesis_msg (params b)) (chain_msgs bs \<union> chain_msgs (blocks (chain b))))"
    and diff: "blocks (chain b) \<noteq> take (length (blocks (chain b))) bs"
  shows "handle_blocks E tm i (take 200 (drop (length (blocks (chain b))) bs)) b =
    request_blocks (now_ms_at tm 1) i (of_nat 0) (b\<lparr>sync_last_ms := now_ms_at tm 0, sync_mode := 2, cand := []\<rparr>)"
proof -
  let ?n = "length (blocks (chain b))"
  have ch: "chain_ok (ecng E) (chain b)" "blocks (chain b) \<noteq> []" "cparams (chain b) = params b"
    using b(1) by (simp_all add: app_ok_def core_ok_def)
  have "\<not> accepts E (now_s_at tm 0) (chain b) (bs ! ?n)"
    using accepts_shares_prefix [OF ch(1,2) _ b(5)] bs diff by (auto simp: ch(3))
  then obtain e where "connect_all E (now_s_at tm) 0 (bs ! ?n # take 199 (drop (Suc ?n) bs)) (chain b) = (Some (bs ! ?n, e), 0, chain b)"
    using connect_all_rejects [OF ch(1), of "now_s_at tm"] by blast
  moreover have "take 200 (drop ?n bs) = bs ! ?n # take 199 (drop (Suc ?n) bs)"
    using b(5) by (simp add: Cons_nth_drop_Suc [symmetric])
  ultimately show ?thesis
    using b(4) by (simp add: handle_blocks_mode(1) [OF b(2,3)] sync_extend_def)
qed

lemma asking_round:
  assumes s: "asking (ecng E) j i p bs (a, b)" and src: "offered_chain E tms p bs" and seg: "pieces seg"
    and inj: "inj_on sha256d (insert (genesis_msg p) (chain_msgs bs \<union> chain_msgs (blocks (chain b))))"
  shows "extending (ecng E) j i p bs (length (blocks (chain b))) (a, b) \<or> loading (ecng E) j i p bs 0 (sync_round E (tms k) seg j i (a, b))"
proof (cases "blocks (chain b) = take (length (blocks (chain b))) bs")
  case True
  then show ?thesis using s by (simp add: asking_def extending_def)
next
  case False
  let ?v = "take 200 (drop (length (blocks (chain b))) bs)"
  have w: "waiting (ecng E) j i bs (length (blocks (chain b))) a b" "sync_mode b = 1" "params b = p" "sync_extend_got b = 0"
      "work (chain b) < chain_work bs" "length (blocks (chain b)) < length bs" "blocks (chain a) = bs" "sync_peer b = i"
    using s by (simp_all add: asking_def waiting_def)
  obtain hsh where tip: "peer_tip (p2p b) i = Some (h_height (hdr (last bs)), chain_work bs, hsh)"
    using w(1) by (auto simp: waiting_def)
  obtain na m where r: "sync_round E (tms k) seg j i (a, b) = (a\<lparr>p2p := na\<rparr>, handle_blocks E (tms k) i ?v (b\<lparr>p2p := m\<rparr>))"
    and l: "linked j na []" "linked i m []" "peer_tip m i = peer_tip (p2p b) i" "app_ok (ecng E) (b\<lparr>p2p := m\<rparr>)"
      "app_ok (ecng E) (handle_blocks E (tms k) i ?v (b\<lparr>p2p := m\<rparr>))"
    using waiting_round [OF w(1) src seg refl less_imp_le [OF w(6)], of k] by metis
  have "length bs \<le> 500000" "valid_chain (ecng E) p bs"
    using src by (simp_all add: offered_chain_def acceptable_def)
  then have eq: "handle_blocks E (tms k) i ?v (b\<lparr>p2p := m\<rparr>) = request_blocks (now_ms_at (tms k) 1) i (of_nat 0)
      (b\<lparr>p2p := m, sync_last_ms := now_ms_at (tms k) 0, sync_mode := 2, cand := []\<rparr>)"
    using asking_reply [OF l(4), of i bs "tms k"] w inj False by simp
  have "waiting (ecng E) j i bs 0 (a\<lparr>p2p := na\<rparr>) (handle_blocks E (tms k) i ?v (b\<lparr>p2p := m\<rparr>))"
    using l tip w(7,8) by (intro waiting_request [OF eq l(5)]) simp_all
  then show ?thesis
    using w(3,5) src by (simp add: r loading_def offered_chain_def) (simp add: eq)
qed

section \<open>The session ends\<close>

text \<open>Rounds that either finish or advance by a fixed stride finish in a bounded number of rounds.\<close>

locale strides =
  fixes round :: "nat \<Rightarrow> 's \<Rightarrow> 's" and at :: "nat \<Rightarrow> 's \<Rightarrow> bool" and fin :: "'s \<Rightarrow> bool" and goal width :: nat
  assumes width: "0 < width"
    and advance: "at n s \<Longrightarrow> fin (round k s) \<or> n + width < goal \<and> at (n + width) (round k s)"
begin

lemma finishes:
  assumes "\<And>k. run (Suc k) = round k (run k)" "at n (run k)"
  shows "\<exists>m. m \<le> k + (goal - n) div width + 1 \<and> fin (run m)"
  using assms(2)
proof (induction "goal - n" arbitrary: n k rule: less_induct)
  case less
  from advance [OF less.prems, of k] consider "fin (run (Suc k))"
    | "n + width < goal" "at (n + width) (run (Suc k))"
    unfolding assms(1) by blast
  then show ?case
  proof cases
    case 1
    then show ?thesis by (intro exI [of _ "Suc k"]) simp
  next
    case 2
    then have dec: "goal - (n + width) < goal - n" using width by simp
    have "(goal - n) div width = Suc ((goal - (n + width)) div width)"
      using 2(1) width by (subst div_if) simp_all
    with less.hyps [OF dec 2(2)] show ?thesis by auto
  qed
qed

end

definition can_sync :: "('k, 'd) ext \<Rightarrow> (nat \<Rightarrow> times) \<Rightarrow> (bytes \<Rightarrow> bytes list) \<Rightarrow> params \<Rightarrow> block list \<Rightarrow> bool" where
  "can_sync E tms seg p bs \<longleftrightarrow> offered_chain E tms p bs \<and> pieces seg \<and> inj_on sha256d (insert (genesis_msg p) (chain_msgs bs))"

interpretation ext: strides "\<lambda>k. sync_round E (tms k) seg j i"
    "\<lambda>n s. can_sync E tms seg p bs \<and> extending (ecng E) j i p bs n s" "synced bs" "length bs" 200
    for E :: "('k, 'd) ext" and tms seg j i p bs
  by unfold_locales (use extending_round in \<open>force simp: can_sync_def\<close>)+

interpretation load: strides "\<lambda>k. sync_round E (tms k) seg j i"
    "\<lambda>n s. can_sync E tms seg p bs \<and> loading (ecng E) j i p bs n s" "synced bs" "length bs" 200
    for E :: "('k, 'd) ext" and tms seg j i p bs
  by unfold_locales (use loading_round in \<open>force simp: can_sync_def\<close>)+

lemma asking_syncs:
  assumes s: "asking (ecng E) j i p bs (a, b)" and src: "offered_chain E tms p bs" "pieces seg"
    and inj: "inj_on sha256d (insert (genesis_msg p) (chain_msgs bs \<union> chain_msgs (blocks (chain b))))"
  shows "\<exists>n \<le> 2 + length bs div 200. synced bs (sync_rounds E tms seg j i n (a, b))"
proof -
  define run where "run n = sync_rounds E tms seg j i n (a, b)" for n
  have run: "run (Suc k) = sync_round E (tms k) seg j i (run k)" for k by (simp add: run_def)
  have can: "can_sync E tms seg p bs"
    using src inj_on_subset [OF inj] by (auto simp: can_sync_def)
  from asking_round [OF s src inj, of 0]
  consider "extending (ecng E) j i p bs (length (blocks (chain b))) (run 0)" | "loading (ecng E) j i p bs 0 (run 1)"
    by (auto simp: run_def)
  then have "\<exists>n \<le> 2 + length bs div 200. synced bs (run n)"
  proof cases
    case 1
    then obtain m where "m \<le> (length bs - length (blocks (chain b))) div 200 + 1" "synced bs (run m)"
      using ext.finishes [of run E tms seg j i p bs _ 0, OF run] can by auto
    moreover have "(length bs - length (blocks (chain b))) div 200 \<le> length bs div 200" by (simp add: div_le_mono)
    ultimately show ?thesis by (intro exI [of _ m]) simp
  next
    case 2
    then show ?thesis
      using load.finishes [of run E tms seg j i p bs 0 1, OF run] can by fastforce
  qed
  then show ?thesis by (simp add: run_def)
qed

text \<open>The announcement reaches \<open>b\<close>, which asks for the block after its tip.\<close>

lemma receive_tip:
  assumes l: "linked i (p2p b) []" "net_ok (p2p b)" "concat bufs = frame_into [] M_TIP (tip_payload a)" "length (tip_hash (chain a)) = 32"
  obtains n where "receive E tm i bufs b = maybe_sync (now_ms_at tm 0) i (b\<lparr>p2p := n\<rparr>)" "linked i n []" "net_ok n"
    "peer_tip n i = Some (chain_height (chain a), work (chain a), tip_hash (chain a))"
proof -
  from l(1) obtain p where p: "smap_find (peers (p2p b)) i = Some p" "ready p" "\<not> dead p" "\<not> connecting p"
      "inbuf p = []" "outbuf p = []" "smap_ok (peers (p2p b))"
    by (elim linkedE)
  define p' where "p' = p\<lparr>tip_height := chain_height (chain a), tip_work := work (chain a), ptip_hash := tip_hash (chain a)\<rparr>"
  define n where "n = (p2p b)\<lparr>peers := smap_put i p' (peers (p2p b))\<rparr>"
  have h: "handle_frame (net_id (p2p b)) (listen_port (p2p b)) i M_TIP (tip_payload a) p [] = (True, p', [EvMsg i M_TIP (tip_payload a)])"
    using handle_tip_payload [OF l(4)] by (simp add: handle_frame_def msg_defs p'_def)
  have len: "length (tip_payload a) \<le> MAX_FRAME"
    by (simp add: tip_payload_def MAX_FRAME_def wire_simps l(4))
  have "receive E tm i bufs b = maybe_sync (now_ms_at tm 0) i (b\<lparr>p2p := n\<rparr>)"
    using receive_frame [OF l(1,3) len p(1) h] by (simp add: n_def on_msg_def)
  moreover have "linked i n []" unfolding n_def using p by (intro linked_put [OF l(1)]) (simp_all add: p'_def)
  moreover have "net_ok n" unfolding n_def using l(2) p(1) by (rule net_ok_put)
  moreover have "peer_tip n i = Some (chain_height (chain a), work (chain a), tip_hash (chain a))"
    using p by (simp add: n_def peer_tip_def smap_find_put) (simp add: p'_def)
  ultimately show ?thesis by (rule that)
qed

lemma tip_starts_sync:
  assumes a: "app_ok (ecng E) a" "linked j (p2p a) []" and b: "app_ok (ecng E) b" "linked i (p2p b) []" "sync_peer b = -1"
    and p: "params a = params b" and seg: "pieces seg"
    and more: "work (chain b) < work (chain a)" "length (blocks (chain b)) < length (blocks (chain a))"
    and inj: "inj_on sha256d (insert (genesis_msg (params b)) (chain_msgs (blocks (chain b))))"
    and r: "carry E tm seg j i (announce_tip (-1) a) b = (a', b')"
  shows "asking (ecng E) j i (params b) (blocks (chain a)) (a', b') \<and> blocks (chain b') = blocks (chain b)"
proof -
  have ch: "chain_ok (ecng E) (chain a)" "blocks (chain a) \<noteq> []" "chain_ok (ecng E) (chain b)" "blocks (chain b) \<noteq> []"
      "cparams (chain b) = params b" "net_ok (p2p a)" "net_ok (p2p b)"
    using a(1) b(1) by (simp_all add: app_ok_def core_ok_def)
  have ij: "j \<noteq> -1" "i \<noteq> -1"
    using linked_pos [OF a(2) ch(6)] linked_pos [OF b(2) ch(7)] by simp_all
  have l1: "linked j (p2p (announce_tip (-1) a)) (frame_into [] M_TIP (tip_payload a))"
    using linked_broadcast [OF a(2) ij(1)] by (simp add: announce_tip_def)
  obtain na where na: "flush E tm j (announce_tip (-1) a) = (announce_tip (-1) a)\<lparr>p2p := na\<rparr>" "linked j na []"
    using flush_linked [OF l1, of E tm] by metis
  have bytes: "concat (seg (queued j (p2p (announce_tip (-1) a)))) = frame_into [] M_TIP (tip_payload a)"
    using seg by (simp add: queued_linked [OF l1] pieces_def)
  have "length (tip_hash (chain a)) = 32"
    using chain_ok_tip [OF ch(1,2)] by (simp add: header_hash_def len_simps)
  then obtain n where n: "receive E tm i (seg (queued j (p2p (announce_tip (-1) a)))) b = maybe_sync (now_ms_at tm 0) i (b\<lparr>p2p := n\<rparr>)"
      "linked i n []" "net_ok n" "peer_tip n i = Some (chain_height (chain a), work (chain a), tip_hash (chain a))"
    using receive_tip [OF b(2) ch(7) bytes, of E tm] by metis
  have eq: "a' = a\<lparr>p2p := na\<rparr>" "b' = maybe_sync (now_ms_at tm 0) i (b\<lparr>p2p := n\<rparr>)"
    using r unfolding carry_def na(1) n(1) by (auto simp: announce_tip_def)
  have ok: "app_ok (ecng E) b'"
    using handled_maybe_sync [of "ecng E" "b\<lparr>p2p := n\<rparr>" "now_ms_at tm 0" i] b(1) n(3) by (simp add: eq handled_def app_ok_def)
  have "chain_height (chain b) + 1 = of_nat (length (blocks (chain b)))"
    using ch(3-5) by (intro next_height_prefix [of "ecng E" "params b" "blocks (chain b)", OF _ inj]) (simp_all add: chain_ok_def)
  then have b': "b' = request_blocks (now_ms_at tm 0) i (of_nat (length (blocks (chain b))))
      (b\<lparr>p2p := n, sync_peer := i, sync_mode := 1, sync_extend_got := 0, cand := []\<rparr>)"
    using b(3) n(4) more(1) by (simp add: eq(2) maybe_sync_def not_le)
  have "waiting (ecng E) j i (blocks (chain a)) (length (blocks (chain b))) a' b'"
    using n ch(1,2) na(2) by (intro waiting_request [OF b' ok]) (simp_all add: eq chain_ok_def chain_height_def)
  then show ?thesis
    using more ch(1) by (simp add: asking_def b' chain_ok_def) (simp add: request_blocks_def)
qed

lemma session_converges:
  assumes a: "app_ok (ecng E) a" "linked j (p2p a) []" and b: "app_ok (ecng E) b" "linked i (p2p b) []" "sync_peer b = -1"
    and p: "params a = params b" and seg: "pieces seg" and more: "work (chain b) < work (chain a)"
    and src: "offered_chain E (\<lambda>k. tms (Suc k)) (params b) (blocks (chain a))"
    and bound: "total_work (params b) (length (blocks (chain b))) < 2 ^ 64"
  shows "(\<exists>n \<le> 2 + length (blocks (chain a)) div 200. synced (blocks (chain a)) (sync_session E tms seg j i n a b)) \<or>
    collision (insert (genesis_msg (params b)) (chain_msgs (blocks (chain a)) \<union> chain_msgs (blocks (chain b))))"
proof (rule disjCI)
  assume "\<not> collision (insert (genesis_msg (params b)) (chain_msgs (blocks (chain a)) \<union> chain_msgs (blocks (chain b))))"
  then have inj: "inj_on sha256d (insert (genesis_msg (params b)) (chain_msgs (blocks (chain a)) \<union> chain_msgs (blocks (chain b))))"
    by (simp add: not_collision_iff)
  have ch: "chain_ok (ecng E) (chain a)" "chain_ok (ecng E) (chain b)" "cparams (chain a) = params b" "cparams (chain b) = params b"
    using a(1) b(1) p by (simp_all add: app_ok_def core_ok_def)
  have len: "length (blocks (chain b)) < length (blocks (chain a))"
    using most_work_longest [OF ch(2,1)] ch(3,4) more src bound by (simp add: offered_chain_def)
  obtain a' b' where r: "carry E (tms 0) seg j i (announce_tip (-1) a) b = (a', b')"
    by (cases "carry E (tms 0) seg j i (announce_tip (-1) a) b")
  have inj_b: "inj_on sha256d (insert (genesis_msg (params b)) (chain_msgs (blocks (chain b))))"
    by (rule inj_on_subset [OF inj]) auto
  from tip_starts_sync [OF a b p seg more len inj_b r] asking_syncs [of E j i "params b" "blocks (chain a)" a' b', OF _ src seg] inj
  show "\<exists>n \<le> 2 + length (blocks (chain a)) div 200. synced (blocks (chain a)) (sync_session E tms seg j i n a b)"
    by (simp add: sync_session_def r)
qed

end
