(* ===== verification/Relay.thy ===== *)
theory Relay
  imports Sync
begin

text \<open>
  What a new block does on a link. When a node connects a block of its own it broadcasts first its new
  tip and then the block (\<^verbatim>\<open>miner_thread\<close> and \<^verbatim>\<open>/submitwork\<close> in \<^verbatim>\<open>node_impl.h\<close>). The lemmas follow both
  frames through the loop and the handlers of a peer that had the same chain: the block is connected,
  and the request that the tip message provoked is still outstanding.
\<close>

section \<open>Both frames on the wire\<close>

lemma block_fits_frame: "block_ok b \<Longrightarrow> length (block_serialize b) \<le> MAX_FRAME"
  using length_block_le [of b] by (simp add: MAX_FRAME_def)

lemma linked_broadcast_except:
  assumes "linked i n out"
  shows "linked i (broadcast ty payload i n) out" "peer_tip (broadcast ty payload k n) l = peer_tip n l"
proof -
  have *: "broadcast ty payload k n = n\<lparr>peers := map (\<lambda>(j, q). (j, if ready q \<and> \<not> dead q \<and> j \<noteq> k
      then q\<lparr>outbuf := frame_into (outbuf q) ty payload\<rparr> else q)) (peers n)\<rparr>" for k
    by (simp add: broadcast_def)
  have "smap_ok (peers (broadcast ty payload i n))"
    using assms unfolding * by (subst smap_ok_keys [of _ "peers n"]) (auto simp: linked_def)
  then show "linked i (broadcast ty payload i n) out"
    using assms unfolding linked_def *
    by (auto simp: smap_find_map [of "\<lambda>j q. if ready q \<and> \<not> dead q \<and> j \<noteq> i then q\<lparr>outbuf := frame_into (outbuf q) ty payload\<rparr> else q"]
      split: option.splits if_splits)
  show "peer_tip (broadcast ty payload k n) l = peer_tip n l"
    unfolding * peer_tip_def
    by (simp add: smap_find_map [of "\<lambda>j q. if ready q \<and> \<not> dead q \<and> j \<noteq> k then q\<lparr>outbuf := frame_into (outbuf q) ty payload\<rparr> else q"]
      split: option.splits)
qed

text \<open>A submission that moved the chain queued the tip and the block to every peer.\<close>

lemma miner_submit_queues:
  assumes ok: "chain_ok (ecng E) (chain a)" and l: "linked j (p2p a) []" "j \<noteq> -1"
    and a': "a' = miner_submit E tm seq c nc a" "blocks (chain a') = blocks (chain a) @ [bl]"
  shows "linked j (p2p a') (stream [(M_TIP, tip_payload a'), (M_BLOCK, block_serialize bl)])"
    "accepts E (now_s_at tm 0) (chain a) bl" "chain a' = connected E bl (chain a)"
proof -
  define b where "b = c\<lparr>hdr := (hdr c)\<lparr>h_nonce := nc\<rparr>\<rparr>"
  obtain err ch where r: "connect_block E (now_s_at tm 0) b (chain a) = (err, ch)"
    by (cases "connect_block E (now_s_at tm 0) b (chain a)")
  have seq: "tip_seq a = seq" using a' by (auto simp: miner_submit_def split: if_splits)
  have err: "err = None"
    using a' r seq connect_failed [of E "now_s_at tm 0" b "chain a"] by (cases err) (auto simp: miner_submit_def b_def)
  define a1 where "a1 = announce_tip (-1) (post_chain_change (a\<lparr>chain := ch\<rparr>))"
  have eq: "a' = a1\<lparr>p2p := broadcast M_BLOCK (block_serialize b) (-1) (p2p a1)\<rparr>"
    using a'(1) r seq err by (simp add: miner_submit_def b_def a1_def Let_def)
  then have ch: "chain a' = ch" by (simp add: a1_def)
  have acc: "accepts E (now_s_at tm 0) (chain a) b" "ch = connected E b (chain a)"
    using connect_block_ok_iff [OF ok, of "now_s_at tm 0" b] connect_block_ok [OF ok, of "now_s_at tm 0" b] r err by auto
  have b: "b = bl" using a'(2) by (simp add: ch acc(2) chain_simps)
  have tip: "tip_payload a' = tip_payload (post_chain_change (a\<lparr>chain := ch\<rparr>))" by (simp add: tip_payload_def ch)
  have "linked j (p2p a1) (frame_into [] M_TIP (tip_payload a'))"
    using linked_broadcast [OF l, of M_TIP] by (simp add: a1_def announce_tip_def tip)
  then show "linked j (p2p a') (stream [(M_TIP, tip_payload a'), (M_BLOCK, block_serialize bl)])"
    using linked_broadcast [OF _ l(2)] by (simp add: eq b stream_def)
  show "accepts E (now_s_at tm 0) (chain a) bl" "chain a' = connected E bl (chain a)"
    using acc ch b by simp_all
qed

section \<open>The peer connects the block\<close>

lemma fresh_hash:
  assumes "valid_chain c p (bs @ [b])" "inj_on sha256d (insert (genesis_msg p) (chain_msgs (bs @ [b])))" "length bs < 2 ^ 64"
  shows "header_hash (hdr b) \<notin> (\<lambda>b. header_hash (hdr b)) ` set bs"
proof
  assume "header_hash (hdr b) \<in> (\<lambda>b. header_hash (hdr b)) ` set bs"
  then obtain k where k: "k < length bs" "header_hash (hdr b) = header_hash (hdr (bs ! k))"
    by (auto simp: in_set_conv_nth)
  have "header_ok (hdr b)" "header_ok (hdr (bs ! k))"
    using valid_chain_arrays [OF assms(1)] k(1) by (auto simp: block_arrays_def)
  moreover have "header_serialize (hdr b) \<in> chain_msgs (bs @ [b])" "header_serialize (hdr (bs ! k)) \<in> chain_msgs (bs @ [b])"
    using k(1) by (auto simp: chain_msgs_def)
  ultimately have "hdr b = hdr (bs ! k)"
    using header_hash_inj [OF assms(2) _ _ _ _ k(2)] by simp
  moreover have "h_height (hdr b) = of_nat (length bs)" "h_height (hdr (bs ! k)) = of_nat k"
    using valid_chain_heights [OF assms(1,2), of "length bs"] valid_chain_heights [OF assms(1,2), of k] k(1)
    by (simp_all add: nth_append)
  ultimately show False
    using of_nat_u64_less [OF k(1) assms(3)] by simp
qed

lemma on_block_relays:
  assumes b: "app_ok (ecng E) b" "block_ok bl" "\<not> has_block (chain b) (header_hash (hdr bl))"
    and acc: "accepts E (now_s_at tm 0) (chain b) bl" and l: "linked i (p2p b) out"
  shows "chain (on_block E tm i (block_serialize bl) b) = connected E bl (chain b)"
    "linked i (p2p (on_block E tm i (block_serialize bl) b)) out"
    "peer_tip (p2p (on_block E tm i (block_serialize bl) b)) k = peer_tip (p2p b) k"
    "params (on_block E tm i (block_serialize bl) b) = params b"
    "sync_peer (on_block E tm i (block_serialize bl) b) = sync_peer b"
    "sync_mode (on_block E tm i (block_serialize bl) b) = sync_mode b"
    "sync_extend_got (on_block E tm i (block_serialize bl) b) = sync_extend_got b"
proof -
  have ch: "chain_ok (ecng E) (chain b)" using b(1) by (simp add: app_ok_def core_ok_def)
  define b1 where "b1 = announce_tip i (post_chain_change (b\<lparr>chain := connected E bl (chain b)\<rparr>))"
  have eq: "on_block E tm i (block_serialize bl) b = b1\<lparr>p2p := broadcast M_BLOCK (block_serialize bl) i (p2p b1)\<rparr>"
    using block_parse_Some_iff [of "block_serialize bl" bl] b(2,3) connect_block_ok [OF ch acc] by (simp add: on_block_def b1_def Let_def)
  have "linked i (p2p b1) out" "peer_tip (p2p b1) k = peer_tip (p2p b) k"
    using linked_broadcast_except [OF l] by (simp_all add: b1_def announce_tip_def)
  then show "linked i (p2p (on_block E tm i (block_serialize bl) b)) out"
    "peer_tip (p2p (on_block E tm i (block_serialize bl) b)) k = peer_tip (p2p b) k"
    using linked_broadcast_except [of i "p2p b1" out] by (simp_all add: eq)
  show "chain (on_block E tm i (block_serialize bl) b) = connected E bl (chain b)"
    "params (on_block E tm i (block_serialize bl) b) = params b"
    "sync_peer (on_block E tm i (block_serialize bl) b) = sync_peer b"
    "sync_mode (on_block E tm i (block_serialize bl) b) = sync_mode b"
    "sync_extend_got (on_block E tm i (block_serialize bl) b) = sync_extend_got b"
    by (simp_all add: eq b1_def announce_tip_def post_chain_change_def)
qed

text \<open>The tip message alone makes the peer ask for the new block.\<close>

lemma tip_then_block:
  assumes b: "app_ok (ecng E) b" "linked i (p2p b) []" "sync_peer b = -1" and bl: "block_ok bl"
    and bytes: "concat bufs = stream [(M_TIP, tip_payload a), (M_BLOCK, block_serialize bl)]"
    and a: "length (tip_hash (chain a)) = 32" "work (chain b) < work (chain a)"
  obtains b1 n where "receive E tm i bufs b = on_block E tm i (block_serialize bl) b1" "app_ok (ecng E) b1"
    "b1 = request_blocks (now_ms_at tm 0) i (chain_height (chain b) + 1)
       (b\<lparr>p2p := n, sync_peer := i, sync_mode := 1, sync_extend_got := 0, cand := []\<rparr>)"
    "linked i n []" "peer_tip n i = Some (chain_height (chain a), work (chain a), tip_hash (chain a))"
proof -
  from b(2) obtain p where p: "smap_find (peers (p2p b)) i = Some p" "ready p" "\<not> dead p" "\<not> connecting p"
      "inbuf p = []" "outbuf p = []" "smap_ok (peers (p2p b))"
    by (elim linkedE)
  define p' where "p' = p\<lparr>tip_height := chain_height (chain a), tip_work := work (chain a), ptip_hash := tip_hash (chain a)\<rparr>"
  define n where "n = (p2p b)\<lparr>peers := smap_put i p' (peers (p2p b))\<rparr>"
  let ?ms = "[(M_TIP, tip_payload a), (M_BLOCK, block_serialize bl)]"
  have run: "run_frames (net_id (p2p b)) (listen_port (p2p b)) i ?ms p [] =
      (p', [EvMsg i M_TIP (tip_payload a), EvMsg i M_BLOCK (block_serialize bl)])"
    by (simp add: handle_frame_def handle_tip_payload [OF a(1)] p'_def) (simp add: msg_defs)
  have len: "length (tip_payload a) = 48" by (simp add: tip_payload_def wire_simps a(1))
  have "receive E tm i bufs b = on_block E tm i (block_serialize bl) (maybe_sync (now_ms_at tm 0) i (b\<lparr>p2p := n\<rparr>))"
    using receive_stream [OF b(2) bytes _ _ p(1) run] block_fits_frame [OF bl] p(3) len
    by (simp add: n_def p'_def frame_into_eq MAX_FRAME_def on_msg_def msg_defs)
  moreover have n: "linked i n []" "net_ok n"
    unfolding n_def using p b(1) by (auto intro!: linked_put [OF b(2)] net_ok_put simp: p'_def app_ok_def)
  moreover have tip: "peer_tip n i = Some (chain_height (chain a), work (chain a), tip_hash (chain a))"
    using p by (simp add: n_def peer_tip_def smap_find_put) (simp add: p'_def)
  moreover have "maybe_sync (now_ms_at tm 0) i (b\<lparr>p2p := n\<rparr>) = request_blocks (now_ms_at tm 0) i (chain_height (chain b) + 1)
       (b\<lparr>p2p := n, sync_peer := i, sync_mode := 1, sync_extend_got := 0, cand := []\<rparr>)"
    using b(3) tip a(2) by (simp add: maybe_sync_def not_le)
  moreover have "app_ok (ecng E) (maybe_sync (now_ms_at tm 0) i (b\<lparr>p2p := n\<rparr>))"
    using handled_maybe_sync [of "ecng E" "b\<lparr>p2p := n\<rparr>" "now_ms_at tm 0" i] b(1) n(2) by (simp add: handled_def app_ok_def)
  ultimately show ?thesis
    by (intro that [of "maybe_sync (now_ms_at tm 0) i (b\<lparr>p2p := n\<rparr>)" n])
qed

text \<open>The situation in which a block is relayed: two linked, idle nodes with the same chain, of which \<open>a\<close> has
  just connected \<open>bl\<close> by a submission of its miner.\<close>

definition relays :: "('k, 'd) ext \<Rightarrow> int \<Rightarrow> int \<Rightarrow> 'd app \<Rightarrow> 'd app \<Rightarrow> 'd app \<Rightarrow> block \<Rightarrow> bool" where
  "relays E j i a b a' bl \<longleftrightarrow> app_ok (ecng E) a \<and> linked j (p2p a) [] \<and> app_ok (ecng E) b \<and> linked i (p2p b) [] \<and> sync_peer b = -1 \<and>
     params a = params b \<and> blocks (chain a) = blocks (chain b) \<and>
     (\<exists>tm seq c nc. block_arrays c \<and> a' = miner_submit E tm seq c nc a) \<and> blocks (chain a') = blocks (chain a) @ [bl] \<and>
     total_work (params b) (length (blocks (chain a'))) < 2 ^ 64"

lemma total_work_ge: "n \<le> total_work p n"
  using work_of_pos [of "p_bits p"] by (cases n) (simp_all add: total_work_def)

lemma relays_facts:
  assumes "relays E j i a b a' bl"
  shows "app_ok (ecng E) a'" "linked j (p2p a') (stream [(M_TIP, tip_payload a'), (M_BLOCK, block_serialize bl)])"
    "extends_ok (ecng E) (params b) (blocks (chain b)) bl" "valid_chain (ecng E) (params b) (blocks (chain b) @ [bl])"
    "block_ok bl" "work (chain b) < work (chain a')" "cparams (chain a') = params b" "length (tip_hash (chain a')) = 32"
    "length (blocks (chain b)) < 2 ^ 64"
proof -
  obtain tm seq c nc where a': "a' = miner_submit E tm seq c nc a" "block_arrays c"
    using assms by (auto simp: relays_def)
  have ab: "app_ok (ecng E) a" "linked j (p2p a) []" "app_ok (ecng E) b" "params a = params b"
      "blocks (chain a) = blocks (chain b)" "blocks (chain a') = blocks (chain a) @ [bl]"
      "total_work (params b) (length (blocks (chain a'))) < 2 ^ 64"
    using assms unfolding relays_def by blast+
  have ch: "chain_ok (ecng E) (chain a)" "cparams (chain a) = params b" "blocks (chain a) \<noteq> []" "chain_ok (ecng E) (chain b)" "j \<noteq> -1"
    using ab linked_pos [OF ab(2)] by (auto simp: app_ok_def core_ok_def)
  show ok: "app_ok (ecng E) a'"
    using handled_miner_submit [OF ab(1) a'(2), of tm seq nc] by (simp add: a'(1) handled_def)
  note sub = miner_submit_queues [OF ch(1) ab(2) ch(5) a'(1) ab(6)]
  show "linked j (p2p a') (stream [(M_TIP, tip_payload a'), (M_BLOCK, block_serialize bl)])" by (rule sub)
  show ext: "extends_ok (ecng E) (params b) (blocks (chain b)) bl"
    using sub(2) ch(2,3) by (simp add: accepts_def ab(5))
  show cp: "cparams (chain a') = params b" using sub(3) ch(2) by (simp add: chain_simps)
  have ok': "chain_ok (ecng E) (chain a')" using ok by (simp add: app_ok_def core_ok_def)
  then show valid: "valid_chain (ecng E) (params b) (blocks (chain b) @ [bl])"
    using ab(5,6) cp by (simp add: chain_ok_def)
  then show "block_ok bl" by (auto intro: valid_chain_block_ok)
  show "work (chain b) < work (chain a')"
    using prefix_work_less [OF valid, of "length (blocks (chain b))"] ab(5-7) ok' ch(4) by (simp add: chain_ok_def)
  show "length (tip_hash (chain a')) = 32"
    using chain_ok_tip [OF ok'] ab(6) by (simp add: header_hash_def len_simps)
  have "total_work (params b) (length (blocks (chain b))) < 2 ^ 64"
    using ab(5-7) total_work_less [of "params b" "length (blocks (chain b))" "Suc (length (blocks (chain b)))"] by simp
  then show "length (blocks (chain b)) < 2 ^ 64"
    using total_work_ge [of "length (blocks (chain b))" "params b"] by linarith
qed

lemma block_relayed:
  assumes s: "relays E j i a b a' bl" and seg: "pieces seg" and clk: "clock_ok (now_s_at tm 0) bl"
    and inj: "inj_on sha256d (insert (genesis_msg (params b)) (chain_msgs (blocks (chain a'))))"
    and r: "carry E tm seg j i a' b = (a'', b')"
  shows "blocks (chain a'') = blocks (chain a')" "blocks (chain b') = blocks (chain a')" "params b' = params b"
    "waiting (ecng E) j i (blocks (chain a')) (length (blocks (chain b))) a'' b'" "sync_mode b' = 1" "sync_extend_got b' = 0"
proof -
  note f = relays_facts [OF s]
  have bl: "blocks (chain a') = blocks (chain b) @ [bl]" using s by (simp add: relays_def)
  have b: "app_ok (ecng E) b" "linked i (p2p b) []" "sync_peer b = -1" using s by (simp_all add: relays_def)
  then have ch: "chain_ok (ecng E) (chain b)" "cparams (chain b) = params b" "blocks (chain b) \<noteq> []"
    by (simp_all add: app_ok_def core_ok_def)
  obtain na where na: "flush E tm j a' = a'\<lparr>p2p := na\<rparr>" "linked j na []"
    using flush_linked [OF f(2), of E tm] by metis
  have bytes: "concat (seg (queued j (p2p a'))) = stream [(M_TIP, tip_payload a'), (M_BLOCK, block_serialize bl)]"
    using seg by (simp add: queued_linked [OF f(2)] pieces_def)
  obtain b1 n where b1: "receive E tm i (seg (queued j (p2p a'))) b = on_block E tm i (block_serialize bl) b1" "app_ok (ecng E) b1"
      "b1 = request_blocks (now_ms_at tm 0) i (chain_height (chain b) + 1)
         (b\<lparr>p2p := n, sync_peer := i, sync_mode := 1, sync_extend_got := 0, cand := []\<rparr>)"
      "linked i n []" "peer_tip n i = Some (chain_height (chain a'), work (chain a'), tip_hash (chain a'))"
    using tip_then_block [OF b f(5) bytes f(8,6), of tm] by metis
  have eq: "a'' = a'\<lparr>p2p := na\<rparr>" "b' = on_block E tm i (block_serialize bl) b1"
    using r unfolding carry_def na(1) b1(1) by simp_all
  have c1: "chain b1 = chain b" "sync_peer b1 = i" "sync_mode b1 = 1" "sync_extend_got b1 = 0" "params b1 = params b"
    by (simp_all add: b1(3)) (simp add: request_blocks_def)
  have "chain_height (chain b) + 1 = of_nat (length (blocks (chain b)))"
    using ch f(4) inj by (intro next_height_prefix [OF f(4), of _ "chain b"]) (simp_all add: bl)
  then have l1: "linked i (p2p b1) (frame_into [] M_GET_BLOCKS (ask_blocks (of_nat (length (blocks (chain b))))))"
      "peer_tip (p2p b1) i = peer_tip n i"
    using linked_request [of i "b\<lparr>p2p := n, sync_peer := i, sync_mode := 1, sync_extend_got := 0, cand := []\<rparr>"] b1(4)
    by (simp_all add: b1(3))
  have fresh: "\<not> has_block (chain b1) (header_hash (hdr bl))"
    using fresh_hash [OF f(4) _ f(9)] inj ch(1) by (auto simp: bl c1(1) has_block_def chain_ok_def)
  have acc: "accepts E (now_s_at tm 0) (chain b1) bl"
    using f(3) clk ch by (simp add: accepts_def c1(1))
  note ob = on_block_relays [OF b1(2) f(5) fresh acc l1(1), folded eq(2)]
  show "blocks (chain a'') = blocks (chain a')" by (simp add: eq(1))
  show bl': "blocks (chain b') = blocks (chain a')" by (simp add: ob(1) chain_simps c1(1) bl)
  show "params b' = params b" "sync_mode b' = 1" "sync_extend_got b' = 0" by (simp_all add: ob c1)
  have "app_ok (ecng E) b'"
    using handled_on_block [OF b1(2)] by (simp add: eq(2) handled_def)
  moreover have "peer_tip (p2p b') i = Some (h_height (hdr (last (blocks (chain a')))), chain_work (blocks (chain a')), tip_hash (chain a'))"
    using ob(3) l1(2) b1(5) f(1) bl by (simp add: chain_height_def app_ok_def core_ok_def chain_ok_def)
  ultimately show "waiting (ecng E) j i (blocks (chain a')) (length (blocks (chain b))) a'' b'"
    using ob(2,5) na(2) c1(2) by (simp add: waiting_def eq(1))
qed

text \<open>The answer to that request holds the block \<open>b\<close> already has. It is rejected for its height, which the handler
  takes for a fork: \<open>b\<close> starts to download the whole chain it already has.\<close>

lemma relay_refetches:
  assumes s: "relays E j i a b a' bl" and seg: "pieces seg" and clk: "clock_ok (now_s_at tm 0) bl"
    and inj: "inj_on sha256d (insert (genesis_msg (params b)) (chain_msgs (blocks (chain a'))))"
    and r: "carry E tm seg j i a' b = (a'', b')" "sync_round E tm' seg j i (a'', b') = (a3, b3)"
  shows "blocks (chain b3) = blocks (chain a') \<and> sync_peer b3 = i \<and> sync_mode b3 = 2 \<and> cand b3 = [] \<and>
    linked i (p2p b3) (frame_into [] M_GET_BLOCKS (ask_blocks 0))"
proof -
  note f = relays_facts [OF s] and g = block_relayed [OF s seg clk inj r(1)]
  have bl: "blocks (chain a') = blocks (chain b) @ [bl]" using s by (simp add: relays_def)
  have w: "app_ok (ecng E) b'" "linked j (p2p a'') []" "sync_peer b' = i" "net_ok (p2p b')"
      "linked i (p2p b') (frame_into [] M_GET_BLOCKS (ask_blocks (of_nat (length (blocks (chain b))))))"
    using g(4) by (simp_all add: waiting_def app_ok_def)
  have v: "[bl] = take 200 (drop (unat (of_nat (length (blocks (chain b))) :: u64)) (blocks (chain a'')))"
    using f(9) by (simp add: g(1) bl unat_of_nat take_bit_nat_eq_self)
  have "length (blocks_payload [bl]) \<le> MAX_FRAME"
    using length_block_le [OF f(5)] by (simp add: blocks_payload_eq enc_block_def wire_simps MAX_FRAME_def)
  then obtain m where m: "b3 = on_blocks E tm' i (blocks_payload [bl]) (b'\<lparr>p2p := m\<rparr>)" "linked i m []"
    using sync_round_reply [OF w(2,5) seg v _ w(4), of E tm'] r(2) by (metis prod.inject)
  have ch: "chain_ok (ecng E) (chain b')" using w(1) by (simp add: app_ok_def core_ok_def)
  have "\<not> accepts E (now_s_at tm' 0) (chain b') bl"
    by (simp add: accepts_def extends_ok_def g(2) bl)
  then obtain e where "connect_all E (now_s_at tm') 0 [bl] (chain b') = (Some (bl, e), 0, chain b')"
    using connect_all_rejects [OF ch, of "now_s_at tm'"] by blast
  then have "b3 = request_blocks (now_ms_at tm' 1) i 0 (b'\<lparr>p2p := m, sync_last_ms := now_ms_at tm' 0, sync_mode := 2, cand := []\<rparr>)"
    using handle_blocks_mode(1) [of "b'\<lparr>p2p := m\<rparr>" i E tm' "[bl]"] w(3) g(5,6) f(5)
    by (simp add: m(1) on_blocks_payload sync_extend_def)
  then show ?thesis
    using linked_request [of i "b'\<lparr>p2p := m, sync_last_ms := now_ms_at tm' 0, sync_mode := 2, cand := []\<rparr>"] m(2) w(3) g(2)
    by simp
qed

section \<open>Two small linked nodes\<close>

definition mini_linked :: "mini_db pchain \<Rightarrow> mini_db app" where
  "mini_linked ch = (mini_app None)\<lparr>chain := ch, p2p := (p2p (mini_app None))\<lparr>peers := [(1, peer0\<lparr>ready := True\<rparr>)], next_id := 2\<rparr>\<rparr>"

lemma mini_linked_ok:
  assumes "chain_ok mini_cng ch" "blocks ch \<noteq> []" "cparams ch = mini_params"
  shows "app_ok mini_cng (mini_linked ch)" "linked 1 (p2p (mini_linked ch)) []"
  using mini_app_ok [of None] assms
  by (simp_all add: mini_linked_def app_ok_def core_ok_def sync_ok_def net_ok_def mini_app_def smap_ok_def
      pool_fresh_def mempool0_def linked_def smap_find_def peer0_def)

lemma mini_linked_fields [simp]:
  "chain (mini_linked ch) = ch" "params (mini_linked ch) = mini_params" "sync_peer (mini_linked ch) = -1" "tip_seq (mini_linked ch) = 0"
  by (simp_all add: mini_linked_def mini_app_def)

lemma mini_total_work: "total_work mini_params n = n"
  by (cases n) (simp_all add: total_work_def work_of_def)

lemma mini_offered: "offered_chain mini_ext (\<lambda>_. mini_times) mini_params [mini_genesis, mini_block]"
proof -
  have ok: "list_all block_ok [mini_genesis, mini_block]"
    by (rule acceptable_blocks_ok [OF mini_acceptable]) simp
  have "length (blocks_payload (take 200 (drop k [mini_genesis, mini_block]))) \<le> MAX_FRAME" for k
  proof -
    have "drop k [mini_genesis, mini_block] \<in> {[mini_genesis, mini_block], [mini_block], []}"
      by (cases k; cases "k - 1") (auto simp: drop_Cons')
    moreover have "length (block_serialize mini_genesis) < 1000" "length (block_serialize mini_block) < 1000"
      using ok length_tx_serialize [of mini_coinbase]
      by (simp_all add: block_ok_def block_serialize_eq length_header_serialize HEADER_SIZE_def wire_simps)
        (simp_all add: mini_genesis_def make_genesis_def mini_block_def mini_coinbase_def tx_default_def)
    ultimately show ?thesis
      by (auto simp: blocks_payload_eq enc_block_def wire_simps MAX_FRAME_def)
  qed
  then show ?thesis
    using mini_acceptable by (simp add: offered_chain_def mini_total_work)
qed

lemma mini_work: "work (mini_start None) < work (mini_two None)"
  using most_work_longest [OF mini_start_ok [of None] mini_two_ok [of None]] by (simp add: mini_total_work)

lemma mini_clock: "clock_ok (now_s_at mini_times 0) mini_block"
  by (simp add: mini_times_def clock_ok_def mini_block_def MAX_TIME_SKEW_S_def)

lemma mini_relays:
  "relays mini_ext 1 1 (mini_linked (mini_start None)) (mini_linked (mini_start None))
     (miner_submit mini_ext mini_times 0 mini_block 0 (mini_linked (mini_start None))) mini_block"
proof -
  let ?a = "mini_linked (mini_start None)"
  have acc: "accepts mini_ext (now_s_at mini_times 0) (mini_start None) mini_block"
    using mini_start_accepts [of None] by (simp add: accepts_def mini_times_def clock_ok_def mini_block_def MAX_TIME_SKEW_S_def)
  have same: "mini_block\<lparr>hdr := (hdr mini_block)\<lparr>h_nonce := 0\<rparr>\<rparr> = mini_block"
    by (simp add: mini_block_def header_default_def)
  have "blocks (chain (miner_submit mini_ext mini_times 0 mini_block 0 ?a)) = [mini_genesis, mini_block]"
    using connect_block_ok [of mini_ext "mini_start None" _ mini_block, OF _ acc] mini_start_ok [of None]
    by (simp add: miner_submit_def same Let_def chain_simps)
  then show ?thesis
    using mini_linked_ok [OF mini_start_ok [of None]] mini_block_arrays
    by (simp add: relays_def mini_total_work) blast
qed

end
