(* ===== verification/RpcServer.thy ===== *)
theory RpcServer
  imports HttpClient
begin

text \<open>
  The server loop of \<^verbatim>\<open>src/rpc.h\<close> (\<^verbatim>\<open>RpcServer::loop\<close> and \<^verbatim>\<open>handle\<close>), which serves one connection at a time, and
  \<^verbatim>\<open>read_file\<close> of \<^verbatim>\<open>node_impl.h\<close>, from which it serves the viewer.  What \<^verbatim>\<open>recv\<close> and \<^verbatim>\<open>send\<close> return on a
  connection and what the clock shows is the record \<open>conn\<close>.

  Lemmas: whatever earlier connections sent, a client whose request arrives and whose reply is sent gets the answer
  of \<^verbatim>\<open>handle_rpc\<close> on the state the earlier connections left; serving a connection is at most one step of the
  node, so the loop keeps the node invariant.
\<close>

section \<open>The code\<close>

text \<open>\<^verbatim>\<open>read_file\<close>: the file in blocks of 64 KiB, nothing if it cannot be opened.\<close>

function read_blocks :: "string \<Rightarrow> string \<Rightarrow> string" where
  "read_blocks f s = (if f = [] then s else read_blocks (drop 65536 f) (s @ take 65536 f))"
  by pat_completeness auto
termination
  by (relation "measure (\<lambda>(f, s). length f)") auto

declare read_blocks.simps [simp del]

definition read_file :: "files \<Rightarrow> string \<Rightarrow> string" where
  "read_file fs path = (case fs path of None \<Rightarrow> [] | Some f \<Rightarrow> read_blocks f [])"

record conn =
  cn_pieces :: "string list"
  cn_sends :: "int list"
  cn_times :: times

text \<open>
  The send loop: each call takes some bytes of what is left, a result that is not positive ends it.  The value
  is what was sent.  (The loop asks no further when the list of results ends: the connection is gone.)
\<close>

fun send_loop :: "int list \<Rightarrow> string \<Rightarrow> string" where
  "send_loop [] out = []"
| "send_loop (n # ns) out =
     (if out = [] then [] else if n \<le> 0 then [] else take (nat n) out @ send_loop ns (drop (nat n) out))"

text \<open>\<^verbatim>\<open>handle\<close>: what is sent to the client, and the state of the node after.\<close>

definition serve_conn :: "('k, 'd) ext \<Rightarrow> (string \<Rightarrow> string) \<Rightarrow> string \<Rightarrow> conn \<Rightarrow> 'd app \<Rightarrow> string \<times> 'd app" where
  "serve_conn E rf viewer_html cn a =
     (case parse_request (cn_pieces cn) of None \<Rightarrow> ([], a)
      | Some r \<Rightarrow>
          (case handle_rpc E (cn_times cn) rf viewer_html r a of (resp, a) \<Rightarrow> (send_loop (cn_sends cn) (render_response resp), a)))"

text \<open>\<^verbatim>\<open>loop\<close>: the results of \<^verbatim>\<open>accept\<close> in turn, \<open>None\<close> for a failed one; the list of what each connection is sent.\<close>

fun serve_loop :: "('k, 'd) ext \<Rightarrow> (string \<Rightarrow> string) \<Rightarrow> string \<Rightarrow> conn option list \<Rightarrow> 'd app \<Rightarrow> string list \<times> 'd app" where
  "serve_loop E rf viewer_html [] a = ([], a)"
| "serve_loop E rf viewer_html (c # cs) a =
     (case (case c of None \<Rightarrow> ([], a) | Some cn \<Rightarrow> serve_conn E rf viewer_html cn a) of (out, a) \<Rightarrow>
      case serve_loop E rf viewer_html cs a of (outs, a) \<Rightarrow> (out # outs, a))"

section \<open>Lemmas\<close>

lemma read_blocks_eq: "read_blocks f s = s @ f"
  by (induction f s rule: read_blocks.induct) (simp add: read_blocks.simps)

lemma read_file_eq: "read_file fs path = (case fs path of None \<Rightarrow> [] | Some f \<Rightarrow> f)"
  by (simp add: read_file_def read_blocks_eq split: option.split)

text \<open>What is sent is a part of the reply from its start, and all of it if \<^verbatim>\<open>send\<close> keeps taking bytes.\<close>

lemma send_loop_prefix: "\<exists>rest. out = send_loop ns out @ rest"
proof (induction ns out rule: send_loop.induct)
  case (2 n ns out)
  show ?case
  proof (cases "out = [] \<or> n \<le> 0")
    case False
    then obtain rest where "drop (nat n) out = send_loop ns (drop (nat n) out) @ rest" using 2 by auto
    then have "out = (take (nat n) out @ send_loop ns (drop (nat n) out)) @ rest" by (metis append_assoc append_take_drop_id)
    then show ?thesis using False by auto
  qed auto
qed simp

definition sends_all :: "int list \<Rightarrow> string \<Rightarrow> bool" where
  "sends_all ns out \<longleftrightarrow> (\<forall>n \<in> set ns. 0 < n) \<and> int (length out) \<le> sum_list ns"

lemma send_loop_all: "sends_all ns out \<Longrightarrow> send_loop ns out = out"
proof (induction ns out rule: send_loop.induct)
  case (2 n ns out)
  have "sends_all ns (drop (nat n) out)"
  proof -
    have "0 \<le> sum_list ns" using 2(2) by (intro sum_list_nonneg) (auto simp: sends_all_def)
    then show ?thesis using 2(2) by (auto simp: sends_all_def)
  qed
  then show ?case using 2 by (auto simp: sends_all_def)
qed (simp add: sends_all_def)

lemma serve_loop_append:
  "serve_loop E rf vh (cs @ ds) a =
     (case serve_loop E rf vh cs a of (outs, a1) \<Rightarrow> case serve_loop E rf vh ds a1 of (outs', a2) \<Rightarrow> (outs @ outs', a2))"
  by (induction cs arbitrary: a) (simp_all split: prod.split)

lemma length_serve_loop: "length (fst (serve_loop E rf vh cs a)) = length cs"
  by (induction cs arbitrary: a) (simp_all split: prod.split, metis fst_conv)

text \<open>One call among other connections.\<close>

lemma server_answers:
  assumes req: "plain_target m" "plain_target path" "plain_host host" "length m + length path + length host \<le> 3900" "length body \<le> 4 * 1024 * 1024"
    and pieces: "concat (cn_pieces cn) = http_request host port m path body" "[] \<notin> set (cn_pieces cn)"
    and a1: "a1 = snd (serve_loop E rf vh before a)" "(resp, a2) = handle_rpc E (cn_times cn) rf vh (call_req m path body) a1"
    and reply: "length (resp_body resp) \<le> 60 * 1024 * 1024" "sends_all (cn_sends cn) (render_response resp)"
      "concat down = fst (serve_loop E rf vh (before @ Some cn # after) a) ! length before"
  shows "http_response (client_recv down []) = (resp_code resp, resp_body resp)"
    "snd (serve_loop E rf vh (before @ [Some cn]) a) = a2"
proof -
  have p: "parse_request (cn_pieces cn) = Some (call_req m path body)"
    unfolding call_req_def using pieces(2) by (intro server_reads_request [OF req pieces(1)]) auto
  have sv: "serve_conn E rf vh cn a1 = (render_response resp, a2)"
    by (simp add: serve_conn_def p a1(2) [symmetric] send_loop_all [OF reply(2)])
  obtain outs where o: "serve_loop E rf vh before a = (outs, a1)" using a1(1) by (cases "serve_loop E rf vh before a") simp
  have "length outs = length before" using length_serve_loop [of E rf vh before a] o by simp
  then have "concat down = render_response resp"
    unfolding reply(3) by (simp add: serve_loop_append o sv nth_append split: prod.split)
  moreover have "response_ok resp" using std_resp_ok [OF _ reply(1)] std_resp_rpc a1(2) by (metis fst_conv)
  ultimately show "http_response (client_recv down []) = (resp_code resp, resp_body resp)" by (intro client_reads_response)
  show "snd (serve_loop E rf vh (before @ [Some cn]) a) = a2" using o sv by (simp add: serve_loop_append)
qed

text \<open>Serving a connection is a step of the RPC thread, or no step.\<close>

lemma serve_conn_step:
  assumes "serve_conn E rf vh cn (napp s) = (out, a)"
  shows "node_step E s (s\<lparr>napp := a\<rparr>) \<or> a = napp s"
proof (cases "parse_request (cn_pieces cn)")
  case (Some r)
  have "a = snd (handle_rpc E (cn_times cn) rf vh r (napp s))" using assms Some by (auto simp: serve_conn_def split: prod.splits)
  then show ?thesis using node_step.rpc by blast
qed (use assms in \<open>simp add: serve_conn_def\<close>)

lemma serve_loop_steps: "(node_step E)\<^sup>*\<^sup>* s (s\<lparr>napp := snd (serve_loop E rf vh cs (napp s))\<rparr>)"
proof (induction cs arbitrary: s)
  case (Cons c cs)
  obtain out a where c: "(case c of None \<Rightarrow> ([], napp s) | Some cn \<Rightarrow> serve_conn E rf vh cn (napp s)) = (out, a)" by fastforce
  have "(node_step E)\<^sup>*\<^sup>* s (s\<lparr>napp := a\<rparr>)"
  proof (cases c)
    case (Some cn)
    then have "node_step E s (s\<lparr>napp := a\<rparr>) \<or> a = napp s" using c by (intro serve_conn_step) simp
    then show ?thesis by auto
  qed (use c in auto)
  moreover have "(node_step E)\<^sup>*\<^sup>* (s\<lparr>napp := a\<rparr>) (s\<lparr>napp := snd (serve_loop E rf vh cs a)\<rparr>)"
    using Cons.IH [of "s\<lparr>napp := a\<rparr>"] by simp
  ultimately show ?case using c by (auto split: prod.split)
qed simp

end
