(* ===== verification/Selftest.thy ===== *)
theory Selftest
  imports Cli "HOL-Library.Monad_Syntax"
begin

text \<open>
  \<^verbatim>\<open>selftest.cpp\<close>: the test program of the repository, run on the model.

  The outcomes of the \<^verbatim>\<open>CHECK\<close>s come in three lists.  \<open>oc_plain\<close> are those that follow from the code (the refusal of a record altered after
  signing among them, unless CNG accepts the signature for the altered one, \<open>record_forged\<close>).  \<open>oc_apart\<close> are those that say that two things are
  told apart by ECDSA or SHA-256: an altered or foreign signature does not verify, two different contents have different hashes.
  \<open>oc_million\<close> is the SHA-256 vector of a million bytes, which is too long to be evaluated in a proof.
  \<open>None\<close> stands for a run that does not get to the end, because a mining
  loop finds no nonce or because CNG makes no key or no signature, which the program dereferences although \<^verbatim>\<open>CHECK\<close> has seen it.

  Lemmas: each test of the first kind passes, from the lemmas of the components it exercises; and the program gets
  to its end unless one of these things happens (\<open>tests_return\<close>, \<open>selftest_outcome\<close>).
\<close>

section \<open>The helpers of the test program\<close>

partial_function (option) mine_nonce :: "u32 \<Rightarrow> header \<Rightarrow> header option" where
  "mine_nonce bits h = (if pow_ok (header_hash h) bits then Some h else mine_nonce bits (h\<lparr>h_nonce := h_nonce h + 1\<rparr>))"

definition mine_block :: "'d pchain \<Rightarrow> params \<Rightarrow> addr20 \<Rightarrow> tx list \<Rightarrow> u64 \<Rightarrow> u64 \<Rightarrow> block option" where
  "mine_block ch p miner ts t nc =
     (let all = tx_default\<lparr>tx_type := TX_COINBASE, tx_net_id := p_net_id p, tx_to := miner, tx_amount := p_reward p,
                  tx_nonce := chain_height ch + 1\<rparr> # ts
      in do {
        h \<leftarrow> mine_nonce (p_bits p) (header_default\<lparr>h_version := CL_VERSION, h_net_id := p_net_id p, h_prev := tip_hash ch,
               h_merkle := merkle_root (map txid all), h_height := chain_height ch + 1, h_time := t, h_bits := p_bits p, h_nonce := nc\<rparr>);
        Some \<lparr>hdr = h, txs = all\<rparr>
      })"

definition make_transfer :: "'k cng \<Rightarrow> nat \<Rightarrow> keypair \<Rightarrow> addr20 \<Rightarrow> u64 \<Rightarrow> u64 \<Rightarrow> params \<Rightarrow> tx option" where
  "make_transfer c rnd from to amount n p =
     (let t = tx_default\<lparr>tx_type := TX_TRANSFER, tx_net_id := p_net_id p, tx_from := kpub from, tx_to := to,
                tx_amount := amount, tx_nonce := n\<rparr>
      in do { sig \<leftarrow> kp_sign c rnd from (sign_hash t); Some (t\<lparr>tx_sig := sig\<rparr>) })"

section \<open>The tests\<close>

definition test_hash :: "bool list" where
  "test_hash = [
     hexs (sha256 (str_bytes '''')) = ''e3b0c44298fc1c149afbf4c8996fb92427ae41e4649b934ca495991b7852b855'',
     hexs (sha256 (str_bytes ''abc'')) = ''ba7816bf8f01cfea414140de5dae2223b00361a396177a9cb410ff61f20015ad'',
     hexs (sha256 (str_bytes ''The quick brown fox jumps over the lazy dog'')) =
       ''d7a8fbb307d7809469ca9abcb0082e4f8d5651e46d3cdb762d02d0bf37c9e592'']"

definition test_million :: "bool list" where
  "test_million = [hexs (sha256 (str_bytes (replicate 1000000 CHR ''a''))) = ''cdc76e5c9914fb9281a1c7e284d73e67f1809a48a497200e046d39ccc7112cd0'']"

definition test_hex :: "bool list" where
  "test_hex = [unhex ''00ffa5'' \<noteq> None \<and> hexs (the (unhex ''00ffa5'')) = ''00ffa5'', unhex ''xyz'' = None, unhex ''abc'' = None]"

definition test_pow :: "bool list" where
  "test_pow =
     (let h0 = replicate 32 0; h1 = h0[0 := 0x00, 1 := 0x7f]; h2 = h1[0 := 0x80]; z = (replicate 32 0)[2 := 0x01]
      in [leading_zero_bits h0 = 256, leading_zero_bits h1 = 9, leading_zero_bits h2 = 0, leading_zero_bits z = 23,
          pow_ok z 23 \<and> \<not> pow_ok z 24])"

definition flip0 :: "nat \<Rightarrow> bytes \<Rightarrow> bytes" where
  "flip0 i b = b[i := b ! i XOR 1]"

definition test_keys :: "'k cng \<Rightarrow> (nat \<Rightarrow> nat) \<Rightarrow> (string \<Rightarrow> bool) \<Rightarrow> files \<Rightarrow> keypair \<Rightarrow> keypair \<Rightarrow> (bool list \<times> bool list) option" where
  "test_keys c rk can_write fs kA kB =
     (let d = sha256 (str_bytes ''hello chainlite''); d2 = sha256 (str_bytes ''hello chainlitE'') in do {
        let made = kp_sign c (rk 0) kA d;
        sig \<leftarrow> made;
        let saved = kp_save can_write kA ''selftest_key.tmp'' fs;
        back \<leftarrow> kp_load ''selftest_key.tmp'' (case saved of None \<Rightarrow> fs | Some fs' \<Rightarrow> fs');
        sig2 \<leftarrow> kp_sign c (rk 1) back d;
        Some ([made \<noteq> None, sig_verify c (kpub kA) d sig, saved \<noteq> None, kpub back = kpub kA, sig_verify c (kpub kA) d sig2],
          [\<not> sig_verify c (kpub kA) d (flip0 10 sig), \<not> sig_verify c (kpub kB) d sig, \<not> sig_verify c (kpub kA) d2 sig])
      })"

definition test_leaves :: "h256 list" where
  "test_leaves = map (\<lambda>i. sha256 (str_bytes (strf (''leaf'' @ dec i)))) [0..<7]"

definition test_merkle :: "bool list \<times> bool list" where
  "test_merkle =
     ([merkle_root [test_leaves ! 0] = test_leaves ! 0, merkle_root [] = replicate 32 0] @
        concat (map (\<lambda>n. map (\<lambda>i. merkle_apply (take n test_leaves ! i) (merkle_proof (take n test_leaves) i) = merkle_root (take n test_leaves))
          [0..<n]) [1..<8]),
      concat (map (\<lambda>n. if n > 1 then map (\<lambda>i. merkle_apply (flip0 0 (take n test_leaves ! i)) (merkle_proof (take n test_leaves) i)
          \<noteq> merkle_root (take n test_leaves)) [0..<n] else []) [1..<8]))"

definition test_tx :: "'k cng \<Rightarrow> nat \<Rightarrow> params \<Rightarrow> keypair \<Rightarrow> keypair \<Rightarrow> (bool list \<times> bool list) option" where
  "test_tx c rnd p kA kB = do {
     t \<leftarrow> make_transfer c rnd kA (addr_of (kpub kB)) 42 0 p;
     case tx_parse (mk_reader (tx_serialize t)) of Inl e \<Rightarrow> None
     | Inr (u, r) \<Rightarrow>
         (let v = u\<lparr>tx_sig := flip0 0 (tx_sig u)\<rparr>
          in Some ([rd_remaining r = 0, txid u = txid t, sign_hash u = sign_hash t, sign_hash v = sign_hash t], [txid v \<noteq> txid t]))
   }"

definition test_genesis :: "params \<Rightarrow> bool list \<times> bool list" where
  "test_genesis p = ([header_hash (hdr (make_genesis p)) = header_hash (hdr (make_genesis p))],
     [header_hash (hdr (make_genesis (p\<lparr>p_net_id := p_net_id p + 1\<rparr>))) \<noteq> header_hash (hdr (make_genesis p))])"

text \<open>Mining, spending and the rejection of bad blocks.  \<open>rn\<close> are the starting nonces, \<open>rk\<close> the randomness of CNG.\<close>

definition test_blocks :: "('k, 'd) ext \<Rightarrow> u64 \<Rightarrow> (nat \<Rightarrow> u64) \<Rightarrow> (nat \<Rightarrow> nat) \<Rightarrow> params \<Rightarrow> keypair \<Rightarrow> keypair
    \<Rightarrow> (bool list \<times> tx \<times> 'd pchain) option" where
  "test_blocks E now rn rk p kA kB =
     (let A = addr_of (kpub kA); B = addr_of (kpub kB); (e0, ch0) = chain_init E (\<lambda>_. now) now None (new_chain p);
          t0 = p_genesis_time p + 10 in do {
        b1 \<leftarrow> mine_block ch0 p A [] t0 (rn 0);
        let (e1, ch1) = connect_block E now b1 ch0;
        let (e1', ch1') = connect_block E now b1 ch1;
        pay \<leftarrow> make_transfer (ecng E) (rk 2) kA B 20 0 p;
        b2 \<leftarrow> mine_block ch1' p A [pay] (t0 + 1) (rn 1);
        let (e2, ch2) = connect_block E now b2 ch1';
        Some ([e0 = None, chain_height ch0 = 0, e1 = None, balance (st_get A (cstate ch1)) = 50, e1' \<noteq> None,
            e2 = None, balance (st_get A (cstate ch2)) = 80, balance (st_get B (cstate ch2)) = 20, nonce (st_get A (cstate ch2)) = 1,
            smap_find (txidx ch2) (txid pay) \<noteq> None], pay, ch2)
      })"

definition test_record :: "params \<Rightarrow> keypair \<Rightarrow> string \<Rightarrow> tx" where
  "test_record p kA msg = tx_default\<lparr>tx_type := TX_RECORD, tx_net_id := p_net_id p, tx_from := kpub kA, tx_nonce := 1, tx_payload := str_bytes msg\<rparr>"

definition test_rejects :: "('k, 'd) ext \<Rightarrow> u64 \<Rightarrow> (nat \<Rightarrow> u64) \<Rightarrow> (nat \<Rightarrow> nat) \<Rightarrow> params \<Rightarrow> keypair \<Rightarrow> keypair \<Rightarrow> 'd pchain
    \<Rightarrow> (bool list \<times> 'd pchain) option" where
  "test_rejects E now rn rk p kA kB ch =
     (let A = addr_of (kpub kA); B = addr_of (kpub kB); t0 = p_genesis_time p + 10 in do {
        bad \<leftarrow> make_transfer (ecng E) (rk 3) kA B 5 0 p;
        bb \<leftarrow> mine_block ch p A [bad] (t0 + 2) (rn 2);
        let (e1, ch) = connect_block E now bb ch;
        over \<leftarrow> make_transfer (ecng E) (rk 4) kA B 10000 1 p;
        bo \<leftarrow> mine_block ch p A [over] (t0 + 2) (rn 3);
        let (e2, ch) = connect_block E now bo ch;
        let tr = test_record p kA ''hi'';
        sig \<leftarrow> kp_sign (ecng E) (rk 5) kA (sign_hash tr);
        br \<leftarrow> mine_block ch p A [tr\<lparr>tx_sig := sig, tx_payload := str_bytes ''ho''\<rparr>] (t0 + 2) (rn 4);
        let (e3, ch) = connect_block E now br ch;
        Some ([e1 \<noteq> None, e2 \<noteq> None, e3 \<noteq> None], ch)
      })"

definition test_pool :: "('k, 'd) ext \<Rightarrow> u64 \<Rightarrow> (nat \<Rightarrow> u64) \<Rightarrow> (nat \<Rightarrow> nat) \<Rightarrow> params \<Rightarrow> keypair \<Rightarrow> keypair \<Rightarrow> 'd pchain
    \<Rightarrow> (bool list \<times> 'd pchain) option" where
  "test_pool E now rn rk p kA kB ch =
     (let A = addr_of (kpub kA); B = addr_of (kpub kB); t0 = p_genesis_time p + 10; c = ecng E in do {
        good \<leftarrow> make_transfer c (rk 6) kA B 5 1 p;
        let (e1, mp) = pool_add c good (cstate ch) p mempool0;
        let (e2, mp) = pool_add c good (cstate ch) p mp;
        conflict \<leftarrow> make_transfer c (rk 7) kA B 6 1 p;
        let (e3, mp) = pool_add c conflict (cstate ch) p mp;
        over \<leftarrow> make_transfer c (rk 8) kA B 100000 2 p;
        stale \<leftarrow> make_transfer c (rk 9) kA B 5 0 p;
        let (e4, mp) = pool_add c stale (cstate ch) p mp;
        let sel = collect c mp (cstate ch) p (chain_height ch + 1) 1000;
        b3 \<leftarrow> mine_block ch p A sel (t0 + 3) (rn 5);
        let (e5, ch') = connect_block E now b3 ch;
        let mp = purge (cstate ch') mp;
        Some ([e1 = None, e2 \<noteq> None, e3 \<noteq> None, e4 \<noteq> None, length sel = 1 \<and> txid (sel ! 0) = txid good, e5 = None, pool_size mp = 0], ch')
      })"

fun test_extend :: "('k, 'd) ext \<Rightarrow> u64 \<Rightarrow> (nat \<Rightarrow> u64) \<Rightarrow> params \<Rightarrow> addr20 \<Rightarrow> u64 \<Rightarrow> nat \<Rightarrow> nat \<Rightarrow> 'd pchain \<Rightarrow> (bool list \<times> 'd pchain) option" where
  "test_extend E now rn p to t i 0 ch = Some ([], ch)"
| "test_extend E now rn p to t i (Suc n) ch = do {
     b \<leftarrow> mine_block ch p to [] (t + of_nat i) (rn i);
     let (e, ch) = connect_block E now b ch;
     (cs, ch) \<leftarrow> test_extend E now rn p to t (Suc i) n ch;
     Some ((e = None) # cs, ch)
   }"

definition test_reorg :: "('k, 'd) ext \<Rightarrow> u64 \<Rightarrow> (nat \<Rightarrow> u64) \<Rightarrow> params \<Rightarrow> keypair \<Rightarrow> keypair \<Rightarrow> tx \<Rightarrow> 'd pchain
    \<Rightarrow> (bool list \<times> bool list) option" where
  "test_reorg E now rn p kA kB pay ch =
     (let A = addr_of (kpub kA); Cm = addr_of (kpub kB); t0 = p_genesis_time p + 10;
          main_height = chain_height ch; main_work = work ch; (e0, alt) = chain_init E (\<lambda>_. now) now None (new_chain p) in do {
        (cs, alt) \<leftarrow> test_extend E now (\<lambda>i. rn (10 + i)) p Cm (t0 + 10) 0 (unat (main_height + 2)) alt;
        let (r1, ch) = try_replace E (\<lambda>_. now) (blocks alt) ch;
        let (ra, ch') = try_replace E (\<lambda>_. now) (blocks alt) ch;
        let (e2, worse) = chain_init E (\<lambda>_. now) now None (new_chain p);
        wb \<leftarrow> mine_block worse p A [] (t0 + 50) (rn 6);
        let (e3, worse) = connect_block E now wb worse;
        let r2 = fst (try_replace E (\<lambda>_. now) (blocks worse) ch');
        Some ([e0 = None] @ cs @ [main_work < work alt, \<exists>f. r1 = Inr f, chain_height ch = main_height + 2,
            balance (st_get Cm (cstate ch)) = 50 * (main_height + 2),
            smap_find (cstate ch) A = None \<or> balance (st_get A (cstate ch)) = 0, (\<exists>e. ra = Inl e) \<or> True, e2 = None, e3 = None, \<exists>e. r2 = Inl e],
          [r1 = Inr 1, smap_find (txidx ch) (txid pay) = None])
      })"

record outcomes =
  oc_plain :: "bool list"
  oc_apart :: "bool list"
  oc_million :: "bool list"

text \<open>\<^verbatim>\<open>main\<close>.  Its parameters have \<^verbatim>\<open>bits\<close> 8.\<close>

definition selftest :: "('k, 'd) ext \<Rightarrow> u64 \<Rightarrow> (nat \<Rightarrow> u64) \<Rightarrow> (nat \<Rightarrow> nat) \<Rightarrow> (string \<Rightarrow> bool) \<Rightarrow> files \<Rightarrow> params \<Rightarrow> outcomes option" where
  "selftest E now rn rk can_write fs p =
     (let gA = kp_generate (ecng E) (rk 11); gB = kp_generate (ecng E) (rk 12) in do {
     kA \<leftarrow> gA;
     kB \<leftarrow> gB;
     (k1, k2) \<leftarrow> test_keys (ecng E) rk can_write fs kA kB;
     (x1, x2) \<leftarrow> test_tx (ecng E) (rk 10) p kA kB;
     (c1, pay, ch) \<leftarrow> test_blocks E now rn rk p kA kB;
     (j1, ch) \<leftarrow> test_rejects E now rn rk p kA kB ch;
     (m1, ch) \<leftarrow> test_pool E now rn rk p kA kB ch;
     (r1, r2) \<leftarrow> test_reorg E now rn p kA kB pay ch;
     Some \<lparr>oc_plain = test_hash @ test_hex @ test_pow @ [gA \<noteq> None \<and> gB \<noteq> None] @ k1 @ fst test_merkle @ x1 @ fst (test_genesis p) @ c1 @ j1 @ m1 @ r1,
       oc_apart = k2 @ snd test_merkle @ x2 @ snd (test_genesis p) @ r2, oc_million = test_million\<rparr>
   })"

section \<open>Mining in the tests\<close>

lemma mine_nonce_Some:
  assumes "mine_nonce bits h = Some h'"
  shows "pow_ok (header_hash h') bits \<and> h\<lparr>h_nonce := h_nonce h'\<rparr> = h'"
  by (rule mine_nonce.raw_induct [OF _ assms]) (fastforce split: if_splits)

lemma mine_nonce_returns:
  "pow_ok (header_hash (h\<lparr>h_nonce := h_nonce h + of_nat k\<rparr>)) bits \<Longrightarrow> \<exists>h'. mine_nonce bits h = Some h'"
proof (induction k arbitrary: h)
  case 0
  then show ?case by (subst mine_nonce.simps) simp
next
  case (Suc k)
  have "h_nonce h + of_nat (Suc k) = (h_nonce h + 1) + (of_nat k :: u64)" by simp
  with Suc.prems have "pow_ok (header_hash (h\<lparr>h_nonce := (h_nonce h + 1) + of_nat k\<rparr>)) bits" by (simp only:)
  then have "\<exists>h'. mine_nonce bits (h\<lparr>h_nonce := h_nonce h + 1\<rparr>) = Some h'"
    using Suc.IH [of "h\<lparr>h_nonce := h_nonce h + 1\<rparr>"] by simp
  then show ?case by (subst mine_nonce.simps) simp
qed

text \<open>The chain a test works on.\<close>

definition test_ok :: "('k, 'd) ext \<Rightarrow> params \<Rightarrow> 'd pchain \<Rightarrow> bool" where
  "test_ok E p ch \<longleftrightarrow> chain_ok (ecng E) ch \<and> cparams ch = p \<and> blocks ch \<noteq> []"

lemma test_ok_maps: "test_ok E p ch \<Longrightarrow> smap_ok (txidx ch) \<and> smap_ok (cstate ch)"
  by (simp add: test_ok_def chain_ok_def fold_index_block)

lemma test_mined:
  assumes ok: "test_ok E p ch" and m: "mine_block ch p to ts t nc = Some b"
    and ts: "list_all tx_arrays ts" "length ts \<le> 1000" "length to = 20" and clk: "t \<le> now + MAX_TIME_SKEW_S"
  shows "block_arrays b" "txs b = coinbase_tx p to (chain_height ch + 1) # ts" "h_height (hdr b) = chain_height ch + 1"
    "accepts E now ch b \<longleftrightarrow> runs (ecng E) p (chain_height ch + 1) 0 (cstate ch) (coinbase_tx p to (chain_height ch + 1) # ts)"
proof -
  define cb where "cb = coinbase_tx p to (chain_height ch + 1)"
  define h0 where "h0 = header_default\<lparr>h_version := CL_VERSION, h_net_id := p_net_id p, h_prev := tip_hash ch,
    h_merkle := merkle_root (map txid (cb # ts)), h_height := chain_height ch + 1, h_time := t, h_bits := p_bits p, h_nonce := nc\<rparr>"
  obtain h where h: "mine_nonce (p_bits p) h0 = Some h" "b = \<lparr>hdr = h, txs = cb # ts\<rparr>"
    using m unfolding mine_block_def Let_def coinbase_tx_def [symmetric] cb_def [symmetric] h0_def [symmetric]
    by (auto split: bind_splits)
  from mine_nonce_Some [OF h(1)] have h': "pow_ok (header_hash h) (p_bits p)" "h = h0\<lparr>h_nonce := h_nonce h\<rparr>" by simp_all
  have f: "h_version h = CL_VERSION" "h_net_id h = p_net_id p" "h_prev h = tip_hash ch" "h_merkle h = merkle_root (map txid (cb # ts))"
      "h_height h = chain_height ch + 1" "h_time h = t" "h_bits h = p_bits p"
    by (subst h'(2), simp add: h0_def)+
  have ch: "chain_ok (ecng E) ch" "cparams ch = p" "blocks ch \<noteq> []" using ok by (simp_all add: test_ok_def)
  have tip: "tip_hash ch = header_hash (hdr (last (blocks ch)))" using chain_ok_tip [OF ch(1,3)] .
  have height: "chain_height ch = h_height (hdr (last (blocks ch)))" using ch(3) by (simp add: chain_height_def)
  show "block_arrays b"
    using h(2) f ts(1,3) tip length_merkle_root [of "cb # ts"]
    by (simp add: block_arrays_def header_ok_def tx_arrays_def header_hash_def len_simps del: list.map)
      (simp add: cb_def coinbase_tx_def tx_default_def)
  show "txs b = coinbase_tx p to (chain_height ch + 1) # ts" "h_height (hdr b) = chain_height ch + 1"
    using h(2) f(5) by (simp_all add: cb_def)
  show "accepts E now ch b \<longleftrightarrow> runs (ecng E) p (chain_height ch + 1) 0 (cstate ch) (coinbase_tx p to (chain_height ch + 1) # ts)"
    unfolding cb_def [symmetric] using h(2) h'(1) f ch tip height ts(2) clk
    by (simp add: accepts_def extends_ok_def chain_ok_def clock_ok_def MAX_BLOCK_TXS_def del: runs.simps list.map)
qed

text \<open>A mined block is connected when its transactions run, and refused otherwise.\<close>

lemma test_connect:
  assumes ok: "test_ok E p ch" and m: "mine_block ch p to ts t nc = Some b" and ts: "list_all tx_arrays ts" "length ts \<le> 1000" "length to = 20"
    and clk: "t \<le> now + MAX_TIME_SKEW_S" and r: "runs (ecng E) p (chain_height ch + 1) 1 (st_credit to (p_reward p) (cstate ch)) ts"
  shows "connect_block E now b ch = (None, connected E b ch)" "test_ok E p (connected E b ch)"
    "cstate (connected E b ch) = fold tx_effect ts (st_credit to (p_reward p) (cstate ch))"
    "chain_height (connected E b ch) = chain_height ch + 1" "blocks (connected E b ch) = blocks ch @ [b]"
    "txidx (connected E b ch) = index_block b (txidx ch)" "txs b = coinbase_tx p to (chain_height ch + 1) # ts"
    "clock_ok now b"
proof -
  note mn = test_mined [OF ok m ts clk]
  have ch: "chain_ok (ecng E) ch" "cparams ch = p" "blocks ch \<noteq> []" using ok by (simp_all add: test_ok_def)
  have acc: "accepts E now ch b"
    unfolding mn(4) using coinbase_applies r by simp
  show "connect_block E now b ch = (None, connected E b ch)" by (rule connect_block_ok [OF ch(1) acc])
  have ok': "chain_ok (ecng E) (connected E b ch)" by (rule chain_ok_connected [OF ch(1) acc mn(1)])
  then show "test_ok E p (connected E b ch)" using ch by (simp add: test_ok_def chain_simps)
  show "cstate (connected E b ch) = fold tx_effect ts (st_credit to (p_reward p) (cstate ch))"
    using ok' ch(1) mn(2) coinbase_applies(2) by (simp add: chain_ok_def chain_simps replay_snoc)
  show "chain_height (connected E b ch) = chain_height ch + 1" using mn(3) by (simp add: chain_height_def chain_simps)
  show "blocks (connected E b ch) = blocks ch @ [b]" by (simp add: chain_simps)
  show "txidx (connected E b ch) = index_block b (txidx ch)" by (simp add: connected_def chain_simps)
  show "txs b = coinbase_tx p to (chain_height ch + 1) # ts" by (rule mn)
  show "clock_ok now b" using acc ch(3) by (simp add: accepts_def)
qed

lemma test_refuse:
  assumes ok: "test_ok E p ch" and m: "mine_block ch p to ts t nc = Some b" and ts: "list_all tx_arrays ts" "length ts \<le> 1000" "length to = 20"
    and clk: "t \<le> now + MAX_TIME_SKEW_S" and r: "\<not> runs (ecng E) p (chain_height ch + 1) 1 (st_credit to (p_reward p) (cstate ch)) ts"
  obtains e where "connect_block E now b ch = (Some e, ch)"
proof -
  have ch: "chain_ok (ecng E) ch" using ok by (simp add: test_ok_def)
  have "\<not> accepts E now ch b"
    unfolding test_mined(4) [OF ok m ts clk] using coinbase_applies r by simp
  then obtain e ch' where c: "connect_block E now b ch = (Some e, ch')"
    using connect_block_ok_iff [OF ch, of now b] by (cases "connect_block E now b ch") auto
  with connect_failed [OF c] that show ?thesis by simp
qed

lemma test_twice:
  assumes "test_ok E p ch" "last (blocks ch) = b"
  obtains e where "connect_block E now b ch = (Some e, ch)"
proof -
  have ch: "chain_ok (ecng E) ch" "blocks ch \<noteq> []" using assms(1) by (simp_all add: test_ok_def)
  have "\<not> accepts E now ch b" using ch(2) assms(2) by (simp add: accepts_def extends_ok_def)
  then obtain e ch' where c: "connect_block E now b ch = (Some e, ch')"
    using connect_block_ok_iff [OF ch(1), of now b] by (cases "connect_block E now b ch") auto
  with connect_failed [OF c] that show ?thesis by simp
qed

lemma test_init:
  assumes "chain_init E clk now None (new_chain p) = (e, ch)"
  shows "e = None" "test_ok E p ch" "cstate ch = []" "chain_height ch = 0" "blocks ch = [make_genesis p]"
proof -
  let ?c = "(new_chain p)\<lparr>cdb := None\<rparr>"
  have acc: "accepts E now ?c (make_genesis p)"
    by (simp add: accepts_def genesis_ok_def genesis_arrays)
  have eq: "(e, ch) = (None, connected E (make_genesis p) ?c)"
    using assms connect_block_ok [OF _ acc] by (simp add: chain_init_def)
  then show "e = None" "blocks ch = [make_genesis p]" by (simp_all add: chain_simps)
  have "chain_ok (ecng E) ch"
    using chain_ok_connected [OF _ acc genesis_arrays(1)] eq by simp
  then show "test_ok E p ch" using eq by (simp add: test_ok_def chain_simps)
  then show "cstate ch = []" using eq by (simp add: test_ok_def chain_ok_def replay_def chain_simps genesis_arrays)
  show "chain_height ch = 0" using eq by (simp add: chain_height_def chain_simps make_genesis_def)
qed

section \<open>Transfers in the tests\<close>

lemma make_transfer_build: "make_transfer c rnd kp to amount n p = build_tx c rnd kp TX_TRANSFER to amount [] (p_net_id p) n"
  by (simp add: make_transfer_def build_tx_def Let_def tx_default_def split: option.splits bind_splits)

lemma make_transfer_Some:
  assumes "cng_laws c" "kp_ok kp" "make_transfer c rnd kp to amount n p = Some t" "length to = 20"
  shows "tx_type t = TX_TRANSFER" "tx_amount t = amount" "tx_nonce t = n" "tx_to t = to" "sender t = addr_of (kpub kp)"
    "tx_arrays t" "\<not> is_zero (kpub kp) \<Longrightarrow> tx_static_ok c t p h False"
proof -
  note b = build_tx_Some [OF assms(1,2) assms(3) [unfolded make_transfer_build]]
  have "length (kpub kp) = 64" using assms(2) by (simp add: kp_ok_def kp_valid_def)
  then show "tx_arrays t" using b assms(4) by (simp add: tx_arrays_def)
  show "\<not> is_zero (kpub kp) \<Longrightarrow> tx_static_ok c t p h False" using b by (simp add: tx_static_ok_def txtype_defs)
qed (use build_tx_Some [OF assms(1,2) assms(3) [unfolded make_transfer_build]] in \<open>simp_all add: sender_def\<close>)

lemma transfer_runs:
  assumes "cng_laws c" "kp_ok kp" "\<not> is_zero (kpub kp)" "make_transfer c rnd kp to amount n p = Some t" "length to = 20" "smap_ok st"
  shows "runs c p h 1 st [t] \<longleftrightarrow> nonce (st_get (addr_of (kpub kp)) st) = n \<and> amount \<le> balance (st_get (addr_of (kpub kp)) st)"
  using make_transfer_Some [OF assms(1,2,4,5)] assms(3) apply_tx_success_iff [OF assms(6), of c t p h False]
  by (simp add: txtype_defs)

text \<open>The assumptions of the tests: default parameters with some difficulty, two generated keys with different addresses,
  and a clock after the genesis time.\<close>

definition test_setup :: "'k cng \<Rightarrow> u64 \<Rightarrow> params \<Rightarrow> keypair \<Rightarrow> keypair \<Rightarrow> bool" where
  "test_setup c now p kA kB \<longleftrightarrow> cng_laws c \<and> kp_ok kA \<and> kp_ok kB \<and> \<not> is_zero (kpub kA) \<and> addr_of (kpub kA) \<noteq> addr_of (kpub kB) \<and>
     p_reward p = 50 \<and> p_genesis_time p = 1753000000 \<and> unat (p_bits p) \<le> 32 \<and> 1753001000 \<le> now \<and> now \<le> 0x4000000000000000"

lemma test_clock:
  assumes "test_setup c now p kA kB" "t \<le> 1753001000"
  shows "t \<le> now + MAX_TIME_SKEW_S"
proof -
  have n: "1753001000 \<le> now" "now \<le> 0x4000000000000000" using assms(1) by (simp_all add: test_setup_def)
  have "unat now \<le> 0x4000000000000000" using n(2) by (simp add: word_le_nat_alt)
  then have "unat (now + MAX_TIME_SKEW_S) = unat now + 7200"
    by (subst unat_plus_no_wrap) (simp_all add: MAX_TIME_SKEW_S_def)
  then have "now \<le> now + MAX_TIME_SKEW_S" by (simp add: word_le_nat_alt)
  then show ?thesis using n(1) assms(2) by simp
qed

lemma test_blocks_pass:
  assumes su: "test_setup (ecng E) now p kA kB" and r: "test_blocks E now rn rk p kA kB = Some (cs, pay, ch)"
  shows "list_all id cs" "test_ok E p ch" "chain_height ch = 2" "length (blocks ch) = 3"
    "st_get (addr_of (kpub kA)) (cstate ch) = \<lparr>balance = 80, nonce = 1\<rparr>" "st_get (addr_of (kpub kB)) (cstate ch) = \<lparr>balance = 20, nonce = 0\<rparr>"
proof -
  let ?A = "addr_of (kpub kA)" and ?B = "addr_of (kpub kB)" and ?t = "p_genesis_time p + 10"
  have p: "p_reward p = 50" "p_genesis_time p = 1753000000" and k: "cng_laws (ecng E)" "kp_ok kA" "\<not> is_zero (kpub kA)" "?A \<noteq> ?B"
    using su by (simp_all add: test_setup_def)
  obtain e0 ch0 where i: "chain_init E (\<lambda>_. now) now None (new_chain p) = (e0, ch0)" by fastforce
  note i' = test_init [OF i]
  obtain b1 where b1: "mine_block ch0 p ?A [] ?t (rn 0) = Some b1"
    using r i by (auto simp: test_blocks_def Let_def split: bind_splits)
  have "?t \<le> now + MAX_TIME_SKEW_S" using p(2) by (intro test_clock [OF su]) simp
  note c1 = test_connect [OF i'(2) b1 _ _ _ this, simplified]
  obtain e1' where e1': "connect_block E now b1 (connected E b1 ch0) = (Some e1', connected E b1 ch0)"
    by (rule test_twice [OF c1(2)]) (simp_all add: c1(5))
  obtain t2 where pay: "make_transfer (ecng E) (rk 2) kA ?B 20 0 p = Some t2"
    using r i b1 c1(1) e1' by (auto simp: test_blocks_def Let_def split: bind_splits)
  obtain b2 where b2: "mine_block (connected E b1 ch0) p ?A [t2] (?t + 1) (rn 1) = Some b2"
    using r i b1 c1(1) e1' pay by (auto simp: test_blocks_def Let_def split: bind_splits)
  have clk2: "?t + 1 \<le> now + MAX_TIME_SKEW_S" using p(2) by (intro test_clock [OF su]) simp
  have st1: "cstate (connected E b1 ch0) = st_credit ?A 50 []" using c1(3) p(1) i'(3) by simp
  note tf = make_transfer_Some [OF k(1,2) pay length_addr_of]
  have run: "runs (ecng E) p (chain_height (connected E b1 ch0) + 1) 1 (st_credit ?A (p_reward p) (cstate (connected E b1 ch0))) [t2]"
    using transfer_runs [OF k(1-3) pay length_addr_of] by (simp add: st1 p(1) ledger_simps account0_def)
  note c2 = test_connect [OF c1(2) b2 _ _ length_addr_of clk2 run]
  have c2': "connect_block E now b2 (connected E b1 ch0) = (None, connected E b2 (connected E b1 ch0))"
      "cstate (connected E b2 (connected E b1 ch0)) = tx_effect t2 (st_credit ?A 50 (st_credit ?A 50 []))"
      "smap_find (txidx (connected E b2 (connected E b1 ch0))) (txid t2) \<noteq> None"
      "test_ok E p (connected E b2 (connected E b1 ch0))"
    using c2 tf(6) p(1) st1 test_ok_maps [OF c1(2)] by (simp_all add: index_block_def smap_find_put smap_ok_put)
  have res: "cs = [e0 = None, chain_height ch0 = 0, True, balance (st_get ?A (cstate (connected E b1 ch0))) = 50, True,
      True, balance (st_get ?A (cstate ch)) = 80, balance (st_get ?B (cstate ch)) = 20, nonce (st_get ?A (cstate ch)) = 1,
      smap_find (txidx ch) (txid t2) \<noteq> None]" "ch = connected E b2 (connected E b1 ch0)"
    using r i b1 c1(1) e1' pay b2 c2'(1) by (auto simp: test_blocks_def Let_def)
  show sA: "st_get ?A (cstate ch) = \<lparr>balance = 80, nonce = 1\<rparr>" and sB: "st_get ?B (cstate ch) = \<lparr>balance = 20, nonce = 0\<rparr>"
    using k(4) tf by (simp_all add: res(2) c2'(2) ledger_simps account0_def txtype_defs)
  show "list_all id cs"
    using sA sB c2'(3) i'(1,4) by (simp add: res(1) st1 ledger_simps account0_def) (simp add: res(2))
  show "test_ok E p ch" "chain_height ch = 2" "length (blocks ch) = 3"
    using c2 c1(4) i'(4,5) c1(5) tf(6) by (simp_all add: res(2) chain_simps)
qed

text \<open>CNG accepts the signature of one record for another.\<close>

definition record_forged :: "'k cng \<Rightarrow> params \<Rightarrow> keypair \<Rightarrow> bool" where
  "record_forged c p kp \<longleftrightarrow> (\<exists>rnd sig. kp_sign c rnd kp (sign_hash (test_record p kp ''hi'')) = Some sig \<and>
     sig_verify c (kpub kp) (sign_hash (test_record p kp ''ho'')) sig)"

lemma test_rejects_pass:
  assumes su: "test_setup (ecng E) now p kA kB" and ok: "test_ok E p ch"
    and st: "st_get (addr_of (kpub kA)) (cstate ch) = \<lparr>balance = 80, nonce = 1\<rparr>"
    and r: "test_rejects E now rn rk p kA kB ch = Some (cs, ch')" and nf: "\<not> record_forged (ecng E) p kA"
  shows "list_all id cs \<and> ch' = ch"
proof -
  let ?A = "addr_of (kpub kA)" and ?B = "addr_of (kpub kB)" and ?t = "p_genesis_time p + 10 + 2"
  have p: "p_reward p = 50" "p_genesis_time p = 1753000000" and k: "cng_laws (ecng E)" "kp_ok kA" "\<not> is_zero (kpub kA)" "?A \<noteq> ?B"
    using su by (simp_all add: test_setup_def)
  have clk: "?t \<le> now + MAX_TIME_SKEW_S" using p(2) by (intro test_clock [OF su]) simp
  have sm: "smap_ok (cstate ch)" using test_ok_maps [OF ok] by simp
  obtain t1 where t1: "make_transfer (ecng E) (rk 3) kA ?B 5 0 p = Some t1"
    using r by (auto simp: test_rejects_def Let_def split: bind_splits)
  obtain b1 where b1: "mine_block ch p ?A [t1] ?t (rn 2) = Some b1"
    using r t1 by (auto simp: test_rejects_def Let_def split: bind_splits)
  obtain e1 where c1: "connect_block E now b1 ch = (Some e1, ch)"
    using test_refuse [OF ok b1 _ _ length_addr_of clk] make_transfer_Some(6) [OF k(1,2) t1 length_addr_of]
      transfer_runs [OF k(1-3) t1 length_addr_of] sm st by (auto simp: ledger_simps p(1) simp del: runs.simps)
  obtain t2 where t2: "make_transfer (ecng E) (rk 4) kA ?B 10000 1 p = Some t2"
    using r t1 b1 c1 by (auto simp: test_rejects_def Let_def split: bind_splits)
  obtain b2 where b2: "mine_block ch p ?A [t2] ?t (rn 3) = Some b2"
    using r t1 b1 c1 t2 by (auto simp: test_rejects_def Let_def split: bind_splits)
  obtain e2 where c2: "connect_block E now b2 ch = (Some e2, ch)"
    using test_refuse [OF ok b2 _ _ length_addr_of clk] make_transfer_Some(6) [OF k(1,2) t2 length_addr_of]
      transfer_runs [OF k(1-3) t2 length_addr_of] sm st by (auto simp: ledger_simps p(1) simp del: runs.simps)
  obtain sig b3 where b3: "kp_sign (ecng E) (rk 5) kA (sign_hash (test_record p kA ''hi'')) = Some sig"
      "mine_block ch p ?A [(test_record p kA ''hi'')\<lparr>tx_sig := sig, tx_payload := str_bytes ''ho''\<rparr>] ?t (rn 4) = Some b3"
    using r t1 b1 c1 t2 b2 c2 by (auto simp: test_rejects_def Let_def split: bind_splits)
  let ?r = "(test_record p kA ''hi'')\<lparr>tx_sig := sig, tx_payload := str_bytes ''ho''\<rparr>"
  have "sign_hash ?r = sign_hash (test_record p kA ''ho'')"
    by (simp add: sign_hash_def tx_ser_def test_record_def)
  then have "\<not> tx_static_ok (ecng E) ?r p h False" for h
    using nf b3(1) by (auto simp: tx_static_ok_def record_forged_def test_record_def txtype_defs)
  then have no: "\<not> runs (ecng E) p (chain_height ch + 1) 1 (st_credit ?A (p_reward p) (cstate ch)) [?r]"
    using apply_tx_success_iff [of "st_credit ?A (p_reward p) (cstate ch)" "ecng E" ?r p "chain_height ch + 1" False] sm by (simp add: ledger_simps)
  have "length (kpub kA) = 64" "length sig = 64" using k(2) kp_sign_verifies(2) [OF k(1,2) b3(1)] by (simp_all add: kp_ok_def kp_valid_def)
  then have "tx_arrays ?r" by (simp add: tx_arrays_def test_record_def tx_default_def)
  then obtain e3 where c3: "connect_block E now b3 ch = (Some e3, ch)"
    using test_refuse [OF ok b3(2) _ _ length_addr_of clk no] by auto
  show ?thesis
    using r t1 b1 c1 t2 b2 c2 b3 c3 by (auto simp: test_rejects_def Let_def split: bind_splits prod.splits)
qed

lemma test_pool_pass:
  assumes su: "test_setup (ecng E) now p kA kB" and ok: "test_ok E p ch"
    and st: "st_get (addr_of (kpub kA)) (cstate ch) = \<lparr>balance = 80, nonce = 1\<rparr>"
    and r: "test_pool E now rn rk p kA kB ch = Some (cs, ch')"
  shows "list_all id cs" "test_ok E p ch'" "chain_height ch' = chain_height ch + 1" "length (blocks ch') = length (blocks ch) + 1"
proof -
  let ?A = "addr_of (kpub kA)" and ?B = "addr_of (kpub kB)" and ?t = "p_genesis_time p + 10 + 3" and ?c = "ecng E" and ?st = "cstate ch"
  have p: "p_reward p = 50" "p_genesis_time p = 1753000000" and k: "cng_laws (ecng E)" "kp_ok kA" "\<not> is_zero (kpub kA)" "?A \<noteq> ?B"
    using su by (simp_all add: test_setup_def)
  have clk: "?t \<le> now + MAX_TIME_SKEW_S" using p(2) by (intro test_clock [OF su]) simp
  have sm: "smap_ok ?st" using test_ok_maps [OF ok] by simp
  have fn: "find_nonce ?A ?st = 1" "find_balance ?A ?st = 80" using st by (simp_all add: find_st_get)
  obtain t1 where t1: "make_transfer ?c (rk 6) kA ?B 5 1 p = Some t1"
    using r by (auto simp: test_pool_def Let_def split: bind_splits)
  note f1 = make_transfer_Some [OF k(1,2) t1 length_addr_of]
  define m where "m = \<lparr>pm = [((?A, 1), t1)], pids = {txid t1}\<rparr>"
  have "fst (pool_add ?c t1 ?st p mempool0) = None"
    unfolding pool_add_outcome using f1 k(3) fn by (simp add: mempool0_def txtype_defs)
  then have a1: "pool_add ?c t1 ?st p mempool0 = (None, m)"
    using pool_add_state [of ?c t1 ?st p mempool0] f1 by (cases "pool_add ?c t1 ?st p mempool0") (simp add: mempool0_def m_def smap_put_def)
  have again: "\<exists>e. pool_add ?c t ?st p m = (Some e, m)" if "sender t = ?A" "tx_nonce t = 1 \<or> tx_nonce t = 0" for t
  proof -
    have "fst (pool_add ?c t ?st p m) \<noteq> None"
      unfolding pool_add_outcome using that fn by (auto simp: m_def smap_find_def)
    then show ?thesis using pool_add_state [of ?c t ?st p m] by (cases "pool_add ?c t ?st p m") auto
  qed
  obtain e2 where a2: "pool_add ?c t1 ?st p m = (Some e2, m)" using again [of t1] f1 by auto
  obtain t3 where t3: "make_transfer ?c (rk 7) kA ?B 6 1 p = Some t3"
    using r t1 a1 a2 by (auto simp: test_pool_def Let_def split: bind_splits)
  obtain e3 where a3: "pool_add ?c t3 ?st p m = (Some e3, m)"
    using again [of t3] make_transfer_Some [OF k(1,2) t3 length_addr_of] by auto
  obtain t4 t5 where t4: "make_transfer ?c (rk 8) kA ?B 100000 2 p = Some t4" "make_transfer ?c (rk 9) kA ?B 5 0 p = Some t5"
    using r t1 a1 a2 t3 a3 by (auto simp: test_pool_def Let_def split: bind_splits)
  obtain e4 where a4: "pool_add ?c t5 ?st p m = (Some e4, m)"
    using again [of t5] make_transfer_Some [OF k(1,2) t4(2) length_addr_of] by auto
  have sel: "collect ?c m ?st p (chain_height ch + 1) 1000 = [t1]"
  proof -
    have "fst (apply_tx ?c ?st t1 p (chain_height ch + 1) False) = None"
      using f1 k(3) st apply_tx_success_iff [OF sm, of ?c t1] by (simp add: txtype_defs)
    then have ap: "apply_tx ?c ?st t1 p (chain_height ch + 1) False = (None, tx_effect t1 ?st)"
      using apply_tx_effect by (metis prod.collapse)
    have "find_nonce ?A (tx_effect t1 ?st) = 2"
      using sm f1 st by (simp add: find_st_get ledger_simps txtype_defs)
    then show ?thesis
      using fn ap by (simp add: collect_def m_def) (subst collect_loop.simps, simp, subst collect_loop.simps, simp)
  qed
  obtain b where b: "mine_block ch p ?A [t1] ?t (rn 5) = Some b"
    using r t1 a1 a2 t3 a3 t4 a4 sel by (auto simp: test_pool_def Let_def split: bind_splits)
  have run: "runs ?c p (chain_height ch + 1) 1 (st_credit ?A (p_reward p) ?st) [t1]"
    using transfer_runs [OF k(1-3) t1 length_addr_of] sm st by (simp add: ledger_simps p(1) del: runs.simps)
  note co = test_connect [OF ok b _ _ length_addr_of clk run]
  have c5: "connect_block E now b ch = (None, connected E b ch)" "test_ok E p (connected E b ch)"
      "cstate (connected E b ch) = tx_effect t1 (st_credit ?A 50 ?st)"
    using co f1(6) p(1) by simp_all
  have "find_nonce ?A (cstate (connected E b ch)) = 2"
    using sm f1 st by (simp add: c5(3) find_st_get ledger_simps txtype_defs)
  then have "purge (cstate (connected E b ch)) m = mempool0"
    by (simp add: purge_def m_def mempool0_def smap_erase_def)
  then have res: "cs = [True, True, True, True, True, True, True] \<and> ch' = connected E b ch"
    using r t1 a1 a2 t3 a3 t4 a4 sel b c5(1) by (auto simp: test_pool_def Let_def pool_size_def mempool0_def)
  then show "list_all id cs" "test_ok E p ch'" "chain_height ch' = chain_height ch + 1" "length (blocks ch') = length (blocks ch) + 1"
    using co f1(6) by (simp_all add: chain_simps)
qed

section \<open>The reorganisation test\<close>

lemma test_extend_pass:
  assumes su: "test_setup (ecng E) now p kA kB" and to: "length to = 20"
  shows "test_ok E p ch \<Longrightarrow> (\<And>k. k < n \<Longrightarrow> t + of_nat (i + k) \<le> 1753001000) \<Longrightarrow> test_extend E now rn p to t i n ch = Some (cs, ch') \<Longrightarrow>
    list_all id cs \<and> test_ok E p ch' \<and> length (blocks ch') = length (blocks ch) + n \<and> chain_height ch' = chain_height ch + of_nat n \<and>
    balance (st_get to (cstate ch')) = balance (st_get to (cstate ch)) + 50 * of_nat n \<and>
    (\<forall>a. a \<noteq> to \<longrightarrow> st_get a (cstate ch') = st_get a (cstate ch)) \<and> (\<forall>b \<in> set (blocks ch'). b \<in> set (blocks ch) \<or> clock_ok now b)"
proof (induction n arbitrary: ch i cs)
  case (Suc n)
  obtain b where b: "mine_block ch p to [] (t + of_nat i) (rn i) = Some b"
    using Suc.prems(3) by (auto simp: Let_def split: bind_splits)
  have "t + of_nat i \<le> now + MAX_TIME_SKEW_S" using Suc.prems(2) [of 0] by (intro test_clock [OF su]) simp
  note c = test_connect [OF Suc.prems(1) b _ _ to this, simplified]
  obtain cs' where cs: "test_extend E now rn p to t (Suc i) n (connected E b ch) = Some (cs', ch')" "cs = True # cs'"
    using Suc.prems(3) b c(1) by (auto simp: Let_def split: bind_splits)
  have "p_reward p = 50" using su by (simp add: test_setup_def)
  then have st: "cstate (connected E b ch) = st_credit to 50 (cstate ch)" using c(3) by simp
  have clk: "t + of_nat (Suc i + k) \<le> 1753001000" if "k < n" for k using Suc.prems(2) [of "Suc k"] that by simp
  from Suc.IH [OF c(2) clk cs(1)] show ?case
    using test_ok_maps [OF Suc.prems(1)] c(4,5,8) by (auto simp: cs(2) st ledger_simps algebra_simps)
qed simp

lemma test_work:
  assumes "test_setup c now p kA kB" "n \<le> 6"
  shows "total_work p n < 2 ^ 64"
proof -
  have bits: "unat (p_bits p) \<le> 32" using assms(1) by (simp add: test_setup_def)
  then have "\<not> 63 \<le> p_bits p" by (simp add: word_le_nat_alt)
  then have "work_of (p_bits p) = of_nat (2 ^ unat (p_bits p))" by (simp add: work_of_def push_bit_eq_mult)
  then have "unat (work_of (p_bits p)) \<le> 2 ^ unat (p_bits p)" by (simp only: unat_of_nat mod_less_eq_dividend)
  also have "\<dots> \<le> 2 ^ 32" using bits by (intro power_increasing) simp_all
  finally have "(n - 1) * unat (work_of (p_bits p)) \<le> 5 * 2 ^ 32" using assms(2) by (intro mult_le_mono) simp_all
  then show ?thesis by (simp add: total_work_def)
qed

lemma test_compare:
  assumes su: "test_setup (ecng E) now p kA kB" and ch: "test_ok E p ch" "test_ok E p ch'"
    and len: "length (blocks ch) \<le> 6" "length (blocks ch') \<le> 6"
  shows "work ch < work ch' \<longleftrightarrow> length (blocks ch) < length (blocks ch')"
  using most_work_longest [of "ecng E" ch ch'] ch test_work [OF su len(1)] test_work [OF su len(2)] by (simp add: test_ok_def)

text \<open>Replacing the chain by that of another one succeeds exactly when the other one is longer.\<close>

lemma test_replace:
  assumes su: "test_setup (ecng E) now p kA kB" and ch: "test_ok E p ch" "test_ok E p alt"
    and len: "length (blocks ch) \<le> 6" "length (blocks alt) \<le> 6"
    and clk: "\<And>k. 0 < k \<Longrightarrow> k < length (blocks alt) \<Longrightarrow> clock_ok now (blocks alt ! k)"
  shows "length (blocks ch) < length (blocks alt) \<Longrightarrow> \<exists>f ch'. try_replace E (\<lambda>_. now) (blocks alt) ch = (Inr f, ch') \<and> test_ok E p ch' \<and>
      blocks ch' = blocks alt \<and> cstate ch' = cstate alt"
    "\<not> length (blocks ch) < length (blocks alt) \<Longrightarrow> \<exists>e. try_replace E (\<lambda>_. now) (blocks alt) ch = (Inl e, ch)"
proof -
  have c: "chain_ok (ecng E) ch" "chain_ok (ecng E) alt" "cparams ch = p" "cparams alt = p" "blocks alt \<noteq> []"
    using ch by (simp_all add: test_ok_def)
  have arr: "list_all block_arrays (blocks alt)"
    using c(2) valid_chain_arrays by (auto simp: chain_ok_def list_all_iff)
  obtain r ch' where r: "try_replace E (\<lambda>_. now) (blocks alt) ch = (r, ch')" by fastforce
  have iff: "(\<exists>f. r = Inr f) \<longleftrightarrow> length (blocks ch) < length (blocks alt)"
    using try_replace_iff [OF c(1) arr, of "\<lambda>_. now"] test_compare [OF su ch len] c clk r by (auto simp: chain_ok_def)
  show "\<exists>f ch'. try_replace E (\<lambda>_. now) (blocks alt) ch = (Inr f, ch') \<and> test_ok E p ch' \<and> blocks ch' = blocks alt \<and> cstate ch' = cstate alt"
    if longer: "length (blocks ch) < length (blocks alt)"
  proof -
    obtain f where f: "try_replace E (\<lambda>_. now) (blocks alt) ch = (Inr f, ch')" using iff longer r by auto
    note t = try_replace_ok [OF c(1) arr f]
    have "cstate ch' = cstate alt" using t(1,2) c(2) by (simp add: chain_ok_def)
    then show ?thesis using f t c(3,5) by (simp add: test_ok_def)
  qed
  show "\<not> length (blocks ch) < length (blocks alt) \<Longrightarrow> \<exists>e. try_replace E (\<lambda>_. now) (blocks alt) ch = (Inl e, ch)"
    using iff r try_replace_err [of E "\<lambda>_. now" "blocks alt" ch] by (cases r) auto
qed

lemma test_reorg_pass:
  assumes su: "test_setup (ecng E) now p kA kB" and ok: "test_ok E p ch" "chain_height ch = 3" "length (blocks ch) = 4"
    and r: "test_reorg E now rn p kA kB pay ch = Some (cs, ds)"
  shows "list_all id cs"
proof -
  let ?A = "addr_of (kpub kA)" and ?B = "addr_of (kpub kB)" and ?t = "p_genesis_time p + 10"
  have p: "p_reward p = 50" "p_genesis_time p = 1753000000" "?A \<noteq> ?B" using su by (simp_all add: test_setup_def)
  obtain e0 ch0 where i: "chain_init E (\<lambda>_. now) now None (new_chain p) = (e0, ch0)" by fastforce
  note i' = test_init [OF i]
  obtain cs1 alt where x: "test_extend E now (\<lambda>i. rn (10 + i)) p ?B (?t + 10) 0 5 ch0 = Some (cs1, alt)"
    using r i ok(2) by (auto simp: test_reorg_def Let_def split: bind_splits)
  have clk: "?t + 10 + of_nat (0 + k) \<le> 1753001000" if "k < 5" for k
    using that p(2) by (simp add: less_Suc_eq numeral_eq_Suc) auto
  note x' = test_extend_pass [OF su length_addr_of i'(2) clk x]
  have alt: "list_all id cs1" "test_ok E p alt" "length (blocks alt) = 6" "chain_height alt = 5" "balance (st_get ?B (cstate alt)) = 250"
      "st_get ?A (cstate alt) = account0"
    using x' i'(3,4,5) p(3) by (simp_all add: account0_def)
  have "clock_ok now (make_genesis p)"
    using test_clock [OF su, of "p_genesis_time p"] p(2) by (simp add: clock_ok_def make_genesis_def)
  then have "\<forall>b \<in> set (blocks alt). clock_ok now b" using x' i'(5) by auto
  then have "clock_ok now (blocks alt ! k)" if "0 < k" "k < length (blocks alt)" for k using that(2) by simp
  note rep = test_replace [OF su _ alt(2) _ _ this]
  obtain f ch1 where f: "try_replace E (\<lambda>_. now) (blocks alt) ch = (Inr f, ch1)" "test_ok E p ch1" "blocks ch1 = blocks alt" "cstate ch1 = cstate alt"
    using rep(1) [OF ok(1)] ok(3) alt(3) by auto
  obtain e where again: "try_replace E (\<lambda>_. now) (blocks alt) ch1 = (Inl e, ch1)"
    using rep(2) [OF f(2)] f(3) alt(3) by auto
  obtain wb where wb: "mine_block ch0 p ?A [] (?t + 50) (rn 6) = Some wb"
    using r i ok(2) x f(1) again by (auto simp: test_reorg_def Let_def split: bind_splits)
  have clk6: "?t + 50 \<le> now + MAX_TIME_SKEW_S" using p(2) by (intro test_clock [OF su]) simp
  note w = test_connect [OF i'(2) wb _ _ length_addr_of clk6, simplified]
  have wclk: "clock_ok now (blocks (connected E wb ch0) ! k)" if "0 < k" "k < length (blocks (connected E wb ch0))" for k
    using that w(8) i'(5) by (simp add: w(5) less_Suc_eq)
  obtain e' where worse: "try_replace E (\<lambda>_. now) (blocks (connected E wb ch0)) ch1 = (Inl e', ch1)"
    using test_replace(2) [OF su f(2) w(2) _ _ wclk] f(3) alt(3) i'(5) by (auto simp: w(5))
  have "blocks alt \<noteq> []" using alt(3) by auto
  then have height: "chain_height ch1 = 5" using alt(4) f(3) by (simp add: chain_height_def)
  have "work ch < work alt" using test_compare [OF su ok(1) alt(2)] ok(3) alt(3) by simp
  then show ?thesis
    using r i ok(2) x f again wb w(1) worse alt i'(1) height
    by (auto simp: test_reorg_def Let_def account0_def)
qed

section \<open>The whole program\<close>

lemma test_hex_pass: "list_all id test_hex"
  by code_simp

lemma test_pow_pass: "list_all id test_pow"
  by code_simp

lemma test_merkle_pass: "list_all id (fst test_merkle)"
proof -
  have "length test_leaves = 7" by (simp add: test_leaves_def)
  then have "merkle_apply (take n test_leaves ! i) (merkle_proof (take n test_leaves) i) = merkle_root (take n test_leaves)" if "i < n" "n < 8" for n i
    using that by (intro merkle_proof_complete) simp
  then show ?thesis
    by (auto simp: test_merkle_def list_all_iff merkle_root_single merkle_root_def [of "[]"])
qed

lemma test_keys_pass:
  assumes c: "cng_laws c" "kp_ok kA" "can_write ''selftest_key.tmp''" and r: "test_keys c rk can_write fs kA kB = Some (cs, ds)"
  shows "list_all id cs"
proof -
  let ?d = "sha256 (str_bytes ''hello chainlite'')"
  obtain fs' where s: "kp_save can_write kA ''selftest_key.tmp'' fs = Some fs'"
    using c(3) by (simp add: kp_save_def)
  obtain sig sig2 where "kp_sign c (rk 0) kA ?d = Some sig" "kp_sign c (rk 1) kA ?d = Some sig2"
      "cs = [True, sig_verify c (kpub kA) ?d sig, True, True, sig_verify c (kpub kA) ?d sig2]"
    using r s kp_load_save [OF c(2) s] by (auto simp: test_keys_def Let_def split: bind_splits)
  then show ?thesis using kp_sign_verifies [OF c(1,2)] by simp
qed

lemma transfer_parses:
  assumes "cng_laws c" "kp_ok kA" "make_transfer c rnd kA (addr_of (kpub kB)) 42 0 p = Some t"
  shows "tx_parse (mk_reader (tx_serialize t)) = Inr (t, rat (tx_serialize t) [])"
proof -
  have "tx_payload t = []" using build_tx_Some(8) [OF assms(1,2) assms(3) [unfolded make_transfer_build]] .
  then have "tx_ok t"
    using make_transfer_Some(6) [OF assms(1-3) length_addr_of] by (simp add: tx_ok_def tx_arrays_def)
  then show ?thesis using tx_parse_enc [of t "[]" "[]"] by (simp add: mk_reader_rat)
qed

lemma test_tx_pass:
  assumes "cng_laws c" "kp_ok kA" "test_tx c rnd p kA kB = Some (cs, ds)"
  shows "list_all id cs"
proof -
  obtain t where t: "make_transfer c rnd kA (addr_of (kpub kB)) 42 0 p = Some t"
    using assms(3) by (auto simp: test_tx_def split: bind_splits)
  then show ?thesis
    using assms(3) transfer_parses [OF assms(1,2) t] by (auto simp: test_tx_def Let_def sign_hash_sig)
qed


text \<open>The program gets to its end if mining always finds a nonce and CNG signs with the first key.\<close>

definition minable :: "u32 \<Rightarrow> bool" where
  "minable bits \<longleftrightarrow> (\<forall>h. \<exists>n. pow_ok (header_hash (h\<lparr>h_nonce := n\<rparr>)) bits)"

definition key_signs :: "'k cng \<Rightarrow> keypair \<Rightarrow> bool" where
  "key_signs c kp \<longleftrightarrow> (\<forall>rnd digest. length digest = 32 \<longrightarrow> kp_sign c rnd kp digest \<noteq> None)"

lemma mine_block_returns:
  assumes "minable (p_bits p)"
  shows "mine_block ch p to ts t nc \<noteq> None"
proof -
  have "mine_nonce (p_bits p) h \<noteq> None" for h
  proof -
    obtain n where n: "pow_ok (header_hash (h\<lparr>h_nonce := n\<rparr>)) (p_bits p)" using assms by (auto simp: minable_def)
    have "n = h_nonce h + of_nat (unat (n - h_nonce h))" by simp
    with n have "\<exists>h'. mine_nonce (p_bits p) h = Some h'" by (metis mine_nonce_returns)
    then show ?thesis by simp
  qed
  then show ?thesis by (simp add: mine_block_def Let_def split: bind_splits)
qed

lemma sign_returns:
  assumes "key_signs c kp"
  shows "kp_sign c rnd kp (sign_hash t) \<noteq> None" "kp_sign c rnd kp (sha256 m) \<noteq> None" "make_transfer c rnd kp to amount n p \<noteq> None"
  using assms by (auto simp: key_signs_def make_transfer_def Let_def sign_hash_def length_sha256 split: bind_splits)

lemma test_extend_returns:
  assumes "minable (p_bits p)"
  shows "test_extend E now rn p to t i n ch \<noteq> None"
proof (induction n arbitrary: i ch)
  case (Suc n)
  then show ?case
    by (auto simp: mine_block_returns [OF assms] Let_def split: bind_splits prod.splits simp del: not_None_eq)
qed simp

lemma tests_return:
  assumes m: "minable (p_bits p)" and s: "key_signs (ecng E) kA" "cng_laws (ecng E)" "kp_ok kA" and w: "can_write ''selftest_key.tmp''"
  shows "test_tx (ecng E) rnd p kA kB \<noteq> None" "test_blocks E now rn rk p kA kB \<noteq> None" "test_rejects E now rn rk p kA kB ch \<noteq> None"
    "test_pool E now rn rk p kA kB ch \<noteq> None" "test_reorg E now rn p kA kB pay ch \<noteq> None"
    "test_keys (ecng E) rk can_write fs kA kB \<noteq> None"
proof -
  note mine = mine_block_returns [OF m] and sign = sign_returns [OF s(1)]
    and ext = test_extend_returns [OF m]
  obtain t where t: "make_transfer (ecng E) rnd kA (addr_of (kpub kB)) 42 0 p = Some t" using sign(3) by blast
  show "test_tx (ecng E) rnd p kA kB \<noteq> None"
    using transfer_parses [OF s(2,3) t] by (simp add: test_tx_def Let_def t)
  show "test_blocks E now rn rk p kA kB \<noteq> None"
    by (auto simp: mine sign test_blocks_def Let_def split: bind_splits prod.splits simp del: not_None_eq)
  show "test_rejects E now rn rk p kA kB ch \<noteq> None"
    by (auto simp: mine sign test_rejects_def Let_def split: bind_splits prod.splits simp del: not_None_eq)
  show "test_pool E now rn rk p kA kB ch \<noteq> None"
    by (auto simp: mine sign test_pool_def Let_def split: bind_splits prod.splits simp del: not_None_eq)
  show "test_reorg E now rn p kA kB pay ch \<noteq> None"
    by (auto simp: mine ext test_reorg_def Let_def split: bind_splits prod.splits simp del: not_None_eq)
  obtain fs' where f: "kp_save can_write kA ''selftest_key.tmp'' fs = Some fs'" using w by (simp add: kp_save_def)
  show "test_keys (ecng E) rk can_write fs kA kB \<noteq> None"
    by (auto simp: sign f kp_load_save [OF s(3) f] test_keys_def Let_def split: bind_splits simp del: not_None_eq)
qed

text \<open>The SHA-256 test vectors.\<close>

lemma sha256_empty: "hexs (sha256 (str_bytes '''')) = ''e3b0c44298fc1c149afbf4c8996fb92427ae41e4649b934ca495991b7852b855''"
  by code_simp

lemma sha256_abc: "hexs (sha256 (str_bytes ''abc'')) = ''ba7816bf8f01cfea414140de5dae2223b00361a396177a9cb410ff61f20015ad''"
  by code_simp

lemma sha256_fox: "hexs (sha256 (str_bytes ''The quick brown fox jumps over the lazy dog'')) =
    ''d7a8fbb307d7809469ca9abcb0082e4f8d5651e46d3cdb762d02d0bf37c9e592''"
  by code_simp

lemma test_hash_pass: "list_all id test_hash"
  by (simp add: test_hash_def sha256_empty sha256_abc sha256_fox)

text \<open>Either the program stops for one of the reasons above, or its checks of the first kind pass.\<close>

lemma selftest_outcome:
  assumes cng: "cng_laws (ecng E)" and bits: "unat (p_bits p) \<le> 32" and p: "p_reward p = 50" "p_genesis_time p = 1753000000"
    and w: "can_write ''selftest_key.tmp''" and env: "1753001000 \<le> now" "now \<le> 0x4000000000000000"
    and key: "gA = kp_generate (ecng E) (rk 11)" "gB = kp_generate (ecng E) (rk 12)"
  shows "case selftest E now rn rk can_write fs p of
      None \<Rightarrow> gA = None \<or> gB = None \<or> (\<exists>rnd digest. length digest = 32 \<and> kp_sign (ecng E) rnd (the gA) digest = None) \<or>
        (\<exists>h. \<forall>n. \<not> pow_ok (header_hash (h\<lparr>h_nonce := n\<rparr>)) (p_bits p))
    | Some oc \<Rightarrow> list_all id (oc_plain oc) \<or> record_forged (ecng E) p (the gA) \<or> is_zero (kpub (the gA)) \<or>
        addr_of (kpub (the gA)) = addr_of (kpub (the gB))"
proof (cases "selftest E now rn rk can_write fs p")
  case None
  have "\<not> (minable (p_bits p) \<and> key_signs (ecng E) kA)" if g: "gA = Some kA" "gB = Some kB" for kA kB
  proof
    assume ok: "minable (p_bits p) \<and> key_signs (ecng E) kA"
    have "kp_ok kA" using key g kp_generate_ok by metis
    note ret = tests_return [of p E kA can_write, OF conjunct1 [OF ok] conjunct2 [OF ok] cng(1) this w]
    obtain k1 k2 where tk: "test_keys (ecng E) rk can_write fs kA kB = Some (k1, k2)" using ret(6) by fastforce
    obtain x1 x2 where tx: "test_tx (ecng E) (rk 10) p kA kB = Some (x1, x2)" using ret(1) by fastforce
    obtain c1 pay ch where tb: "test_blocks E now rn rk p kA kB = Some (c1, pay, ch)" using ret(2) by fastforce
    obtain j1 ch1 where tj: "test_rejects E now rn rk p kA kB ch = Some (j1, ch1)" using ret(3) by fastforce
    obtain m1 ch2 where tm: "test_pool E now rn rk p kA kB ch1 = Some (m1, ch2)" using ret(4) by fastforce
    obtain r1 r2 where tr: "test_reorg E now rn p kA kB pay ch2 = Some (r1, r2)" using ret(5) by fastforce
    have gen: "kp_generate (ecng E) (rk 11) = Some kA" "kp_generate (ecng E) (rk 12) = Some kB" using key g by simp_all
    show False using None tk tx tb tj tm tr by (simp add: selftest_def Let_def gen)
  qed
  then have "gA = None \<or> gB = None \<or> \<not> minable (p_bits p) \<or> \<not> key_signs (ecng E) (the gA)" by fastforce
  then show ?thesis using None by (auto simp: minable_def key_signs_def)
next
  case (Some oc)
  then obtain kA kB k1 k2 x1 x2 c1 pay ch j1 ch1 m1 ch2 r1 r2 where g: "gA = Some kA" "gB = Some kB"
    and tk: "test_keys (ecng E) rk can_write fs kA kB = Some (k1, k2)" and tx: "test_tx (ecng E) (rk 10) p kA kB = Some (x1, x2)"
    and tb: "test_blocks E now rn rk p kA kB = Some (c1, pay, ch)" and tj: "test_rejects E now rn rk p kA kB ch = Some (j1, ch1)"
    and tm: "test_pool E now rn rk p kA kB ch1 = Some (m1, ch2)" and tr: "test_reorg E now rn p kA kB pay ch2 = Some (r1, r2)"
    and oc: "oc_plain oc = test_hash @ test_hex @ test_pow @ [True] @ k1 @ fst test_merkle @ x1 @ fst (test_genesis p) @ c1 @ j1 @ m1 @ r1"
    using key by (auto simp: selftest_def Let_def split: bind_splits)
  have k: "kp_ok kA" "kp_ok kB" using key g kp_generate_ok by metis+
  have "list_all id (c1 @ j1 @ m1 @ r1)" if sound: "\<not> record_forged (ecng E) p kA" "\<not> is_zero (kpub kA)" "addr_of (kpub kA) \<noteq> addr_of (kpub kB)"
  proof -
    have su: "test_setup (ecng E) now p kA kB" using k cng bits p env sound by (simp add: test_setup_def)
    note b = test_blocks_pass [OF su tb]
    have j: "list_all id j1" "ch1 = ch" using test_rejects_pass [OF su b(2,5) tj sound(1)] by simp_all
    note m = test_pool_pass [OF su b(2,5) tm [unfolded j(2)]]
    have "list_all id r1" using test_reorg_pass [OF su m(2) _ _ tr] m(3,4) b(3,4) by simp
    then show ?thesis using b(1) j(1) m(1) by simp
  qed
  then show ?thesis
    using Some g oc test_hash_pass test_hex_pass test_pow_pass test_merkle_pass test_keys_pass [OF cng k(1) w tk] test_tx_pass [OF cng k(1) tx]
    by (auto simp: test_genesis_def)
qed

end
