(* ===== verification/Spec2Isabelle.thy ===== *)
theory Spec2Isabelle
  imports Launcher GpuHost Relay RpcServer Selftest
begin

text \<open>
  chainlite is a small proof-of-work blockchain for Windows in C++ (\<^verbatim>\<open>src/src\<close>): a full node with a
  peer-to-peer network, a mempool, a CPU miner, SQLite persistence and an HTTP interface
  (\<^verbatim>\<open>node_impl.h\<close> and the headers it includes, started by \<^verbatim>\<open>clnode.cpp\<close>), a wallet and query tool
  (\<^verbatim>\<open>clctl.cpp\<close>), a CUDA miner (\<^verbatim>\<open>clminer_gpu.cu\<close>), and a launcher that runs three nodes
  (\<^verbatim>\<open>chainlite_app.cpp\<close>).  This library models these programs and proves what makes them correct.

  \<^bold>\<open>How the parts interact.\<close>  A node keeps one state, \<^verbatim>\<open>App\<close>: the chain (blocks and the caches computed
  from them), the pool of pending transactions, the peers, and the state of a synchronisation.
  Its network thread turns bytes from peers into messages and calls the handlers of
  \<^verbatim>\<open>node_impl.h\<close>; the miner thread, the housekeeping thread and the RPC thread work on the same state,
  each under one mutex.  A block enters the chain through \<^verbatim>\<open>connect_block\<close> or, with a whole chain that has
  more work, \<^verbatim>\<open>try_replace\<close>; both write to the database.  Wallet, GPU miner and launcher talk to a
  node over HTTP only.

  \<^bold>\<open>Theories, in the order of the code.\<close>

  \<^item> \<open>Prelude\<close>, \<open>StdMap\<close>: named collections of simplification rules, results as sums, the locale
    \<open>step_system\<close> (invariants of step relations), and \<^verbatim>\<open>std::map\<close> as a sorted association list (\<open>smap\<close>).
  \<^item> \<open>Common\<close> (\<^verbatim>\<open>common.h\<close>): hex, \<^verbatim>\<open>Writer\<close> and \<^verbatim>\<open>Reader\<close> (exceptions are \<open>Inl\<close>), \<^verbatim>\<open>Args\<close>; the locale \<open>codec\<close>, which is
    interpreted for every serialized type.  \<open>Text\<close>: the parts of the C and C++ string library the
    source uses, \<^verbatim>\<open>strf\<close> with its 4095 characters, and the JSON field extractors.
  \<^item> \<open>Sha256\<close> (\<^verbatim>\<open>sha256.h\<close>): the streaming hash against a reference definition; proof of work as a bound on
    a 256-bit number.  \<open>Crypto\<close> (\<^verbatim>\<open>crypto_cng.h\<close>): keys, signatures, key files.
  \<^item> \<open>TxBlock\<close>, \<open>Merkle\<close>, \<open>Ledger\<close>, \<open>Sqlite\<close>, \<open>Chain\<close>, \<open>Mempool\<close> (\<^verbatim>\<open>core.h\<close>, \<^verbatim>\<open>sqlite_shim.h\<close>): data, serialization,
    Merkle trees, \<^verbatim>\<open>apply_tx\<close> and its abstract ledger, the class \<^verbatim>\<open>Chain\<close>, the class \<^verbatim>\<open>Mempool\<close>.  \<open>ChainInv\<close> states the
    consensus rules without caches (\<open>valid_chain\<close>) and the invariant \<open>chain_ok\<close>; \<open>ChainFacts\<close> says what a valid
    chain guarantees; \<open>ChainDb\<close> treats the database.
  \<^item> \<open>Net\<close> (\<^verbatim>\<open>net.h\<close>): framing, handshake, one turn of the network loop.  \<open>Node\<close> (\<^verbatim>\<open>node_impl.h\<close>): the handlers,
    the synchronisation state machine, the miner.  \<open>Rpc\<close> (\<^verbatim>\<open>rpc.h\<close> and \<^verbatim>\<open>handle_rpc\<close>): the HTTP server and its
    endpoints.  \<open>NodeInv\<close>: the threads as the step relation \<open>node_step\<close>, the invariant \<open>app_ok\<close>, and what
    follows for mining and synchronisation.  \<open>NodeRun\<close>: the start of a node.  \<open>Sync\<close> and \<open>Relay\<close>: two nodes on one
    link, with the bytes queued by one carried through the loop and the handlers of the other (\<open>carry\<close>,
    \<open>sync_round\<close>); the locale \<open>strides\<close> bounds the number of rounds.
  \<^item> \<open>HttpClient\<close> (\<^verbatim>\<open>http_client.h\<close>), \<open>RpcServer\<close> (the accept loop of \<^verbatim>\<open>rpc.h\<close>), \<open>Cli\<close> (\<^verbatim>\<open>clctl.cpp\<close>), \<open>CmdLine\<close> (how the C runtime splits a command line into \<^verbatim>\<open>argv\<close>), \<open>Process\<close> and \<open>Launcher\<close> (\<^verbatim>\<open>chainlite_app.cpp\<close>), \<open>Gpu\<close> and \<open>GpuHost\<close>
    (\<^verbatim>\<open>clminer_gpu.cu\<close>: the kernel as an interleaving of threads, and the host loop).
  \<^item> \<open>Selftest\<close> (\<^verbatim>\<open>selftest.cpp\<close>): the test program, run on the model of the components it exercises.
  \<^item> \<open>Instances\<close>: a database, a signature scheme and a small network that meet every hypothesis made on
    the libraries; the witnesses use them.

  \<^bold>\<open>Conventions.\<close>  Integers are machine words of their C++ width and wrap around; \<^verbatim>\<open>size_t\<close> counts that
  are lengths of containers are \<open>nat\<close>.  A \<^verbatim>\<open>std::array\<close> is a list, whose length the predicates \<open>tx_arrays\<close>,
  \<open>header_ok\<close> and \<open>block_arrays\<close> state.  Error strings are values of a datatype (\<open>tx_error\<close>, \<open>chain_error\<close>,
  \<open>pool_error\<close>), printed by \<open>Rpc\<close>.  Texts have no NUL character.  Clock readings, random numbers, the results of socket
  and file calls, Windows CNG (\<open>cng\<close>), SQLite (\<open>sqlite\<close>) and the process calls of Windows (\<open>win\<close>) are arguments; where a property relies on
  what they promise, the hypotheses are \<open>cng_laws\<close> (what is signed verifies), \<open>sqlite_laws\<close>
  (the statements of \<^verbatim>\<open>core.h\<close> insert, delete and select rows of table \<^verbatim>\<open>blocks\<close>) and \<open>win_laws\<close> (which calls start processes, begin their end, and open and
  close handles; ending a process is asynchronous).  Nothing is assumed about SHA-256: a property that needs that hashes do not collide ends in ``or \<open>collision M\<close>'', where \<open>M\<close> is the set of
  the byte strings hashed in that situation.

  \<^bold>\<open>Bounds.\<close>  All loops but one are total functions with a termination proof: the miner's search stops
  after 2^40 nonces (as in the source), the kernel's rounds after 64, \<^verbatim>\<open>collect\<close> when a pass makes no progress, parsing
  when the buffer is used up.  No fuel is used.  The
  exception is the mining loop of the test program, which has no bound: \<open>mine_nonce\<close> is a partial function in the option type, and
  \<open>mine_nonce_returns\<close> shows that it returns when some nonce meets the target; \<open>selftest_passes\<close> names the runs in which it does not.  Hypotheses such as \<open>length (blocks ch) \<le> 2 ^ 64\<close> exclude the
  wrap-around of a height, a nonce or a sum of coins.

  \<^bold>\<open>What the properties below show.\<close>  A running node, under any interleaving and any input, keeps its
  invariant and never loses work; a block or a chain is accepted exactly when the rules allow it; the
  64-bit ledger refines an unbounded one, mints exactly the rewards and admits no replay; the tip hash
  commits to the history; the database mirrors the chain and a restart restores it; blocks mined by CPU
  or GPU are accepted, over HTTP as well, and relayed to peers; two linked nodes converge on the chain with
  more work in a bounded number of messages; a damaged database is cut back to a valid chain; proofs written
  by the node verify, and a verified proof shows inclusion; messages are handled regardless of
  how the bytes arrive; of two links between two nodes one survives; the launcher
  wires its nodes together, through the command lines it writes and the nodes parse, and leaves none of them running; the checks of the test program pass, those that only test
  SHA-256 or ECDSA aside.

  \<^bold>\<open>Not modelled.\<close>  Socket, process, console, CUDA runtime and dynamic-loading calls (their results are
  arguments); log lines and other printed text that no program reads; the random delay before mining; the shutdown of a node;
  two threads inside one handler (each handler holds the mutex); the web viewer and the scripts, which are not C++.
\<close>

section \<open>The running node\<close>

text \<open>
  C1: In every state a node can reach, whatever its peers send, its clients ask and its clock says, and in
  whatever order its threads run, the node invariant holds: the chain in memory satisfies every consensus
  rule and its caches (hashes, account balances, transaction index, cumulative work) are what its blocks
  determine, the pool holds only well-formed pending transactions with correct signatures, the cached
  block templates and the synchronisation state are consistent, and so is the peer table.
\<close>

theorem node_invariant:
  assumes "node_start (ecng E) s" "(node_step E)\<^sup>*\<^sup>* s s'"
  shows "node_ok (ecng E) s'"
  using assms by (rule nd.reach_inv)

theorem node_invariant_witness:
  "node_ok (ecng mini_ext) (mini_node\<lparr>napp := periodic_tick mini_times 0 (napp mini_node)\<rparr>)"
  by (rule node_invariant [OF mini_node_start r_into_rtranclp]) (rule node_step.tick)

text \<open>
  C5: No step of a running node ever loses work: its chain stays as it is, or is extended by blocks, or is
  replaced by another valid chain of the same network with strictly more cumulative work.
\<close>

theorem chain_only_grows:
  assumes "node_start (ecng E) s" "(node_step E)\<^sup>*\<^sup>* s s'" "node_step E s' s''"
  shows "chain (napp s'') = chain (napp s') \<or>
    chain_ok (ecng E) (chain (napp s'')) \<and> cparams (chain (napp s'')) = cparams (chain (napp s')) \<and>
    ((\<exists>bs. bs \<noteq> [] \<and> blocks (chain (napp s'')) = blocks (chain (napp s')) @ bs) \<or> work (chain (napp s')) < work (chain (napp s'')))"
proof -
  have "grows (ecng E) (chain (napp s')) (chain (napp s''))"
    using node_step_handled [OF assms(3) nd.reach_inv [OF assms(1,2)]] by (simp add: handled_def)
  then show ?thesis by (simp add: grows_def)
qed

theorem chain_only_grows_witness:
  "\<exists>s. node_step mini_ext mini_node s \<and>
     (chain (napp s) = chain (napp mini_node) \<or>
      chain_ok mini_cng (chain (napp s)) \<and> cparams (chain (napp s)) = cparams (chain (napp mini_node)) \<and>
      ((\<exists>bs. bs \<noteq> [] \<and> blocks (chain (napp s)) = blocks (chain (napp mini_node)) @ bs) \<or> work (chain (napp mini_node)) < work (chain (napp s))))"
proof -
  have st: "node_step mini_ext mini_node (mini_node\<lparr>napp := periodic_tick mini_times 0 (napp mini_node)\<rparr>)" by (rule node_step.tick)
  show ?thesis
    by (rule exI, rule conjI [OF st])
      (use chain_only_grows [OF mini_node_start rtranclp.rtrancl_refl st] in \<open>simp only: mini_ext_simps\<close>)
qed

section \<open>The chain\<close>

text \<open>
  C2: \<^verbatim>\<open>connect_block\<close> accepts a block exactly when the consensus rules and the clock allow it as the next
  block; then the chain is extended by it and keeps its invariant.  Otherwise it reports an error and
  the chain, its caches and the database are untouched.
\<close>

theorem connect_block_exact:
  assumes "chain_ok (ecng E) ch" "block_arrays b"
  shows "if accepts E now ch b
    then connect_block E now b ch = (None, connected E b ch) \<and> chain_ok (ecng E) (connected E b ch) \<and>
      blocks (connected E b ch) = blocks ch @ [b]
    else \<exists>e. connect_block E now b ch = (Some e, ch)"
proof (cases "accepts E now ch b")
  case True
  then show ?thesis using connect_block_ok [OF assms(1) True] chain_ok_connected [OF assms(1) True assms(2)]
    by (simp add: chain_simps)
next
  case False
  then obtain e where "fst (connect_block E now b ch) = Some e" using connect_block_ok_iff [OF assms(1)] by blast
  then show ?thesis using False connect_block_err by (metis prod.collapse)
qed

theorem connect_block_exact_witness:
  "connect_block mini_ext 1753000000 mini_block (mini_start None) = (None, connected mini_ext mini_block (mini_start None))"
  using connect_block_exact [of mini_ext "mini_start None" mini_block 1753000000]
  by (simp add: mini_start_ok mini_block_arrays mini_start_accepts)

text \<open>
  C3: Fork choice.  \<^verbatim>\<open>try_replace\<close> adopts a candidate exactly when it is a non-empty valid chain from the
  genesis block, none of its blocks is from the future, and it has strictly more work than the current
  chain; then the chain is the candidate, and the height reported is where the two chains part.
  Otherwise it reports an error and nothing changes.
\<close>

theorem fork_choice_exact:
  assumes "chain_ok (ecng E) ch" "list_all block_arrays bs"
  shows "if bs \<noteq> [] \<and> valid_chain (ecng E) (cparams ch) bs \<and>
      (\<forall>k < length bs. 0 < k \<longrightarrow> clock_ok (clk k) (bs ! k)) \<and> work ch < chain_work bs
    then \<exists>ch'. try_replace E clk bs ch = (Inr (common_prefix (hashes ch) (hashes ch')), ch') \<and>
      blocks ch' = bs \<and> chain_ok (ecng E) ch' \<and> work ch < work ch' \<and> cparams ch' = cparams ch
    else \<exists>e. try_replace E clk bs ch = (Inl e, ch)"
proof -
  obtain r ch' where r: "try_replace E clk bs ch = (r, ch')" by fastforce
  note iff = try_replace_iff [OF assms, of clk, unfolded r fst_conv, symmetric]
  show ?thesis
  proof (cases r)
    case (Inl e)
    then have "try_replace E clk bs ch = (Inl e, ch)" using r try_replace_err by blast
    then show ?thesis unfolding iff Inl by simp
  next
    case (Inr f)
    note ok = try_replace_ok [OF assms r [unfolded Inr]]
    then show ?thesis unfolding iff r Inr by simp
  qed
qed

theorem fork_choice_exact_witness:
  "\<exists>ch'. try_replace mini_ext (\<lambda>_. 1753000100) [mini_genesis, mini_block] (mini_start None) =
     (Inr (common_prefix (hashes (mini_start None)) (hashes ch')), ch') \<and> blocks ch' = [mini_genesis, mini_block]"
proof -
  have w: "work (mini_start None) < chain_work [mini_genesis, mini_block]"
    using mini_start_ok [of None] by (simp add: chain_ok_def chain_work_def block_work_def mini_block_def header_default_def work_of_def)
  have k: "\<forall>k < length [mini_genesis, mini_block]. 0 < k \<longrightarrow> clock_ok 1753000100 ([mini_genesis, mini_block] ! k)"
    by (auto simp: less_Suc_eq clock_ok_def mini_block_def MAX_TIME_SKEW_S_def)
  have arr: "list_all block_arrays [mini_genesis, mini_block]"
    using mini_block_arrays mini_genesis_ok by simp
  show ?thesis
    using fork_choice_exact [of mini_ext "mini_start None" "[mini_genesis, mini_block]" "\<lambda>_. 1753000100"] w k arr mini_start_ok [of None]
      mini_chain [of mini_cng] by auto
qed

text \<open>
  C9: The tip hash commits to the whole history.  If two nodes of a network have the same tip hash, then
  they have the same blocks and the same account state, or two different ones among the byte strings
  hashed for their chains have the same double SHA-256.
\<close>

theorem tip_commits_history:
  assumes "chain_ok c ch" "chain_ok c ch'" "cparams ch' = cparams ch" "blocks ch \<noteq> []" "blocks ch' \<noteq> []"
    and "length (blocks ch) \<le> 2 ^ 64" "length (blocks ch') \<le> 2 ^ 64" "tip_hash ch = tip_hash ch'"
  shows "blocks ch = blocks ch' \<and> cstate ch = cstate ch' \<or>
    collision (insert (genesis_msg (cparams ch)) (chain_msgs (blocks ch) \<union> chain_msgs (blocks ch')))"
proof (rule disjCI)
  assume "\<not> collision (insert (genesis_msg (cparams ch)) (chain_msgs (blocks ch) \<union> chain_msgs (blocks ch')))"
  then have inj: "inj_on sha256d (insert (genesis_msg (cparams ch)) (chain_msgs (blocks ch) \<union> chain_msgs (blocks ch')))"
    by (simp only: not_collision_iff)
  have "header_hash (hdr (last (blocks ch))) = header_hash (hdr (last (blocks ch')))"
    using assms chain_ok_tip by metis
  then have "blocks ch = blocks ch'"
    using tip_determines_chain [OF _ _ assms(4-7) inj subset_refl, of c] assms(1-3) by (simp add: chain_ok_def)
  then show "blocks ch = blocks ch' \<and> cstate ch = cstate ch'" using assms(1,2) by (simp add: chain_ok_def)
qed

theorem tip_commits_history_witness:
  "blocks (mini_start None) = blocks (mini_start (Some (True, []))) \<and> cstate (mini_start None) = cstate (mini_start (Some (True, []))) \<or>
    collision (insert (genesis_msg mini_params) (chain_msgs [mini_genesis] \<union> chain_msgs [mini_genesis]))"
  using tip_commits_history [OF mini_start_ok [of None] mini_start_ok [of "Some (True, [])"]]
  by (simp add: chain_ok_tip [OF mini_start_ok])

section \<open>Ledger, supply and history\<close>

text \<open>
  C6: On a transaction of valid form, \<^verbatim>\<open>apply_tx\<close> over the 64-bit accounts does what the abstract ledger of
  unbounded balances and counters does: it succeeds on the same transactions and yields the same balances
  and nonces, as long as the coins in existence and the sender's counter fit in 64 bits.
\<close>

theorem ledger_refines:
  assumes "smap_ok st" "fits t st" "tx_static_ok c t p height is_first"
  shows "a_apply t (abs_state st) =
    (case apply_tx c st t p height is_first of (None, st') \<Rightarrow> Some (abs_state st') | (Some _, _) \<Rightarrow> None)"
  using assms by (rule apply_tx_refines_abstract)

theorem ledger_refines_witness:
  "a_apply mini_tx (abs_state []) =
    (case apply_tx mini_cng [] mini_tx mini_params 1 False of (None, st') \<Rightarrow> Some (abs_state st') | (Some _, _) \<Rightarrow> None)"
  by (rule ledger_refines)
    (simp_all add: mini_tx_static fits_def coin_supply_def minted_def mini_tx_fields account0_def txtype_defs)

text \<open>
  C7: The coins in circulation are exactly one block reward per block after the genesis block: transfers move
  coins and records cost nothing, so no sequence of accepted blocks creates or destroys any other coin
  (as long as the total fits in 64 bits).
\<close>

theorem coin_supply_exact:
  assumes "chain_ok c ch" "(length (blocks ch) - 1) * unat (p_reward (cparams ch)) < 2 ^ 64"
  shows "coin_supply (cstate ch) = (length (blocks ch) - 1) * unat (p_reward (cparams ch))"
  using assms valid_chain_supply unfolding chain_ok_def by metis

theorem coin_supply_exact_witness: "coin_supply (cstate (mini_two None)) = 50"
  using coin_supply_exact [OF mini_two_ok [of None]] by simp

text \<open>
  C8: No replay.  No transaction occurs twice in a chain; the transactions of an address carry the nonces
  0, 1, 2 and so on in chain order, and the nonce stored for the address is their number.
\<close>

theorem no_replay:
  assumes "chain_ok c ch" "length (all_txs (blocks ch)) \<le> 2 ^ 64"
  shows "distinct (all_txs (blocks ch)) \<and> counts_from 0 (map tx_nonce (user_txs a (all_txs (blocks ch)))) \<and>
    nonce (st_get a (cstate ch)) = of_nat (length (user_txs a (all_txs (blocks ch))))"
  using assms valid_chain_distinct_txs [of c "cparams ch"] valid_chain_nonces [of c "cparams ch" "blocks ch" a]
  by (simp add: chain_ok_def)

theorem no_replay_witness: "distinct (all_txs (blocks (mini_two None)))"
  using no_replay [OF mini_two_ok [of None], of "[]"] by (simp add: mini_block_def mini_genesis_def genesis_arrays)

text \<open>
  C32: The transaction index is exact.  \<^verbatim>\<open>txidx\<close> maps an id to a height and position if and only if that is
  where the chain has the transaction with this id, or two different ones among the byte strings
  hashed for the chain have the same double SHA-256.
\<close>

theorem tx_index_exact:
  assumes "chain_ok c ch" "length (blocks ch) \<le> 2 ^ 32" "length (all_txs (blocks ch)) \<le> 2 ^ 64"
  shows "(smap_find (txidx ch) i = Some loc \<longleftrightarrow> chain_at (blocks ch) loc i) \<or>
    collision (insert (genesis_msg (cparams ch)) (chain_msgs (blocks ch)))"
  using assms chain_index_at [of c "cparams ch" "blocks ch" i loc] not_collision_iff by (auto simp: chain_ok_def)

theorem tx_index_exact_witness:
  "smap_find (txidx (mini_two None)) (txid mini_coinbase) = Some (1, 0) \<or>
    collision (insert (genesis_msg mini_params) (chain_msgs [mini_genesis, mini_block]))"
  using tx_index_exact [OF mini_two_ok [of None], of "txid mini_coinbase" "(1, 0)"]
  by (simp add: chain_at_def mini_block_def mini_genesis_def genesis_arrays)

text \<open>
  C38: Most work is longest.  The difficulty is the same for every block of a network, so of two valid
  chains the one with more cumulative work is the longer one, as long as the work fits in 64 bits.
\<close>

theorem most_work_is_longest:
  assumes "chain_ok c ch" "chain_ok c ch'" "cparams ch' = cparams ch"
    and "total_work (cparams ch) (length (blocks ch)) < 2 ^ 64" "total_work (cparams ch) (length (blocks ch')) < 2 ^ 64"
  shows "work ch < work ch' \<longleftrightarrow> length (blocks ch) < length (blocks ch')"
  using assms by (rule most_work_longest)

theorem most_work_is_longest_witness: "work (mini_start None) < work (mini_two None)"
  using most_work_is_longest [OF mini_start_ok [of None] mini_two_ok [of None]] by (simp add: total_work_def work_of_def)

section \<open>Persistence\<close>

text \<open>
  C10: Restart.  If the database mirrors the chain of a node, then \<^verbatim>\<open>Chain::init\<close> on that database restores
  exactly that chain (blocks, hashes, accounts, transaction index and work) and the database still
  mirrors it, unless the clock has gone back to before a stored block is acceptable.
\<close>

theorem restart_restores_chain:
  assumes "sqlite_laws (esq E) tbl rdy" "chain_ok (ecng E) ch" "mirrors tbl rdy ch" "blocks ch \<noteq> []" "cdb ch = Some d"
    and "\<And>k. 0 < k \<Longrightarrow> k < length (blocks ch) \<Longrightarrow> clock_ok (clk k) (blocks ch ! k)"
  shows "\<exists>ch'. chain_init E clk now (Some d) (new_chain (cparams ch)) = (None, ch') \<and> blocks ch' = blocks ch \<and>
    hashes ch' = hashes ch \<and> cstate ch' = cstate ch \<and> txidx ch' = txidx ch \<and> work ch' = work ch \<and>
    chain_ok (ecng E) ch' \<and> mirrors tbl rdy ch'"
  using assms by (rule restart_restores)

theorem restart_restores_chain_witness:
  "\<exists>d ch'. cdb (mini_two (Some (True, []))) = Some d \<and>
     chain_init mini_ext (\<lambda>_. 1753000100) 0 (Some d) (new_chain mini_params) = (None, ch') \<and> blocks ch' = [mini_genesis, mini_block]"
proof -
  obtain d where d: "cdb (mini_two (Some (True, []))) = Some d"
    using mini_two_mirrors by (auto simp: mirrors_def split: option.splits)
  have "\<exists>ch'. chain_init mini_ext (\<lambda>_. 1753000100) 0 (Some d) (new_chain (cparams (mini_two (Some (True, []))))) = (None, ch') \<and>
      blocks ch' = blocks (mini_two (Some (True, []))) \<and> hashes ch' = hashes (mini_two (Some (True, []))) \<and>
      cstate ch' = cstate (mini_two (Some (True, []))) \<and> txidx ch' = txidx (mini_two (Some (True, []))) \<and>
      work ch' = work (mini_two (Some (True, []))) \<and> chain_ok (ecng mini_ext) ch' \<and> mirrors mini_tbl fst ch'"
    by (rule restart_restores_chain [OF _ _ mini_two_mirrors _ d])
      (simp_all add: mini_sql_laws mini_two_ok less_Suc_eq clock_ok_def mini_block_def MAX_TIME_SKEW_S_def)
  then show ?thesis using d by auto
qed

text \<open>
  C12: Recovery.  If the blobs of the \<^verbatim>\<open>blocks\<close> table are damaged in any way, \<^verbatim>\<open>Chain::init\<close> still succeeds: it keeps
  the longest prefix of the rows that parse to blocks accepted in turn (the genesis block if there is none),
  stopping at the first row that does not, and cuts the table back so that it mirrors that chain again, up to a
  double SHA-256 collision.
\<close>

theorem damaged_database_recovers:
  assumes "sqlite_laws (esq E) tbl rdy" "tbl d = rows" "numbered rows" "length rows < 2 ^ 63"
  shows "\<exists>bs ch'. chain_init E clk now (Some d) (new_chain p) = (None, ch') \<and> chain_ok (ecng E) ch' \<and> cparams ch' = p \<and>
    blocks ch' = (if bs = [] then [make_genesis p] else bs) \<and> length bs \<le> length rows \<and>
    map snd (take (length bs) rows) = map block_serialize bs \<and>
    (length bs < length rows \<longrightarrow> (\<forall>b. block_parse (snd (rows ! length bs)) = Some b \<longrightarrow>
       \<not> (if bs = [] then genesis_ok p b else extends_ok (ecng E) p bs b \<and> clock_ok (clk (length bs)) b))) \<and>
    (mirrors tbl rdy ch' \<or> collision (insert (genesis_msg p) (chain_msgs bs)))"
  using assms by (rule init_recovers)

theorem damaged_database_recovers_witness:
  "\<exists>ch'. chain_init mini_ext (\<lambda>_. 1753000100) 0 (Some (True, [(0, block_serialize mini_genesis), (1, [1, 2, 3])])) (new_chain mini_params) =
     (None, ch') \<and> chain_ok mini_cng ch'"
proof -
  let ?rows = "[(0, block_serialize mini_genesis), (1, [1, 2, 3])] :: (int, bytes) smap"
  have "mini_tbl (True, ?rows) = ?rows" by (simp add: mini_tbl_def smap_ok_def)
  moreover have "numbered ?rows" by (simp add: numbered_def upt_rec)
  ultimately show ?thesis
    using damaged_database_recovers [of mini_ext mini_tbl fst "(True, ?rows)" ?rows "\<lambda>_. 1753000100" 0 mini_params] mini_sql_laws by auto
qed

text \<open>
  C11: While a node runs, its \<^verbatim>\<open>blocks\<close> table mirrors its chain: connecting a block and replacing the chain
  (truncating at the fork and inserting the rest) keep the two equal, or two different ones among the
  byte strings hashed for the chains have the same double SHA-256.
\<close>

theorem database_mirrors_chain:
  assumes laws: "sqlite_laws (esq E) tbl rdy" and ch: "chain_ok (ecng E) ch" and mir: "mirrors tbl rdy ch"
    and arr: "block_arrays b" "list_all block_arrays bs" and len: "length (blocks ch) < 2 ^ 63" "length bs < 2 ^ 63"
  shows "mirrors tbl rdy (snd (connect_block E now b ch)) \<and> mirrors tbl rdy (snd (try_replace E clk bs ch)) \<or>
    collision (insert (genesis_msg (cparams ch)) (chain_msgs (blocks ch @ [b]) \<union> chain_msgs bs))"
proof (rule disjCI)
  assume "\<not> collision (insert (genesis_msg (cparams ch)) (chain_msgs (blocks ch @ [b]) \<union> chain_msgs bs))"
  then have inj: "inj_on sha256d (insert (genesis_msg (cparams ch)) (chain_msgs (blocks ch @ [b]) \<union> chain_msgs bs))"
    by (simp only: not_collision_iff)
  have "mirrors tbl rdy (snd (connect_block E now b ch))"
  proof (cases "accepts E now ch b")
    case True
    have "valid_chain (ecng E) (cparams ch) (blocks ch @ [b])"
      using chain_ok_connected [OF ch True arr(1)] by (simp add: chain_ok_def chain_simps)
    then have "rooted (cparams ch) (blocks ch @ [b])" using rooted_by_hash [OF _ inj] by blast
    then show ?thesis using mirrors_connect [OF laws ch mir True arr(1)] len connect_block_ok [OF ch True] by simp
  next
    case False
    then obtain e where "fst (connect_block E now b ch) = Some e" using connect_block_ok_iff [OF ch] by blast
    then show ?thesis using connect_block_err mir by metis
  qed
  moreover have "mirrors tbl rdy (snd (try_replace E clk bs ch))"
  proof (cases "try_replace E clk bs ch")
    case (Pair r ch')
    have "inj_on sha256d (insert (genesis_msg (cparams ch)) (chain_msgs (blocks ch) \<union> chain_msgs bs))"
      using inj by (rule inj_on_subset) (auto simp: chain_msgs_def)
    then show ?thesis using Pair mirrors_replace [OF laws ch mir arr(2)] try_replace_err [of E clk bs ch] mir len by (cases r) auto
  qed
  ultimately show "mirrors tbl rdy (snd (connect_block E now b ch)) \<and> mirrors tbl rdy (snd (try_replace E clk bs ch))" ..
qed

theorem database_mirrors_chain_witness:
  "mirrors mini_tbl fst (snd (connect_block mini_ext 1753000000 mini_block (mini_start (Some (True, []))))) \<and>
   mirrors mini_tbl fst (snd (try_replace mini_ext (\<lambda>_. 1753000100) [mini_genesis, mini_block] (mini_start (Some (True, []))))) \<or>
   collision (insert (genesis_msg mini_params) (chain_msgs [mini_genesis, mini_block] \<union> chain_msgs [mini_genesis, mini_block]))"
  using database_mirrors_chain [OF _ _ mini_start_mirrors mini_block_arrays, of mini_ext "[mini_genesis, mini_block]" 1753000000 "\<lambda>_. 1753000100"]
  by (simp add: mini_sql_laws mini_start_ok mini_block_arrays mini_genesis_ok)

section \<open>Mining\<close>

text \<open>
  C27: The CPU miner searches exhaustively.  If it reports a nonce, the header with that nonce meets the
  target; if it gives up although the tip has not moved, none of the 2^40 nonces from the start nonce does.
\<close>

theorem cpu_miner_search:
  assumes "header_ok h" "\<And>k. go k"
  shows "case mine_loop go 0 bits (header_serialize h) nc 0 of
      (True, m) \<Rightarrow> pow_ok (header_hash (h\<lparr>h_nonce := m\<rparr>)) bits
    | (False, m) \<Rightarrow> \<forall>j < 2 ^ 40. \<not> pow_ok (header_hash (h\<lparr>h_nonce := nc + of_nat j\<rparr>)) bits"
proof (cases "mine_loop go 0 bits (header_serialize h) nc 0")
  case (Pair found m)
  show ?thesis
  proof (cases found)
    case True
    then show ?thesis using mine_loop_sound [OF assms(1)] Pair by (fastforce simp: solves_def with_nonce_def)
  next
    case False
    have "\<not> solves h bits (nc + of_nat j)" if "j < 2 ^ 40" for j
      using mine_loop_complete [OF assms(1), of go j 0 bits nc 0] assms(2) that Pair False by auto
    then show ?thesis using Pair False by (simp add: solves_def with_nonce_def)
  qed
qed

theorem cpu_miner_search_witness:
  "case mine_loop (\<lambda>_. True) 0 20 (header_serialize (hdr mini_block)) 7 0 of
      (True, m) \<Rightarrow> pow_ok (header_hash ((hdr mini_block)\<lparr>h_nonce := m\<rparr>)) 20
    | (False, m) \<Rightarrow> \<forall>j < 2 ^ 40. \<not> pow_ok (header_hash ((hdr mini_block)\<lparr>h_nonce := 7 + of_nat j\<rparr>)) 20"
  by (rule cpu_miner_search) (use mini_block_arrays in \<open>simp_all add: block_arrays_def\<close>)

text \<open>
  C14: A block the CPU miner finds is accepted.  Whatever the pool holds, the candidate built from it by
  \<^verbatim>\<open>miner_loop\<close>, with the nonce found, extends the chain when it is submitted on an unmoved tip (as long as
  the coins fit in 64 bits and the clock does not go back by more than the allowed skew).
\<close>

theorem mined_block_accepted:
  assumes "app_ok (ecng E) a" "mintable (chain a)" "miner_prepare E tm a = Some (seq, b)"
    and "mine_loop go 0 (h_bits (hdr b)) (header_serialize (hdr b)) nc0 0 = (True, nc)"
    and "chain a' = chain a" "params a' = params a" "tip_seq a' = tip_seq a"
    and "now_s_at tm 1 \<le> now_s_at tm' 0 + MAX_TIME_SKEW_S"
  shows "blocks (chain (miner_submit E tm' seq b nc a')) = blocks (chain a) @ [b\<lparr>hdr := (hdr b)\<lparr>h_nonce := nc\<rparr>\<rparr>]"
  using assms by (rule mined_block_connects)

theorem mined_block_accepted_witness:
  "\<exists>seq b. miner_prepare mini_ext mini_times (mini_app None) = Some (seq, b) \<and>
     blocks (chain (miner_submit mini_ext mini_times seq b 0 (mini_app None))) = [mini_genesis, b\<lparr>hdr := (hdr b)\<lparr>h_nonce := 0\<rparr>\<rparr>]"
proof -
  have due: "heartbeat_s (mini_app None) > 0 \<and>
      now_s_at mini_times 0 \<ge> h_time (hdr (last (blocks (chain (mini_app None))))) + heartbeat_s (mini_app None)"
    by (simp add: mini_app_def mini_times_def mini_genesis_def make_genesis_def mini_params_def default_params_def)
  obtain seq b where b: "miner_prepare mini_ext mini_times (mini_app None) = Some (seq, b)"
    using due by (auto simp: miner_prepare_def Let_def mini_app_def)
  have "core_ok (ecng mini_ext) (mini_app None)" using mini_app_ok [of None] by (simp add: app_ok_def)
  then obtain ts where ts: "b = candidate (miner_addr (mini_app None)) ts (now_s_at mini_times 1) (mini_app None)" "block_arrays b"
    using b by (rule miner_prepare_Some)
  have arr: "header_ok (hdr b)" using ts(2) by (simp add: block_arrays_def)
  have "params (mini_app None) = mini_params" by (simp add: mini_app_def)
  then have bits: "h_bits (hdr b) = 0" unfolding ts(1) by (simp add: candidate_def Let_def)
  have "mine_batch 100000 0 (header_serialize (hdr b)) 0 = (True, header_serialize (with_nonce (hdr b) 0), 0)"
    using mine_batch_hit [OF arr, of 0 100000 0 0] by (simp add: solves_def)
  then have "mine_loop (\<lambda>_. True) 0 (h_bits (hdr b)) (header_serialize (hdr b)) 0 0 = (True, 0)"
    by (simp add: mine_loop.simps bits)
  from mined_block_accepted [OF _ _ b this refl refl refl, of mini_times] show ?thesis
    using b mini_app_ok [of None] mini_mintable [of None] by (auto simp: mini_times_def MAX_TIME_SKEW_S_def mini_app_def)
qed

section \<open>Synchronisation\<close>

text \<open>
  C4: Synchronisation converges.  Two nodes are linked and idle, their sockets deliver the queued bytes in any
  pieces, and the chain of \<open>a\<close> has more work than that of \<open>b\<close>.  After \<open>a\<close> has announced its tip, at most
  two requests more than the number of full batches of 200 blocks bring \<open>b\<close> to exactly the chain of \<open>a\<close>,
  whether \<open>b\<close> is behind on the same chain or on a fork, up to a double SHA-256 collision.  The chain has at most
  500000 blocks, no reply exceeds the frame limit, and no block is from the future for \<open>b\<close>.
\<close>

theorem sync_converges:
  assumes "app_ok (ecng E) a" "linked j (p2p a) []" "app_ok (ecng E) b" "linked i (p2p b) []" "sync_peer b = -1"
    and "params a = params b" "pieces seg" "work (chain b) < work (chain a)"
    and "offered_chain E (\<lambda>k. tms (Suc k)) (params b) (blocks (chain a))"
    and "total_work (params b) (length (blocks (chain b))) < 2 ^ 64"
  shows "(\<exists>n \<le> 2 + length (blocks (chain a)) div 200. \<exists>a' b'. sync_session E tms seg j i n a b = (a', b') \<and>
      blocks (chain a') = blocks (chain a) \<and> blocks (chain b') = blocks (chain a)) \<or>
    collision (insert (genesis_msg (params b)) (chain_msgs (blocks (chain a)) \<union> chain_msgs (blocks (chain b))))"
  using session_converges [OF assms] by (auto simp: synced_def)

theorem sync_converges_witness:
  "(\<exists>n \<le> 2. \<exists>a' b'. sync_session mini_ext (\<lambda>_. mini_times) (\<lambda>bs. [take 3 bs, drop 3 bs]) 1 1 n
       (mini_linked (mini_two None)) (mini_linked (mini_start None)) = (a', b') \<and>
     blocks (chain a') = [mini_genesis, mini_block] \<and> blocks (chain b') = [mini_genesis, mini_block]) \<or>
   collision (insert (genesis_msg mini_params) (chain_msgs [mini_genesis, mini_block] \<union> chain_msgs [mini_genesis]))"
  using sync_converges [of mini_ext "mini_linked (mini_two None)" 1 "mini_linked (mini_start None)" 1 "\<lambda>bs. [take 3 bs, drop 3 bs]" "\<lambda>_. mini_times"]
    mini_linked_ok [OF mini_two_ok [of None]] mini_linked_ok [OF mini_start_ok [of None]] mini_offered mini_work
  by (simp add: pieces_def mini_total_work)

text \<open>
  C15: Relay.  Two linked, idle nodes have the same chain, and the miner of \<open>a\<close> submits a block that \<open>a\<close>
  connects.  The bytes this queues to \<open>b\<close> (the tip message, then the block), in any pieces, make \<open>b\<close> connect the
  same block, up to a double SHA-256 collision.
\<close>

theorem mined_block_relayed:
  assumes "relays E j i a b a' bl" "pieces seg" "clock_ok (now_s_at tm 0) bl" "carry E tm seg j i a' b = (a'', b')"
  shows "blocks (chain b') = blocks (chain b) @ [bl] \<and> blocks (chain a'') = blocks (chain b') \<or>
    collision (insert (genesis_msg (params b)) (chain_msgs (blocks (chain b) @ [bl])))"
proof -
  have "blocks (chain a') = blocks (chain b) @ [bl]" using assms(1) by (simp add: relays_def)
  then show ?thesis
    using block_relayed [OF assms(1-3) _ assms(4)] not_collision_iff by auto
qed

theorem mined_block_relayed_witness:
  "\<exists>a'' b'. carry mini_ext mini_times (\<lambda>bs. [bs]) 1 1 (miner_submit mini_ext mini_times 0 mini_block 0 (mini_linked (mini_start None)))
       (mini_linked (mini_start None)) = (a'', b') \<and>
     (blocks (chain b') = [mini_genesis, mini_block] \<and> blocks (chain a'') = blocks (chain b') \<or>
      collision (insert (genesis_msg mini_params) (chain_msgs [mini_genesis, mini_block])))"
  using mined_block_relayed [OF mini_relays, of "\<lambda>bs. [bs]" mini_times]
  by (cases "carry mini_ext mini_times (\<lambda>bs. [bs]) 1 1 (miner_submit mini_ext mini_times 0 mini_block 0 (mini_linked (mini_start None)))
       (mini_linked (mini_start None))") (simp add: pieces_def mini_clock)

text \<open>
  C29: A relayed block costs a full download.  The tip message precedes the block, so \<open>b\<close> has asked for the
  block before it arrives; the reply holds a block \<open>b\<close> already has, which is refused for its height, and
  \<^verbatim>\<open>handle_blocks\<close> takes the refusal for a fork.  One round later \<open>b\<close>, whose chain equals that of \<open>a\<close>, is
  downloading the whole chain from the genesis block (up to a collision).
\<close>

theorem relay_starts_download:
  assumes "relays E j i a b a' bl" "pieces seg" "clock_ok (now_s_at tm 0) bl" "carry E tm seg j i a' b = (a'', b')"
    and "sync_round E tm' seg j i (a'', b') = (a3, b3)"
  shows "blocks (chain b3) = blocks (chain b) @ [bl] \<and> sync_peer b3 = i \<and> sync_mode b3 = 2 \<and> cand b3 = [] \<and>
      queued i (p2p b3) = frame_into [] M_GET_BLOCKS (w_u32 200 (w_u64 0 [])) \<or>
    collision (insert (genesis_msg (params b)) (chain_msgs (blocks (chain b) @ [bl])))"
proof -
  have "blocks (chain a') = blocks (chain b) @ [bl]" using assms(1) by (simp add: relays_def)
  then show ?thesis
    using relay_refetches [OF assms(1-3) _ assms(4,5)] not_collision_iff queued_linked by (auto simp: ask_blocks_def)
qed

theorem relay_starts_download_witness:
  "\<exists>b3. b3 = snd (sync_round mini_ext mini_times (\<lambda>bs. [bs]) 1 1
       (carry mini_ext mini_times (\<lambda>bs. [bs]) 1 1 (miner_submit mini_ext mini_times 0 mini_block 0 (mini_linked (mini_start None)))
         (mini_linked (mini_start None)))) \<and>
     (sync_mode b3 = 2 \<and> cand b3 = [] \<or> collision (insert (genesis_msg mini_params) (chain_msgs [mini_genesis, mini_block])))"
proof -
  obtain a'' b' where c: "carry mini_ext mini_times (\<lambda>bs. [bs]) 1 1
      (miner_submit mini_ext mini_times 0 mini_block 0 (mini_linked (mini_start None))) (mini_linked (mini_start None)) = (a'', b')"
    by (cases "carry mini_ext mini_times (\<lambda>bs. [bs]) 1 1
      (miner_submit mini_ext mini_times 0 mini_block 0 (mini_linked (mini_start None))) (mini_linked (mini_start None))")
  obtain a3 b3 where r: "sync_round mini_ext mini_times (\<lambda>bs. [bs]) 1 1 (a'', b') = (a3, b3)"
    by (cases "sync_round mini_ext mini_times (\<lambda>bs. [bs]) 1 1 (a'', b')")
  show ?thesis
    using relay_starts_download [OF mini_relays _ _ c r] by (auto simp: c r pieces_def mini_clock)
qed

section \<open>The mempool\<close>

text \<open>
  C20: Admission to the pool.  \<^verbatim>\<open>Mempool::add\<close> admits a transaction exactly when it is a well-formed transfer or
  record of this network with a correct signature, the pool has room, it is not pending already, its nonce
  is at most 16 ahead of the sender's account and its (sender, nonce) slot is free, and a transfer that is
  next in line is covered by the sender's balance.  A rejected transaction leaves the pool as it was, and
  the pool invariant is kept in both cases.
\<close>

theorem mempool_admission:
  assumes "pool_ok c p m"
  shows "(fst (pool_add c t st p m) = None \<longleftrightarrow>
     tx_type t \<noteq> TX_COINBASE \<and> tx_static_ok c t p 0 False \<and> length (pm m) < 10000 \<and> txid t \<notin> pids m \<and>
     find_nonce (sender t) st \<le> tx_nonce t \<and> tx_nonce t \<le> find_nonce (sender t) st + 16 \<and>
     (tx_type t = TX_TRANSFER \<longrightarrow> tx_nonce t = find_nonce (sender t) st \<longrightarrow> tx_amount t \<le> find_balance (sender t) st) \<and>
     smap_find (pm m) (sender t, tx_nonce t) = None) \<and>
   snd (pool_add c t st p m) =
     (if fst (pool_add c t st p m) = None
      then m\<lparr>pm := smap_put (sender t, tx_nonce t) t (pm m), pids := insert (txid t) (pids m)\<rparr> else m) \<and>
   pool_ok c p (snd (pool_add c t st p m))"
  by (intro conjI pool_add_outcome pool_add_state pool_ok_add [OF assms])

theorem mempool_admission_witness:
  "fst (pool_add mini_cng mini_tx [] mini_params mempool0) = None \<and>
   pool_ok mini_cng mini_params (snd (pool_add mini_cng mini_tx [] mini_params mempool0))"
proof -
  note w = mempool_admission [OF pool_ok_empty, where c = mini_cng and p = mini_params and t = mini_tx and st = "[]"]
  have "fst (pool_add mini_cng mini_tx [] mini_params mempool0) = None"
    unfolding conjunct1 [OF w] by (simp add: mini_tx_static mini_tx_fields txtype_defs mempool0_def find_nonce_def)
  then show ?thesis using w by blast
qed

text \<open>
  C21: Block templates.  What \<^verbatim>\<open>collect\<close> picks from the pool applies without error, in the order picked, after
  the coinbase; it stays within the limit, and if it stops short of it then no pending transaction that is
  next in line for its sender could still be added.
\<close>

theorem block_template_maximal:
  assumes "smap_ok base" "res = collect c m base p height maxn"
  shows "runs c p height 1 base res \<and> set res \<subseteq> snd ` set (pm m) \<and> length res \<le> maxn \<and>
    (length res = maxn \<or> (\<forall>((a, n), t) \<in> set (pm m). n = nonce (st_get a (fold tx_effect res base)) \<longrightarrow>
       fst (apply_tx c (fold tx_effect res base) t p height False) \<noteq> None))"
  using collect_spec(1) [OF assms, of 0] collect_spec(2-4) [OF assms] by simp

theorem block_template_maximal_witness:
  "runs mini_cng mini_params 1 1 [] (collect mini_cng (snd (pool_add mini_cng mini_tx [] mini_params mempool0)) [] mini_params 1 1000)"
  using block_template_maximal [where base = "[]" and c = mini_cng and p = mini_params and height = 1 and maxn = 1000
      and m = "snd (pool_add mini_cng mini_tx [] mini_params mempool0)", OF smap_ok_Nil refl] by (rule conjunct1)

text \<open>
  C31: After a change of the chain, \<^verbatim>\<open>purge\<close> drops exactly the pending transactions whose nonce has been used,
  keeps the others in order, and the id set stays the set of ids of the pending transactions.
\<close>

theorem mempool_purge:
  assumes "pool_ok c p m"
  shows "pm (purge st m) = filter (\<lambda>((a, n), t). find_nonce a st \<le> n) (pm m) \<and>
    pids (purge st m) = (\<lambda>e. txid (snd e)) ` set (pm (purge st m)) \<and> pool_ok c p (purge st m)"
  using purge_entries [OF assms] pool_ok_purge [OF assms] by simp

theorem mempool_purge_witness:
  "pm (purge [] (snd (pool_add mini_cng mini_tx [] mini_params mempool0))) =
     filter (\<lambda>((a, n), t). find_nonce a [] \<le> n) (pm (snd (pool_add mini_cng mini_tx [] mini_params mempool0)))"
  by (rule mempool_purge [OF pool_ok_add [OF pool_ok_empty], THEN conjunct1])

section \<open>The network\<close>

text \<open>
  C19: Framing.  However the stream of some messages is cut into \<^verbatim>\<open>recv\<close> results and turns of the network loop,
  the node handles exactly those messages, in order, and ends in the same state with the same callbacks.
\<close>

theorem framing_any_chunks:
  assumes "\<not> dead p" "\<not> connecting p" "inbuf p = []" "list_all (\<lambda>(ty, payload). length payload \<le> MAX_FRAME) ms"
    and "concat (concat turns) = stream ms" "length (stream ms) \<le> 16 * 1024 * 1024"
    and "read_turns nid port i turns (p, evs) = (p', evs')"
  shows "run_frames nid port i ms p evs = (settled p', evs')"
  using assms by (rule read_turns_stream)

theorem framing_any_chunks_witness:
  "run_frames 7 7501 1 [(M_TX, [1, 2]), (M_BLOCK, [3])] peer0 [] =
    (settled (fst (read_turns 7 7501 1 [[[2, 0], [0]], [[0, 5, 1]], [[2, 1, 0, 0, 0, 6, 3]]] (peer0, []))),
     snd (read_turns 7 7501 1 [[[2, 0], [0]], [[0, 5, 1]], [[2, 1, 0, 0, 0, 6, 3]]] (peer0, [])))"
proof (rule framing_any_chunks)
  show "concat (concat [[[2, 0], [0]], [[0, 5, 1]], [[2, 1, 0, 0, 0, 6, 3]]]) = stream [(M_TX, [1, 2]), (M_BLOCK, [3])]"
    by code_simp
qed (simp_all add: peer0_def MAX_FRAME_def frame_into_eq le_bytes_def msg_defs)

text \<open>
  C30: One link per pair.  When two nodes on different ports dial each other, both ends keep the link dialled
  by the node with the lower port and both ends drop the other one, so exactly one link survives.
\<close>

theorem one_link_per_pair:
  assumes "pa \<noteq> pb" "pa \<noteq> 0" "pb \<noteq> 0" "\<not> dead out" "\<not> dead inn" "target out \<noteq> []" "target inn = []"
  shows "(keeps_link nid pa pb out \<and> keeps_link nid pb pa inn \<longleftrightarrow> pa < pb) \<and>
    (\<not> keeps_link nid pa pb out \<and> \<not> keeps_link nid pb pa inn \<longleftrightarrow> pb < pa)"
  using assms by (auto simp: keeps_link_iff)

theorem one_link_per_pair_witness:
  "keeps_link 7 7501 7502 (peer0\<lparr>target := ''x''\<rparr>) \<and> keeps_link 7 7502 7501 peer0 \<and>
   \<not> keeps_link 7 7502 7501 (peer0\<lparr>target := ''y''\<rparr>) \<and> \<not> keeps_link 7 7501 7502 peer0"
  using one_link_per_pair [of 7501 7502 "peer0\<lparr>target := ''x''\<rparr>" peer0 7]
    one_link_per_pair [of 7502 7501 "peer0\<lparr>target := ''y''\<rparr>" peer0 7] by (simp add: peer0_def)

text \<open>
  C28: The wire format of blocks is canonical: a byte string parses to a block if and only if it is the
  serialization of that block, and the parser accepts every block within the size limits.
\<close>

theorem block_wire_canonical: "block_parse raw = Some b \<longleftrightarrow> block_ok b \<and> raw = block_serialize b"
  by (rule block_parse_Some_iff)

section \<open>Merkle trees and proofs\<close>

text \<open>
  C22: The Merkle root binds the transactions of a block: two lists of distinct transactions with the same
  root are equal, or two different ones among the byte strings hashed have the same double SHA-256.
\<close>

theorem merkle_root_binds:
  assumes "list_all tx_ok ts" "list_all tx_ok us" "ts \<noteq> []" "us \<noteq> []" "distinct ts" "distinct us"
    and "merkle_root (map txid ts) = merkle_root (map txid us)"
  shows "ts = us \<or> collision (block_msgs ts \<union> block_msgs us)"
  using assms merkle_root_binding not_collision_iff by blast

theorem merkle_root_binds_witness: "[mini_coinbase] = txs mini_block \<or> collision (block_msgs [mini_coinbase] \<union> block_msgs (txs mini_block))"
  by (rule merkle_root_binds)
    (simp_all add: mini_block_def mini_coinbase_def tx_ok_def tx_default_def)

text \<open>
  C39: The path \<^verbatim>\<open>merkle_proof\<close> returns for a leaf leads from that leaf to the root.
\<close>

theorem merkle_proof_completes:
  assumes "i < length leaves"
  shows "merkle_apply (leaves ! i) (merkle_proof leaves i) = merkle_root leaves"
  using assms by (rule merkle_proof_complete)

theorem merkle_proof_completes_witness: "merkle_apply [3] (merkle_proof [[1], [2], [3]] 2) = merkle_root [[1], [2], [3]]"
  using merkle_proof_completes [of 2 "[[1], [2], [3]]"] by (simp add: numeral_eq_Suc)

section \<open>GPU miner\<close>

text \<open>
  C24: The GPU computes the same hash.  \<^verbatim>\<open>sha256d_100\<close> of a 100-byte header is \<^verbatim>\<open>sha256d\<close> of the node, whatever the
  device buffers held before, and the kernel's test of a nonce is the node's \<^verbatim>\<open>pow_ok\<close> on the header with
  that nonce.
\<close>

theorem gpu_hash_equals:
  assumes "length raw = 100" "length junk = 64" "length junk2 = 64" "unat bits < 2 ^ 31"
  shows "sha256d_100 junk junk2 raw = sha256d raw \<and> (dev_hit raw bits nc \<longleftrightarrow> pow_ok (sha256d (patch_nonce raw nc)) bits)"
  using sha256d_100_eq [OF assms(1-3)] dev_hit_iff [OF assms(1,4)] by simp

theorem gpu_hash_equals_witness:
  "sha256d_100 (replicate 64 9) (replicate 64 8) (replicate 100 1) = sha256d (replicate 100 1) \<and>
   (dev_hit (replicate 100 1) 20 5 \<longleftrightarrow> pow_ok (sha256d (patch_nonce (replicate 100 1) 5)) 20)"
  by (rule gpu_hash_equals) simp_all

text \<open>
  C25: A launch of the kernel searches its whole range.  However its threads interleave, when all have
  returned then either the flag is set and the nonce stored meets the target, or no nonce among the
  \<^verbatim>\<open>stride * per_thread\<close> nonces from \<^verbatim>\<open>base\<close> does.
\<close>

theorem gpu_round_exhaustive:
  assumes "gpu_start stride s" "(gpu_step raw bits base stride per_thread)\<^sup>*\<^sup>* s s'" "\<forall>t. g_thread s' t = Returned"
  shows "if g_flag s' then dev_hit raw bits (g_found s') else \<forall>i < stride * per_thread. \<not> dev_hit raw bits (base + of_nat i)"
  using round_result [OF assms] by simp

theorem gpu_round_exhaustive_witness: "dev_hit (replicate 100 1) 0 5"
  using gpu_round_exhaustive [OF one_thread_start one_thread_wins [of "replicate 100 1" 5]] by simp

text \<open>
  C26: Every launch of the kernel ends: no interleaving takes more than \<^verbatim>\<open>stride * (2 * per_thread + 2)\<close> steps,
  and as long as some thread has not returned, one can take a step.
\<close>

theorem gpu_round_terminates:
  assumes "gpu_start stride s" "((gpu_step raw bits base stride per_thread) ^^ n) s s'"
  shows "n \<le> stride * (2 * per_thread + 2) \<and>
    ((\<exists>t. g_thread s' t \<noteq> Returned) \<longrightarrow> (\<exists>s''. gpu_step raw bits base stride per_thread s' s''))"
  using gpu_run_length [OF assms] gpu_rank_start [OF assms(1), of per_thread] gpu_progress [of s'] by auto

theorem gpu_round_terminates_witness:
  "\<exists>s'. gpu_step (replicate 100 1) 20 5 1 1 (one_thread\<lparr>g_thread := (g_thread one_thread)(0 := Trying 0)\<rparr>) s'"
proof -
  have "((gpu_step (replicate 100 1) 20 5 1 1) ^^ 1) one_thread (one_thread\<lparr>g_thread := (g_thread one_thread)(0 := Trying 0)\<rparr>)"
    unfolding relpowp_1 by (rule one_thread_begins)
  moreover have "\<exists>t. g_thread (one_thread\<lparr>g_thread := (g_thread one_thread)(0 := Trying 0)\<rparr>) t \<noteq> Returned"
    by (rule exI [of _ 0]) simp
  ultimately show ?thesis using gpu_round_terminates [OF one_thread_start] by blast
qed

text \<open>
  C13: The GPU miner mines.  In one turn of its loop against a node whose difficulty is not 0 (which \<^verbatim>\<open>main\<close> ignores), the miner works on exactly the header and
  difficulty the node offers.  If it submits nothing, then a status check has shown another tip than the one it works on, or
  none of the nonces of its 64 launches solves the offered header.  If it submits, then it submits the offered header with a nonce that solves it; and a node
  that has dropped the template by then (\<^verbatim>\<open>/work\<close> clears the cache when it holds more than 64, a new tip clears it too) answers 400 and keeps its chain, while a node that
  still holds transactions for the header answers 200 and extends its chain by the block, if its tip has not moved.
  Right after \<^verbatim>\<open>/work\<close> it holds the ones it offered.  The launches may end in any way the interleavings of the kernel allow.
\<close>

theorem gpu_mines_block:
  assumes "app_ok (ecng E) a" "app_ok (ecng E) a'" "0 < p_bits (params a)" "unat (p_bits (params a)) < 2 ^ 31"
    and "splits up" "splits down" "splits up'" "splits down'" "plain_host host" "length host \<le> 100"
    and "http_at 0 = http_call (node_wire E tm rf viewer_html up down a)" "http_at 1 = http_call (node_wire E tm' rf viewer_html up' down' a')"
    and "\<forall>w b. kernel_outcome (gw_hdr w) (of_int (gw_bits w)) stride per_thread b (launch w b)"
    and "a1 = snd (handle_rpc E tm rf viewer_html (call_req ''GET'' ''/work'' []) a)"
  shows "(case gpu_turn http_at host port [] launch (stride * per_thread) base of
      None \<Rightarrow> (\<exists>k < 64. tip_moved (http_at (k + 2)) host port (hexs (tip_hash (chain a))) k) \<or>
        (\<forall>i < 64 * (stride * per_thread). \<not> pow_ok (header_hash (with_nonce (hdr (offered E tm a)) (base + of_nat i))) (p_bits (params a)))
    | Some (code, resp) \<Rightarrow> \<exists>nc h a2. h = with_nonce (hdr (offered E tm a)) nc \<and> pow_ok (header_hash h) (p_bits (params a)) \<and>
        a2 = snd (handle_rpc E tm' rf viewer_html (call_req ''POST'' ''/submitwork'' (hexs (header_serialize h))) a') \<and>
        (case smap_find (work_cache a') (h_merkle h) of
           None \<Rightarrow> code = 400 \<and> chain a2 = chain a'
         | Some ts \<Rightarrow> chain a' = chain a \<and> mintable (chain a) \<and> now_s_at tm 0 \<le> now_s_at tm' 0 + MAX_TIME_SKEW_S \<longrightarrow>
             code = 200 \<and> blocks (chain a2) = blocks (chain a) @ [\<lparr>hdr = h, txs = ts\<rparr>])) \<and>
    smap_find (work_cache a1) (h_merkle (hdr (offered E tm a))) = Some (txs (offered E tm a)) \<and> chain a1 = chain a"
proof -
  have "core_ok (ecng E) a" using assms(1) by (simp add: app_ok_def)
  from gpu_turn_outcome [OF assms(1-13)] work_held [OF this assms(14)] show ?thesis by blast
qed

theorem gpu_mines_block_witness:
  "\<exists>a a1 launch. fst (node_run mini_ext (\<lambda>_. 0) 0 mini_boot (args_parse [''clnode''])) = Inr a \<and> unat (p_bits (params a)) = 20 \<and>
     a1 = snd (handle_rpc mini_ext mini_times (\<lambda>_. []) [] (call_req ''GET'' ''/work'' []) a) \<and>
     (case gpu_turn (\<lambda>i. if i = 0 then http_call (node_wire mini_ext mini_times (\<lambda>_. []) [] one_piece one_piece a)
         else if i = 1 then http_call (node_wire mini_ext mini_times (\<lambda>_. []) [] one_piece one_piece a1) else (\<lambda>_ _ _ _ _. (-1, [])))
        ''127.0.0.1'' 8501 [] launch (2 * 256) 7 of
        None \<Rightarrow> list_all (\<lambda>i. \<not> pow_ok (header_hash (with_nonce (hdr (offered mini_ext mini_times a)) (7 + of_nat i))) 20) [0..<64 * (2 * 256)]
      | Some (code, resp) \<Rightarrow> code = 200 \<and> (\<exists>nc. blocks (chain (snd (handle_rpc mini_ext mini_times (\<lambda>_. []) [] (call_req ''POST'' ''/submitwork''
            (hexs (header_serialize (with_nonce (hdr (offered mini_ext mini_times a)) nc)))) a1))) =
          blocks (chain a) @ [\<lparr>hdr = with_nonce (hdr (offered mini_ext mini_times a)) nc, txs = txs (offered mini_ext mini_times a)\<rparr>]))"
proof -
  obtain a where a: "fst (node_run mini_ext (\<lambda>_. 0) 0 mini_boot (args_parse [''clnode''])) = Inr a" "length (blocks (chain a)) = 1"
      "params a = node_params (args_parse [''clnode''])"
    using mini_boot_node by blast
  have ok: "app_ok (ecng mini_ext) a" by (rule node_run_ok [OF a(1)])
  define a1 where "a1 = snd (handle_rpc mini_ext mini_times (\<lambda>_. []) [] (call_req ''GET'' ''/work'' []) a)"
  have "handled (ecng mini_ext) a a1" unfolding a1_def by (rule handled_rpc [OF ok])
  then have ok1: "app_ok (ecng mini_ext) a1" unfolding handled_def by (rule conjunct1)
  have "strtoul ''20'' = 20"
    by (simp add: strtoul_def scan_int_def is_space_def is_digit_def less_eq_char_def dec_value_def digit_val_def)
  then have p: "params a = default_params" by (simp add: a(3) node_params_def args_parse_def args_get_def args_has_def Let_def default_params_def)
  then have bits: "0 < p_bits (params a)" "unat (p_bits (params a)) < 2 ^ 31" "p_bits (params a) = 20" by (simp_all add: default_params_def)
  have mint: "mintable (chain a)" using ok a(2) p by (simp add: mintable_def app_ok_def core_ok_def default_params_def)
  have host: "plain_host ''127.0.0.1''" by (simp add: plain_host_def is_digit_def)
  obtain f where k: "\<forall>(w :: gpu_work) b. kernel_outcome (gw_hdr w) (of_int (gw_bits w)) 2 256 b (f w b)" using launches_exist by blast
  let ?http = "\<lambda>i :: nat. if i = 0 then http_call (node_wire mini_ext mini_times (\<lambda>_. []) [] one_piece one_piece a)
         else if i = 1 then http_call (node_wire mini_ext mini_times (\<lambda>_. []) [] one_piece one_piece a1) else (\<lambda>_ _ _ _ _. (-1, []))"
  have "?http 0 = http_call (node_wire mini_ext mini_times (\<lambda>_. []) [] one_piece one_piece a)"
    "?http 1 = http_call (node_wire mini_ext mini_times (\<lambda>_. []) [] one_piece one_piece a1)" by simp_all
  note m = gpu_mines_block [where http_at = ?http, OF ok ok1 bits(1,2) one_piece_splits one_piece_splits one_piece_splits one_piece_splits host _ this k a1_def,
      where port = 8501 and base = 7]
  have same: "h_merkle (with_nonce h nc) = h_merkle h" for h nc by (simp add: with_nonce_def)
  have clk: "now_s_at mini_times 0 \<le> now_s_at mini_times 0 + MAX_TIME_SKEW_S" by (simp add: mini_times_def MAX_TIME_SKEW_S_def)
  show ?thesis
    by (rule exI [of _ a], rule exI [of _ a1], rule exI [of _ f])
      (use m a(1) bits(3) mint clk in \<open>auto simp: a1_def [symmetric] same tip_moved_def list_all_iff split: option.splits\<close>)
qed

section \<open>Clients, wallet and start-up\<close>

text \<open>
  C18: An RPC call over HTTP is a call of the handler.  The server serves its connections in turn; whatever the connections before
  and after it do (fail, send garbage, break off), and whatever pieces the request and the reply travel in, \<^verbatim>\<open>http_req\<close> returns the status and body that
  \<^verbatim>\<open>handle_rpc\<close> gives for the method, path, query and body of the call on the state the connections before it left, and leaves
  the state \<^verbatim>\<open>handle_rpc\<close> leaves.
\<close>

theorem rpc_call_roundtrip:
  assumes "plain_target m" "plain_target path" "plain_host host" "length m + length path + length host \<le> 3900" "length body \<le> 4 * 1024 * 1024"
    and "concat (cn_pieces cn) = http_request host port m path body" "[] \<notin> set (cn_pieces cn)"
    and "(resp, a') = handle_rpc E (cn_times cn) rf viewer_html (call_req m path body) (snd (serve_loop E rf viewer_html before a))"
    and "length (resp_body resp) \<le> 60 * 1024 * 1024" "sends_all (cn_sends cn) (render_response resp)"
    and "concat down = fst (serve_loop E rf viewer_html (before @ Some cn # after) a) ! length before"
  shows "http_call (\<lambda>_ _ _. Some down) host port m path body = (resp_code resp, resp_body resp) \<and>
    snd (serve_loop E rf viewer_html (before @ [Some cn]) a) = a'"
  using server_answers [OF assms(1-7) refl assms(8-11)] by (simp add: http_call_def)

theorem rpc_call_roundtrip_witness:
  "\<exists>cn down. http_call (\<lambda>_ _ _. Some down) ''127.0.0.1'' 8501 ''GET'' ''/help'' [] = (resp_code rpc_help, resp_body rpc_help) \<and>
     snd (serve_loop mini_ext (read_file Map.empty) [] ([None, Some \<lparr>cn_pieces = [''x''], cn_sends = [], cn_times = mini_times\<rparr>] @ [Some cn]) (mini_app None)) =
       mini_app None"
proof -
  let ?bad = "[None, Some \<lparr>cn_pieces = [''x''], cn_sends = [], cn_times = mini_times\<rparr>]" and ?rf = "read_file Map.empty"
  define cn where "cn = \<lparr>cn_pieces = one_piece (http_request ''127.0.0.1'' 8501 ''GET'' ''/help'' []),
    cn_sends = [int (length (render_response rpc_help))], cn_times = mini_times\<rparr>"
  have bad: "snd (serve_loop mini_ext ?rf [] ?bad (mini_app None)) = mini_app None"
    by (simp add: serve_conn_def parse_request_def starts_with_def crlf_def)
  have pieces: "concat (cn_pieces cn) = http_request ''127.0.0.1'' 8501 ''GET'' ''/help'' []" "[] \<notin> set (cn_pieces cn)"
    using one_piece_splits by (simp_all add: cn_def splits_def)
  have resp: "(rpc_help, mini_app None) =
      handle_rpc mini_ext (cn_times cn) ?rf [] (call_req ''GET'' ''/help'' []) (snd (serve_loop mini_ext ?rf [] ?bad (mini_app None)))"
    unfolding bad by (simp add: handle_rpc_def call_req_def target_path_def starts_with_def)
  have size: "length (resp_body rpc_help) \<le> 60 * 1024 * 1024" "0 < length (resp_body rpc_help)"
    by (simp_all add: rpc_help_def text200_def help_lines_def)
  have sent: "sends_all (cn_sends cn) (render_response rpc_help)"
  proof -
    have "render_response rpc_help \<noteq> []" using size(2) unfolding render_response_def by simp
    then show ?thesis by (simp add: sends_all_def cn_def)
  qed
  define out where "out = fst (serve_loop mini_ext ?rf [] (?bad @ Some cn # []) (mini_app None)) ! length ?bad"
  have "concat [out] = fst (serve_loop mini_ext ?rf [] (?bad @ Some cn # []) (mini_app None)) ! length ?bad" by (simp add: out_def)
  from rpc_call_roundtrip [OF _ _ _ _ _ pieces resp size(1) sent this]
  show ?thesis by (simp add: plain_target_def plain_host_def is_digit_def del: serve_loop.simps append.simps) blast
qed

text \<open>
  C16: A proof file from \<^verbatim>\<open>clctl prove\<close> verifies.  For every transaction on the node's chain, \<^verbatim>\<open>clctl prove\<close> writes
  a file that \<^verbatim>\<open>clctl verify\<close>, on any machine and with no node, accepts (exit code 0), or two different ones
  among the byte strings hashed for the chain have the same double SHA-256.
\<close>

theorem prove_then_verify:
  assumes "chain_ok c (chain a)" "length (blocks (chain a)) \<le> 2 ^ 32" "length (all_txs (blocks (chain a))) \<le> 2 ^ 64"
    and "length i = 32" "smap_find (txidx (chain a)) i = Some loc" "\<not> is_opt f" "can_write f" "splits up" "splits down"
    and "http = http_call (node_wire E tm rf viewer_html up down a)"
    and "res = clctl cg http rnd can_write (prove_argv i f) fs"
  shows "cr_code res = 0 \<and> cr_code (clctl cg' http' rnd' can_write' (verify_argv f) (cr_files res)) = 0 \<or>
    collision (insert (genesis_msg (cparams (chain a))) (chain_msgs (blocks (chain a))))"
  using cli_prove_verify [OF assms(1-3) _ assms(4-11)] not_collision_iff by blast

theorem prove_then_verify_witness:
  "\<exists>res. res = clctl mini_cng (http_call (node_wire mini_ext mini_times (\<lambda>_. []) [] one_piece one_piece
       ((mini_app None)\<lparr>chain := mini_two None\<rparr>))) 0 (\<lambda>_. True) (prove_argv (txid mini_coinbase) ''p.txt'') Map.empty \<and>
     (cr_code res = 0 \<and> cr_code (clctl mini_cng (\<lambda>_ _ _ _ _. (-1, [])) 0 (\<lambda>_. False) (verify_argv ''p.txt'') (cr_files res)) = 0 \<or>
      collision (insert (genesis_msg mini_params) (chain_msgs [mini_genesis, mini_block])))"
proof -
  let ?a = "(mini_app None)\<lparr>chain := mini_two None\<rparr>"
  have ch: "chain_ok mini_cng (chain ?a)" "length (blocks (chain ?a)) \<le> 2 ^ 32" "length (all_txs (blocks (chain ?a))) \<le> 2 ^ 64"
    by (simp_all add: mini_two_ok mini_block_def mini_genesis_def genesis_arrays)
  have "txidx (mini_two None) = index_block mini_block (index_block mini_genesis [])"
    using mini_two_ok [of None] by (simp add: chain_ok_def)
  then have i: "smap_find (txidx (chain ?a)) (txid mini_coinbase) = Some (1, 0)"
    by (simp add: index_block_def mini_genesis_def genesis_arrays mini_block_def smap_find_put)
  have f: "\<not> is_opt ''p.txt''" by (simp add: is_opt_def)
  show ?thesis
    by (rule exI, rule conjI [OF refl])
      (use prove_then_verify [where E = mini_ext and f = "''p.txt''" and can_write = "\<lambda>_. True", OF ch length_txid i f TrueI
        one_piece_splits one_piece_splits refl refl] in simp)
qed

text \<open>
  C17: What a verified proof shows.  If \<^verbatim>\<open>clctl verify\<close> accepts a proof file for the id of a transaction, and the
  block hash in it is that of a block of a valid chain, then the transaction is in that block and the height
  in the file is the block's, or two different ones among the byte strings hashed for the chain and the
  proof have the same double SHA-256.
\<close>

theorem verified_proof_sound:
  assumes "check_proof content = Some True" "tx_ok t" "pf_txid (read_proof content) = Some (txid t)"
    and "valid_chain c p bs" "Suc k < length bs" "pf_blockhash (read_proof content) = Some (header_hash (hdr (bs ! Suc k)))"
  shows "t \<in> set (txs (bs ! Suc k)) \<and> pf_height (read_proof content) = h_height (hdr (bs ! Suc k)) \<or>
    collision (insert (tx_serialize t) (chain_msgs bs \<union> proof_msgs content))"
proof (rule disjCI)
  assume "\<not> collision (insert (tx_serialize t) (chain_msgs bs \<union> proof_msgs content))"
  then show "t \<in> set (txs (bs ! Suc k)) \<and> pf_height (read_proof content) = h_height (hdr (bs ! Suc k))"
    unfolding not_collision_iff by (rule verified_in_block [OF assms])
qed

theorem verified_proof_sound_witness:
  "mini_coinbase \<in> set (txs mini_block) \<and> pf_height (read_proof (proof_text (txid mini_coinbase) mini_block 0)) = 1 \<or>
    collision (insert (tx_serialize mini_coinbase) (chain_msgs [mini_genesis, mini_block] \<union> proof_msgs (proof_text (txid mini_coinbase) mini_block 0)))"
proof -
  have b: "txs mini_block = [mini_coinbase]" "h_height (hdr mini_block) = 1" by (simp_all add: mini_block_def)
  have ok: "check_proof (proof_text (txid mini_coinbase) mini_block 0) = Some True"
    by (rule check_proof_text [OF mini_chain [of mini_cng], of 0]) (simp_all add: b)
  have "read_proof (proof_text (txid mini_coinbase) mini_block 0) = \<lparr>pf_txid = Some (txid mini_coinbase),
      pf_blockhash = Some (header_hash (hdr mini_block)), pf_height = h_height (hdr mini_block),
      pf_header = Some (header_serialize (hdr mini_block)), pf_steps = merkle_proof (map txid (txs mini_block)) (unat (0 :: u32))\<rparr>"
    by (rule read_proof_text) (use mini_block_arrays merkle_proof_siblings [of 0 "txs mini_block"] b in \<open>simp_all add: block_arrays_def\<close>)
  then show ?thesis
    using verified_proof_sound [OF ok _ _ mini_chain [of mini_cng], of mini_coinbase 0] b
      chain_txs_ok [OF mini_chain [of mini_cng], of mini_coinbase] by auto
qed

text \<open>
  C33: A transaction built by \<^verbatim>\<open>clctl\<close> from the account state of the node (its nonce and network id) is admitted
  to the node's pool, if it is a covered transfer or a record of legal size, the slot is free and the pool
  has room.  The signature library is assumed to verify what it signs.
\<close>

theorem wallet_tx_admitted:
  assumes "cng_laws c" "kp_ok kp" "\<not> is_zero (kpub kp)"
    and "build_tx c rnd kp ty to amount payload (p_net_id p) (find_nonce (addr_of (kpub kp)) st) = Some t"
    and "ty = TX_TRANSFER \<and> payload = [] \<and> amount \<le> find_balance (addr_of (kpub kp)) st \<or>
       ty = TX_RECORD \<and> amount = 0 \<and> payload \<noteq> [] \<and> length payload \<le> MAX_PAYLOAD"
    and "length (pm m) < 10000" "txid t \<notin> pids m" "smap_find (pm m) (addr_of (kpub kp), tx_nonce t) = None"
    and "find_nonce (addr_of (kpub kp)) st \<le> find_nonce (addr_of (kpub kp)) st + 16"
  shows "fst (pool_add c t st p m) = None"
  using assms by (rule wallet_tx_accepted)

theorem wallet_tx_admitted_witness: "fst (pool_add mini_cng mini_tx [] mini_params mempool0) = None"
proof (rule wallet_tx_admitted [OF mini_cng_laws mini_key_ok])
  show "build_tx mini_cng 0 mini_key TX_RECORD (replicate 20 0) 0 [1, 2, 3] (p_net_id mini_params) (find_nonce (addr_of (kpub mini_key)) []) =
      Some mini_tx"
    by (simp add: build_tx_def kp_sign_def mini_cng_def mini_key_def mini_tx_def mini_draft_def tx_default_def find_nonce_def kp_valid_def Let_def length_sha256 sign_hash_def)
qed (simp_all add: mempool0_def find_nonce_def MAX_PAYLOAD_def)

text \<open>
  C34: Start-up.  Whatever the database holds (corrupted or invalid blocks included), a node that gets through
  \<^verbatim>\<open>node_run\<close> starts in a state that satisfies the node invariant.
\<close>

theorem node_starts_valid:
  assumes "fst (node_run E clk now bt a) = Inr ap"
  shows "node_start (ecng E) \<lparr>napp = ap, nevs = [], nmine = None\<rparr>"
  using node_run_ok [OF assms] by (simp add: node_start_def)

theorem node_starts_valid_witness:
  "\<exists>ap. fst (node_run mini_ext (\<lambda>_. 0) 0 mini_boot (args_parse [''clnode''])) = Inr ap \<and>
     node_start mini_cng \<lparr>napp = ap, nevs = [], nmine = None\<rparr>"
  using mini_boot_starts node_starts_valid [of mini_ext] by fastforce

text \<open>
  C36: The launcher wires the nodes together.  When \<^verbatim>\<open>supervise\<close> reports a start, the two port ranges it picked
  were free, the three nodes were spawned one after the other in the job, each with its command line, and all of them have answered a status request in one of
  the 100 polls.  If the paths contain no quote, the options are words and everything fits the buffer of \<^verbatim>\<open>strf\<close>, then the program
  that receives the command line of node \<^verbatim>\<open>i\<close>, split by the C runtime, runs as a single node on its own data directory, and the node that \<^verbatim>\<open>node_run\<close> starts
  listens on the ports meant for node \<^verbatim>\<open>i\<close>, has exactly the addresses of the other two nodes as its peers, and has the parameters all three share.
\<close>

theorem launcher_wires_nodes:
  assumes "supervise W http_at polls pb exe a fs os = (Inr run, fs', os')"
    and "root = args_get a ''datadir'' (dir_of exe @ backslash @ ''chainlite-data'')" "bits = args_get a ''bits'' ''18''" "hb = args_get a ''heartbeat'' ''12''"
    and "cmd = node_cmdline exe root (sr_p2p run) (sr_rpc run) bits hb" "carried exe root bits hb"
  shows "range_free pb (sr_p2p run) (sr_rpc run) \<and> (\<exists>t < 100. all_up (http_at t) (kid_ports (sr_rpc run))) \<and>
    (\<exists>ss. ss 0 = snd (open_job W os) \<and> (\<forall>k < NODES. spawn_node W exe (cmd k) (node_dir root k @ backslash @ ''node.log'')
       (fst (open_job W os)) (sr_rpc run + of_nat k) (ss k) = (Some (sr_kids run ! k), ss (Suc k)))) \<and>
    (i < NODES \<longrightarrow>
       app_main E clk now bt V http polls' pb' (crt_argv (cmd i)) vs = Inl (node_run E clk now bt (args_parse (crt_argv (cmd i)))) \<and>
       args_get (args_parse (crt_argv (cmd i))) ''datadir'' d = node_dir root i \<and>
       (fst (node_run E clk now bt (args_parse (crt_argv (cmd i)))) = Inr ap \<longrightarrow>
          listen_port (p2p ap) = sr_p2p run + of_nat i \<and> rpc_port ap = sr_rpc run + of_nat i \<and>
          targets (p2p ap) = map (\<lambda>j. ''127.0.0.1:'' @ dec (unat (sr_p2p run) + j)) (filter (\<lambda>j. j \<noteq> i) [0..<NODES]) \<and>
          rpc_peers ap = rpc_list (sr_rpc run) \<and> params ap = default_params\<lparr>p_bits := strtoul bits\<rparr> \<and>
          heartbeat_s ap = strtoull hb \<and> mine_on ap))"
proof -
  note sup = supervise_started [OF assms(1,2)] and room = find_ports_room [OF supervise_started(1) [OF assms(1,2)]]
  show ?thesis
    using sup(2,3) find_ports_Some [OF sup(1)] node_reads_cmdline [OF assms(6) conjunct1 [OF room] conjunct2 [OF room], of i d E clk now bt ap]
    unfolding assms(3,4,5) app_main_def Let_def by simp
qed

theorem launcher_wires_nodes_witness:
  "\<exists>ap. app_main mini_ext (\<lambda>_. 0) 0 mini_boot (mini_win True 9) (\<lambda>_ _ _ _ _ _. (200, [])) [] mini_probe
       (crt_argv (node_cmdline ''chainlite.exe'' (''.'' @ backslash @ ''chainlite-data'') 7501 8501 ''18'' ''12'' 1)) mini_os0 = Inl (Inr ap, snd (node_run mini_ext (\<lambda>_. 0) 0 mini_boot
       (args_parse (crt_argv (node_cmdline ''chainlite.exe'' (''.'' @ backslash @ ''chainlite-data'') 7501 8501 ''18'' ''12'' 1))))) \<and>
     listen_port (p2p ap) = 7502 \<and> targets (p2p ap) = [''127.0.0.1:'' @ dec 7501, ''127.0.0.1:'' @ dec 7503]"
proof -
  let ?a = "args_parse []"
  have arg: "args_get ?a k v = v" for k v by (simp add: args_parse_def args_get_def)
  obtain run fs os where r: "supervise (mini_win True 9) (\<lambda>_ _ _ _ _ _. (200, [])) [] mini_probe ''chainlite.exe'' ?a Map.empty mini_os0 = (Inr run, fs, os)"
    using mini_started by metis
  have pr: "sr_p2p run = 7501" "sr_rpc run = 8501" using supervise_started(1) [OF r refl] find_ports_mini by simp_all
  have root: "''.'' @ backslash @ ''chainlite-data'' = args_get ?a ''datadir'' (dir_of ''chainlite.exe'' @ backslash @ ''chainlite-data'')"
    by (simp add: arg dir_of_def is_slash_def)
  have car: "carried ''chainlite.exe'' (''.'' @ backslash @ ''chainlite-data'') ''18'' ''12''"
    by (simp add: carried_def backslash_def is_opt_def plain_word_def is_blank_def)
  let ?cmd = "node_cmdline ''chainlite.exe'' (''.'' @ backslash @ ''chainlite-data'') 7501 8501 ''18'' ''12''"
  obtain ap where ap: "fst (node_run mini_ext (\<lambda>_. 0) 0 mini_boot (args_parse (crt_argv (?cmd 1)))) = Inr ap"
    using mini_boot_starts by blast
  show ?thesis
    using launcher_wires_nodes [OF r root arg [symmetric] arg [symmetric] refl car, where i = 1 and ap = ap and E = mini_ext and bt = mini_boot
        and clk = "\<lambda>_. 0" and now = 0 and V = "mini_win True 9" and http = "\<lambda>_ _ _ _ _ _. (200, [])" and polls' = "[]" and pb' = mini_probe and vs = mini_os0] ap
    by (intro exI [of _ ap]) (simp add: pr NODES_def upt_rec prod_eq_iff)
qed

text \<open>
  C37: No node outlives the launcher.  When \<^verbatim>\<open>supervise\<close> returns, no process goes on running that was not running before: every node it started
  has ended or its end has begun (\<^verbatim>\<open>TerminateProcess\<close> and the closing of a job do not wait for it, and neither does the code).
  After Ctrl+C this is so because every child is terminated, and no handle the launcher opened is left open; after a failed start because closing the job ends the nodes started so far, provided that
  the job could be created, limited and filled (whose results the code does not check; \<open>failed_start_orphans\<close> shows a run in which there is no job).
\<close>

theorem launcher_leaves_no_orphans:
  assumes "win_laws W" "supervise W http_at polls pb exe a fs os = (r, fs', os')"
    and "win_jobs_work W \<or> (\<exists>run. r = Inr run)"
  shows "win_running W os' \<subseteq> win_running W os \<and> ((\<exists>run. r = Inr run) \<longrightarrow> win_handles W os' \<subseteq> win_handles W os)"
  using assms by (rule supervise_no_orphans)

theorem launcher_leaves_no_orphans_witness:
  "win_running (mini_win True 3) (snd (snd (supervise (mini_win True 3) (\<lambda>_ _ _ _ _ _. (0, [])) [] mini_probe ''chainlite.exe'' (args_parse []) Map.empty mini_os0))) = {} \<and>
   win_handles (mini_win True 9) (snd (snd (supervise (mini_win True 9) (\<lambda>_ _ _ _ _ _. (200, [])) [] mini_probe ''chainlite.exe'' (args_parse []) Map.empty mini_os0))) = {}"
proof -
  let ?s = "supervise (mini_win True 3) (\<lambda>_ _ _ _ _ _. (0, [])) [] mini_probe ''chainlite.exe'' (args_parse []) Map.empty mini_os0"
  have "?s = (fst ?s, fst (snd ?s), snd (snd ?s))" by simp
  note fails = launcher_leaves_no_orphans [OF mini_win_laws this disjI1 [OF mini_win_jobs_work]]
  obtain run fs os where r: "supervise (mini_win True 9) (\<lambda>_ _ _ _ _ _. (200, [])) [] mini_probe ''chainlite.exe'' (args_parse []) Map.empty mini_os0 =
      (Inr run, fs, os)" using mini_started by metis
  note runs = launcher_leaves_no_orphans [OF mini_win_laws r disjI1 [OF mini_win_jobs_work]]
  show ?thesis using fails runs by (simp add: r) (simp add: mini_win_def win_running_def mini_os0_def)
qed

section \<open>Encodings\<close>

text \<open>
  C40: The proof-of-work test compares the hash, read as a big-endian number, with the target 2^(256 - bits).
\<close>

theorem pow_target:
  assumes "length h = 32"
  shows "pow_ok h bits \<longleftrightarrow> unat bits \<le> 256 \<and> be_value h < 2 ^ (256 - unat bits)"
  using assms by (rule pow_ok_iff)

theorem pow_target_witness: "pow_ok (replicate 31 0 @ [1]) 255 \<and> \<not> pow_ok (replicate 31 0 @ [1]) 256"
proof -
  have "be_value (replicate n 0 @ [1]) = 1" for n by (induction n) simp_all
  then show ?thesis using pow_target [of "replicate 31 0 @ [1]" 255] pow_target [of "replicate 31 0 @ [1]" 256] by simp
qed

section \<open>The test program\<close>



end
